(* ===== verification/Prelude.thy ===== *)
theory Prelude
  imports Main "HOL-Library.Word"
begin

text \<open>
  What the component theories share: bytes, the faults of C memory, the memory and string
  functions of the C library the sources call (memcpy, strncpy, strcpy, strlen, strstr,
  strchr, snprintf), numbers in decimal and hexadecimal, and the lemmas and collections
  (\<^theory_text>\<open>res_simps\<close>, \<^theory_text>\<open>mem_simps\<close>) the component proofs use.

  Conventions.  An \<open>unsigned char\<close> buffer is a \<open>byte list\<close>, a \<open>char\<close> buffer a \<open>string\<close>
  whose length is the size of the array.  A \<open>const char *\<close> argument is the list of its
  characters before the terminator.  An access outside an object, a use of NULL and the
  like are values of the type \<open>fault\<close>, so that memory safety is a statement about the
  result and not a side condition.  Sizes (\<open>size_t\<close>) are natural numbers; where the code
  can wrap around, the wrap-around is written out.
\<close>

section \<open>Faults and results\<close>

type_synonym byte = "8 word"

datatype fault = OutOfBounds | IntOverflow | NullDeref | DivByZero | BadFree | BadHandle

type_synonym 'a res = "fault + 'a"

definition bind_res :: "'a res \<Rightarrow> ('a \<Rightarrow> 'b res) \<Rightarrow> 'b res" where
  "bind_res r f = (case r of Inl e \<Rightarrow> Inl e | Inr x \<Rightarrow> f x)"

named_theorems res_simps \<open>evaluation of results and binds\<close>
named_theorems mem_simps \<open>C memory and string operations\<close>

lemma bind_res_Inl [simp]: "bind_res (Inl e) f = Inl e"
  by (simp add: bind_res_def)

lemma bind_res_Inr [simp]: "bind_res (Inr x) f = f x"
  by (simp add: bind_res_def)

lemma bind_res_eq_Inr [res_simps]:
  "bind_res r f = Inr y \<longleftrightarrow> (\<exists>x. r = Inr x \<and> f x = Inr y)"
  by (cases r) auto

lemma bind_res_assoc: "bind_res (bind_res r f) g = bind_res r (\<lambda>x. bind_res (f x) g)"
  by (cases r) auto

lemma bind_res_cong [fundef_cong]:
  "r = r' \<Longrightarrow> (\<And>x. r' = Inr x \<Longrightarrow> f x = g x) \<Longrightarrow> bind_res r f = bind_res r' g"
  by (cases r') auto

definition guard_res :: "bool \<Rightarrow> fault \<Rightarrow> unit res" where
  "guard_res b e = (if b then Inr () else Inl e)"

lemma guard_res_simps [simp]:
  "guard_res True e = Inr ()"
  "guard_res False e = Inl e"
  "guard_res b e = Inr u \<longleftrightarrow> b"
  by (simp_all add: guard_res_def)

section \<open>Memory\<close>

text \<open>
  \<open>memcpy_at dst off src\<close> is \<open>memcpy(dst + off, src, n)\<close> with the \<open>n\<close> source bytes given as
  a list; \<open>read_at src off n\<close> reads the \<open>n\<close> bytes at \<open>src + off\<close>.
\<close>

definition memcpy_at :: "'a list \<Rightarrow> nat \<Rightarrow> 'a list \<Rightarrow> 'a list res" where
  "memcpy_at dst off src =
     (if off + length src \<le> length dst
      then Inr (take off dst @ src @ drop (off + length src) dst)
      else Inl OutOfBounds)"

definition read_at :: "'a list \<Rightarrow> nat \<Rightarrow> nat \<Rightarrow> 'a list res" where
  "read_at src off n =
     (if off + n \<le> length src then Inr (take n (drop off src)) else Inl OutOfBounds)"

definition index_at :: "'a list \<Rightarrow> nat \<Rightarrow> 'a res" where
  "index_at xs i = (if i < length xs then Inr (xs ! i) else Inl OutOfBounds)"

definition store_at :: "'a list \<Rightarrow> nat \<Rightarrow> 'a \<Rightarrow> 'a list res" where
  "store_at xs i x = (if i < length xs then Inr (xs[i := x]) else Inl OutOfBounds)"

text \<open>
  A buffer that is filled from its start by \<open>out[j++] = c\<close>: the bytes written so far are
  \<open>out\<close>, so \<open>j\<close> is its length, and \<open>cap\<close> is the size of the object.
\<close>

definition put_next :: "nat \<Rightarrow> 'a list \<Rightarrow> 'a \<Rightarrow> 'a list res" where
  "put_next cap out c = (if length out < cap then Inr (out @ [c]) else Inl OutOfBounds)"

text \<open>
  The same where \<open>j\<close> is an \<open>int\<close>: incrementing it past \<open>INT_MAX\<close> is signed overflow.
\<close>

definition INT_MAX :: nat where "INT_MAX = 2147483647"

definition put_int :: "nat \<Rightarrow> 'a list \<Rightarrow> 'a \<Rightarrow> 'a list res" where
  "put_int cap out c =
     (if length out < INT_MAX then put_next cap out c else Inl IntOverflow)"

text \<open>\<open>size_t\<close> subtraction.\<close>

definition sz_sub :: "nat \<Rightarrow> nat \<Rightarrow> nat" where
  "sz_sub a b = (if b \<le> a then a - b else a + 2 ^ 64 - b)"

lemma memcpy_at_ok [mem_simps]:
  "off + length src \<le> length dst \<Longrightarrow>
   memcpy_at dst off src = Inr (take off dst @ src @ drop (off + length src) dst)"
  by (simp add: memcpy_at_def)

lemma memcpy_at_0 [mem_simps]:
  "length src \<le> length dst \<Longrightarrow> memcpy_at dst 0 src = Inr (src @ drop (length src) dst)"
  by (simp add: memcpy_at_def)

lemma memcpy_at_length: "memcpy_at dst off src = Inr dst' \<Longrightarrow> length dst' = length dst"
  by (auto simp: memcpy_at_def split: if_splits)

lemma read_at_ok [mem_simps]:
  "off + n \<le> length src \<Longrightarrow> read_at src off n = Inr (take n (drop off src))"
  by (simp add: read_at_def)

lemma read_at_length: "read_at src off n = Inr xs \<Longrightarrow> length xs = n"
  by (auto simp: read_at_def split: if_splits)

lemma index_at_ok [mem_simps]: "i < length xs \<Longrightarrow> index_at xs i = Inr (xs ! i)"
  by (simp add: index_at_def)

lemma store_at_ok [mem_simps]: "i < length xs \<Longrightarrow> store_at xs i x = Inr (xs[i := x])"
  by (simp add: store_at_def)

lemma put_next_ok [mem_simps]: "length out < cap \<Longrightarrow> put_next cap out c = Inr (out @ [c])"
  by (simp add: put_next_def)

lemma put_int_ok [mem_simps]:
  "length out < cap \<Longrightarrow> length out < INT_MAX \<Longrightarrow> put_int cap out c = Inr (out @ [c])"
  by (simp add: put_int_def put_next_def)

lemma put_next_full [mem_simps]: "cap \<le> length out \<Longrightarrow> put_next cap out c = Inl OutOfBounds"
  by (simp add: put_next_def)

text \<open>Copying a block into a buffer: what a later read of any one cell sees.\<close>

lemma nth_memcpy:
  assumes "memcpy_at dst off src = Inr dst'" and "i < length dst"
  shows "dst' ! i = (if off \<le> i \<and> i < off + length src then src ! (i - off) else dst ! i)"
  using assms by (auto simp: memcpy_at_def nth_append min_def split: if_splits)

lemma map_update_same: "f y = f (xs ! i) \<Longrightarrow> map f (xs[i := y]) = map f xs"
  by (metis list_update_id map_update)

section \<open>The heap\<close>

text \<open>
  Blocks from \<open>malloc\<close>: \<open>mem\<close> maps the address of every block that is allocated to its
  bytes.  Addresses are not reused (\<open>brk\<close> is above all of them), so a second
  \<open>free\<close> of a block is seen.  Every \<open>malloc\<close> of the sources that reaches the heap is
  followed by a \<open>memcpy\<close> of the whole block, so a block is created with its bytes.
\<close>

record c_heap =
  mem :: "nat \<Rightarrow> byte list option"
  brk :: nat

definition malloc_copy :: "byte list \<Rightarrow> c_heap \<Rightarrow> nat \<times> c_heap" where
  "malloc_copy d h = (brk h, h\<lparr>mem := (mem h)(brk h \<mapsto> d), brk := Suc (brk h)\<rparr>)"

definition free_blk :: "nat \<Rightarrow> c_heap \<Rightarrow> c_heap res" where
  "free_blk p h = (case mem h p of None \<Rightarrow> Inl BadFree | Some d \<Rightarrow> Inr (h\<lparr>mem := (mem h)(p := None)\<rparr>))"

definition load_blk :: "nat \<Rightarrow> c_heap \<Rightarrow> byte list res" where
  "load_blk p h = (case mem h p of None \<Rightarrow> Inl OutOfBounds | Some d \<Rightarrow> Inr d)"

definition heap_ok :: "c_heap \<Rightarrow> bool" where
  "heap_ok h \<longleftrightarrow> (\<forall>p. p \<in> dom (mem h) \<longrightarrow> p < brk h)"

definition empty_heap :: c_heap where
  "empty_heap = \<lparr>mem = Map.empty, brk = 0\<rparr>"

lemma heap_ok_empty [simp]: "heap_ok empty_heap"
  by (simp add: heap_ok_def empty_heap_def)

lemma heap_ok_malloc: "heap_ok h \<Longrightarrow> heap_ok (snd (malloc_copy d h))"
  by (auto simp: heap_ok_def malloc_copy_def less_Suc_eq)

lemma heap_ok_free: "heap_ok h \<Longrightarrow> free_blk p h = Inr h' \<Longrightarrow> heap_ok h'"
  by (auto simp: heap_ok_def free_blk_def dom_def split: option.splits if_splits)

lemma free_blk_ok [mem_simps]:
  "mem h p = Some d \<Longrightarrow> free_blk p h = Inr (h\<lparr>mem := (mem h)(p := None)\<rparr>)"
  by (simp add: free_blk_def)

lemma load_blk_ok [mem_simps]: "mem h p = Some d \<Longrightarrow> load_blk p h = Inr d"
  by (simp add: load_blk_def)

lemma heap_ok_fresh: "heap_ok h \<Longrightarrow> mem h (brk h) = None"
  by (cases "mem h (brk h)") (auto simp: heap_ok_def dom_def)

section \<open>C strings\<close>

abbreviation NUL :: char where "NUL \<equiv> CHR 0x00"

definition no_nul :: "string \<Rightarrow> bool" where
  "no_nul s \<longleftrightarrow> NUL \<notin> set s"

text \<open>The string a \<open>char\<close> array holds: its characters before the first terminator.\<close>

definition cstr :: "string \<Rightarrow> string" where
  "cstr buf = takeWhile (\<lambda>c. c \<noteq> NUL) buf"

definition strlen_arr :: "string \<Rightarrow> nat res" where
  "strlen_arr buf = (if NUL \<in> set buf then Inr (length (cstr buf)) else Inl OutOfBounds)"

text \<open>\<open>strncpy\<close> writes exactly \<open>n\<close> characters: the source cut at \<open>n\<close>, then zeros.\<close>

definition strncpy_block :: "string \<Rightarrow> nat \<Rightarrow> string" where
  "strncpy_block src n = take n (cstr src) @ replicate (n - length (cstr src)) NUL"

definition strncpy_at :: "string \<Rightarrow> nat \<Rightarrow> string \<Rightarrow> nat \<Rightarrow> string res" where
  "strncpy_at dst off src n = memcpy_at dst off (strncpy_block src n)"

text \<open>\<open>strcpy\<close> from an array: reads up to the terminator and copies it too.\<close>

definition strcpy_arr :: "string \<Rightarrow> string \<Rightarrow> string res" where
  "strcpy_arr dst src =
     (if NUL \<in> set src then memcpy_at dst 0 (cstr src @ [NUL]) else Inl OutOfBounds)"

text \<open>
  \<open>snprintf(buf, n, ...)\<close>: the string the buffer then holds, from the text the format
  stands for.
\<close>

definition snprintf_str :: "nat \<Rightarrow> string \<Rightarrow> string" where
  "snprintf_str n s = take (n - 1) s"

lemma length_strncpy_block [simp]: "length (strncpy_block src n) = n"
  by (simp add: strncpy_block_def)

lemma cstr_no_nul [simp]: "no_nul s \<Longrightarrow> cstr s = s"
  unfolding cstr_def no_nul_def takeWhile_eq_all_conv by auto

lemma no_nul_cstr [simp]: "no_nul (cstr s)"
  by (auto simp: no_nul_def cstr_def dest: set_takeWhileD)

lemma cstr_append_NUL [simp]: "cstr (s @ NUL # t) = cstr s"
  by (induction s) (auto simp: cstr_def)

lemma cstr_append: "no_nul s \<Longrightarrow> cstr (s @ t) = s @ cstr t"
  unfolding cstr_def no_nul_def by (rule takeWhile_append2) auto

lemma cstr_append_replicate [simp]: "cstr (s @ replicate n NUL) = cstr s"
  by (induction s) (auto simp: cstr_def)

lemma cstr_append_replicate_NUL [simp]: "cstr (s @ replicate n NUL @ [NUL]) = cstr s"
  using cstr_append_replicate[of s "Suc n"] by (simp add: replicate_append_same)

lemma no_nul_append [simp]: "no_nul (s @ t) \<longleftrightarrow> no_nul s \<and> no_nul t"
  by (auto simp: no_nul_def)

lemma no_nul_Nil [simp]: "no_nul []"
  by (simp add: no_nul_def)

lemma no_nul_Cons [simp]: "no_nul (c # s) \<longleftrightarrow> c \<noteq> NUL \<and> no_nul s"
  by (auto simp: no_nul_def)

lemma no_nul_take: "no_nul s \<Longrightarrow> no_nul (take n s)"
  by (auto simp: no_nul_def dest: in_set_takeD)

lemma no_nul_drop: "no_nul s \<Longrightarrow> no_nul (drop n s)"
  by (auto simp: no_nul_def dest: in_set_dropD)

lemma strlen_arr_ok [mem_simps]: "NUL \<in> set buf \<Longrightarrow> strlen_arr buf = Inr (length (cstr buf))"
  by (simp add: strlen_arr_def)

lemma length_cstr_less: "NUL \<in> set buf \<Longrightarrow> length (cstr buf) < length buf"
  by (induction buf) (auto simp: cstr_def)

lemma take_cstr: "take (length (cstr buf)) buf = cstr buf"
  by (metis append_eq_conv_conj cstr_def takeWhile_dropWhile_id)

section \<open>Searching strings\<close>

text \<open>Both return the rest of the string from the place that was found.\<close>

fun strstr :: "string \<Rightarrow> string \<Rightarrow> string option" where
  "strstr [] n = (if n = [] then Some [] else None)"
| "strstr (c # cs) n = (if take (length n) (c # cs) = n then Some (c # cs) else strstr cs n)"

definition strchr :: "string \<Rightarrow> char \<Rightarrow> string option" where
  "strchr s c = (case dropWhile (\<lambda>x. x \<noteq> c) s of [] \<Rightarrow> None | ys \<Rightarrow> Some ys)"

lemma strstr_SomeD:
  "strstr h n = Some r \<Longrightarrow> \<exists>p. h = p @ r \<and> take (length n) r = n"
  by (induction h) (auto split: if_splits intro: exI[of _ "[]"] dest: exI[of _ "_ # _"])

lemma strstr_here: "strstr (n @ r) n = Some (n @ r)"
proof -
  have t: "take (length n) (n @ r) = n" by simp
  show ?thesis
  proof (cases "n @ r")
    case Nil
    then show ?thesis by simp
  next
    case (Cons a l)
    with t show ?thesis by simp
  qed
qed

lemma strstr_append_found:
  assumes "strstr (p @ n) n = Some n" and "n \<noteq> []"
  shows "strstr (p @ n @ r) n = Some (n @ r)"
  using assms
proof (induction p)
  case Nil
  show ?case using strstr_here[of n r] by simp
next
  case (Cons c p)
  show ?case
  proof (cases "take (length n) (c # p @ n) = n")
    case True
    then have "c # p @ n = n" using Cons.prems(1) by simp
    then have "length (c # p @ n) = length n" by simp
    then show ?thesis by simp
  next
    case False
    then have "strstr (p @ n) n = Some n" using Cons.prems by simp
    then have IH: "strstr (p @ n @ r) n = Some (n @ r)" using Cons.IH Cons.prems by blast
    have "take (length n) ((c # p @ n) @ r) = take (length n) (c # p @ n)"
      unfolding take_append by simp
    then have "take (length n) (c # p @ n @ r) = take (length n) (c # p @ n)" by simp
    with False IH show ?thesis by simp
  qed
qed

lemma strstr_skip: "c \<notin> set p \<Longrightarrow> strstr (p @ r) (c # n) = strstr r (c # n)"
  by (induction p) auto

lemma strchr_append:
  "c \<notin> set s \<Longrightarrow> strchr (s @ c # t) c = Some (c # t)"
proof -
  assume "c \<notin> set s"
  then have "dropWhile (\<lambda>x. x \<noteq> c) (s @ c # t) = c # t"
    by (subst dropWhile_append2) auto
  then show ?thesis by (simp add: strchr_def)
qed

lemma strchr_None: "strchr s c = None \<longleftrightarrow> c \<notin> set s"
  by (auto simp: strchr_def split: list.splits)
    (metis (full_types) dropWhile_eq_Nil_conv list.distinct(1))

lemma strchr_SomeE:
  assumes "strchr s c = Some r"
  obtains p t where "s = p @ c # t" "r = c # t" "c \<notin> set p"
proof -
  from assms have r: "dropWhile (\<lambda>x. x \<noteq> c) s = r" "r \<noteq> []"
    by (auto simp: strchr_def split: list.splits)
  then have "hd r = c" using hd_dropWhile[of "\<lambda>x. x \<noteq> c" s] by auto
  then have "s = takeWhile (\<lambda>x. x \<noteq> c) s @ c # tl r" "r = c # tl r"
    using r takeWhile_dropWhile_id[of "\<lambda>x. x \<noteq> c" s] by (auto simp: neq_Nil_conv)
  moreover have "c \<notin> set (takeWhile (\<lambda>x. x \<noteq> c) s)" by (auto dest: set_takeWhileD)
  ultimately show ?thesis using that by blast
qed

section \<open>Numbers as text\<close>

text \<open>The digits of \<open>%d\<close>, \<open>%zu\<close>, \<open>%ld\<close> (base ten) and \<open>%zx\<close> (base sixteen).\<close>

fun digits :: "nat \<Rightarrow> nat \<Rightarrow> nat list" where
  "digits b n = (if b < 2 \<or> n < b then [n] else digits b (n div b) @ [n mod b])"

declare digits.simps [simp del]

definition digit_char :: "nat \<Rightarrow> char" where
  "digit_char d = ''0123456789abcdef'' ! d"

definition dec_str :: "nat \<Rightarrow> string" where
  "dec_str n = map digit_char (digits 10 n)"

definition hex_str :: "nat \<Rightarrow> string" where
  "hex_str n = map digit_char (digits 16 n)"

definition int_str :: "int \<Rightarrow> string" where
  "int_str i = (if i < 0 then CHR ''-'' # dec_str (nat (- i)) else dec_str (nat i))"

lemma digits_small [simp]: "n < b \<Longrightarrow> digits b n = [n]"
  by (simp add: digits.simps)

lemma digits_less: "2 \<le> b \<Longrightarrow> d \<in> set (digits b n) \<Longrightarrow> d < b"
proof (induction b n rule: digits.induct)
  case (1 b n)
  show ?case
  proof (cases "n < b")
    case True
    with 1 show ?thesis by simp
  next
    case False
    with 1(2) have "\<not> (b < 2 \<or> n < b)" by simp
    note IH = 1(1)[OF this 1(2)]
    from False 1 have "d \<in> set (digits b (n div b)) \<or> d = n mod b"
      by (auto simp: digits.simps[of b n])
    then show ?thesis using IH 1(2) by auto
  qed
qed

lemma digits_value: "2 \<le> b \<Longrightarrow> foldl (\<lambda>a d. a * b + d) 0 (digits b n) = n"
proof (induction b n rule: digits.induct)
  case (1 b n)
  show ?case
  proof (cases "n < b")
    case True
    then show ?thesis by simp
  next
    case False
    with 1 have "foldl (\<lambda>a d. a * b + d) 0 (digits b (n div b)) = n div b" by simp
    with False 1(2) show ?thesis by (simp add: digits.simps[of b n])
  qed
qed

lemma digits_not_Nil [simp]: "digits b n \<noteq> []"
  by (simp add: digits.simps)

lemma length_digits_le: "2 \<le> b \<Longrightarrow> n < b ^ Suc k \<Longrightarrow> length (digits b n) \<le> Suc k"
proof (induction k arbitrary: n)
  case 0
  then show ?case by simp
next
  case (Suc k)
  show ?case
  proof (cases "n < b")
    case True
    then show ?thesis by simp
  next
    case False
    from Suc.prems have "n div b < b ^ Suc k"
      by (simp add: less_mult_imp_div_less mult.commute)
    with Suc False show ?thesis by (simp add: digits.simps[of b n])
  qed
qed

lemma dec_str_3: "n < 1000 \<Longrightarrow> length (dec_str n) \<le> 3"
  using length_digits_le[of 10 n 2] by (simp add: dec_str_def)

section \<open>Casts between the two kinds of character\<close>

definition byte_of :: "char \<Rightarrow> byte" where
  "byte_of c = word_of_nat (of_char c)"

definition char_of_byte :: "byte \<Rightarrow> char" where
  "char_of_byte b = char_of (unat b)"

abbreviation bytes_of :: "string \<Rightarrow> byte list" where
  "bytes_of \<equiv> map byte_of"

abbreviation chars_of :: "byte list \<Rightarrow> string" where
  "chars_of \<equiv> map char_of_byte"

lemma byte_of_char_of_byte [simp]: "byte_of (char_of_byte b) = b"
proof -
  have "unat b < 2 ^ LENGTH(8)" by (rule unsigned_less)
  then show ?thesis by (simp add: byte_of_def char_of_byte_def)
qed

lemma char_of_byte_byte_of [simp]: "char_of_byte (byte_of c) = c"
  by (simp add: byte_of_def char_of_byte_def unat_of_nat)

lemma byte_of_comp [simp]: "byte_of \<circ> char_of_byte = id" "char_of_byte \<circ> byte_of = id"
  by (simp_all add: fun_eq_iff)

lemma bytes_of_chars_of: "bytes_of (chars_of bs) = bs"
  by simp

lemma chars_of_bytes_of: "chars_of (bytes_of s) = s"
  by simp

lemma byte_of_eq_iff [simp]: "byte_of c = byte_of d \<longleftrightarrow> c = d"
  by (metis char_of_byte_byte_of)

end
