(* ===== verification/Config.thy ===== *)
theory Config
  imports Prelude
begin

text \<open>
  The build-time constants of doll-replica-c: config.h, the audio settings of audio.h and
  the HTTP settings of http_client.h.  The two array sizes are kept folded in the proofs;
  the lemmas below are what the proofs use of them.
\<close>

definition SERVER_ADDRESS :: string where "SERVER_ADDRESS = ''127.0.0.1''"
definition SERVER_PORT :: nat where "SERVER_PORT = 8080"
definition WEBSOCKET_PATH :: string where "WEBSOCKET_PATH = ''/ws''"

definition MAX_MESSAGE_LENGTH :: nat where "MAX_MESSAGE_LENGTH = 65536"
definition MAX_QUEUE_SIZE :: nat where "MAX_QUEUE_SIZE = 10"

definition SAMPLE_RATE :: nat where "SAMPLE_RATE = 8000"
definition CHANNELS :: nat where "CHANNELS = 1"
definition FRAMES_PER_BUFFER :: nat where "FRAMES_PER_BUFFER = 512"
definition MAX_RECORDING_DURATION :: nat where "MAX_RECORDING_DURATION = 60"

definition HTTP_SERVER_ADDRESS :: string where "HTTP_SERVER_ADDRESS = ''127.0.0.1''"
definition HTTP_SERVER_PORT :: nat where "HTTP_SERVER_PORT = 8080"
definition HTTP_API_KEY :: string where "HTTP_API_KEY = ''John''"
definition HTTP_API_SECRET :: string where "HTTP_API_SECRET = ''Doe''"
definition MAX_JWT_TOKEN_LENGTH :: nat where "MAX_JWT_TOKEN_LENGTH = 1024"
definition MAX_HTTP_RESPONSE_LENGTH :: nat where "MAX_HTTP_RESPONSE_LENGTH = 4096"

lemma MAX_MESSAGE_LENGTH_pos [simp]: "0 < MAX_MESSAGE_LENGTH" "MAX_MESSAGE_LENGTH \<noteq> 0"
  by (simp_all add: MAX_MESSAGE_LENGTH_def)

lemma MAX_QUEUE_SIZE_gt_1 [simp]: "0 < MAX_QUEUE_SIZE" "Suc 0 < MAX_QUEUE_SIZE"
  by (simp_all add: MAX_QUEUE_SIZE_def)

end
