(* ===== verification/Utils.thy ===== *)
theory Utils
  imports Config
begin

unbundle bit_operations_syntax

text \<open>
  utils.c: the Base64 encoder and the timestamp.  The encoding loop is also the loop of
  \<open>encode_audio_to_base64\<close> in audio.c, so it takes the size of the output object as an
  argument and is shared.  \<open>b64_spec\<close> is the coding as the standard states it, group by
  group, and the loop is shown to compute it.
\<close>

section \<open>The encoder\<close>

definition base64_chars :: string where
  "base64_chars = ''ABCDEFGHIJKLMNOPQRSTUVWXYZabcdefghijklmnopqrstuvwxyz0123456789+/''"

definition b64_char :: "byte \<Rightarrow> char" where
  "b64_char k = base64_chars ! unat k"

text \<open>The four characters of one pass of the loop, from its three bytes.\<close>

definition sextet1 :: "byte \<Rightarrow> byte" where
  "sextet1 byte1 = drop_bit 2 byte1"

definition sextet2 :: "byte \<Rightarrow> byte \<Rightarrow> byte" where
  "sextet2 byte1 byte2 = push_bit 4 (byte1 AND 3) OR drop_bit 4 byte2"

definition sextet3 :: "byte \<Rightarrow> byte \<Rightarrow> byte" where
  "sextet3 byte2 byte3 = push_bit 2 (byte2 AND 15) OR drop_bit 6 byte3"

definition sextet4 :: "byte \<Rightarrow> byte" where
  "sextet4 byte3 = byte3 AND 63"

text \<open>
  \<open>out\<close> is what the loop has written so far and \<open>cap\<close> the size of the output object; every
  \<open>output[j++]\<close> is checked against it.  The terminator is the last write.
\<close>

function encode_loop :: "nat \<Rightarrow> byte list \<Rightarrow> nat \<Rightarrow> string \<Rightarrow> string res" where
  "encode_loop cap input i out =
     (if i < length input then
        (let byte1 = input ! i;
             byte2 = (if i + 1 < length input then input ! (i + 1) else 0);
             byte3 = (if i + 2 < length input then input ! (i + 2) else 0) in
         bind_res (put_int cap out (b64_char (sextet1 byte1))) (\<lambda>o1.
         bind_res (put_int cap o1 (b64_char (sextet2 byte1 byte2))) (\<lambda>o2.
         bind_res (put_int cap o2
             (if i + 1 < length input then b64_char (sextet3 byte2 byte3) else CHR ''='')) (\<lambda>o3.
         bind_res (put_int cap o3
             (if i + 2 < length input then b64_char (sextet4 byte3) else CHR ''='')) (\<lambda>o4.
         encode_loop cap input (i + 3) o4)))))
      else put_int cap out NUL)"
  by pat_completeness auto
termination
  by (relation "measure (\<lambda>(cap, input, i, out). length input - i)") auto

declare encode_loop.simps [simp del]

definition encode_base64 :: "nat \<Rightarrow> string \<Rightarrow> string res" where
  "encode_base64 cap input = encode_loop cap (bytes_of input) 0 []"

section \<open>The timestamp\<close>

text \<open>
  \<open>strftime\<close> with \<open>%H:%M:%S\<close> on the local time the C library reports: it fills the
  buffer when text and terminator fit, and leaves it indeterminate (\<open>None\<close>) otherwise.
\<close>

definition two_digits :: "nat \<Rightarrow> string" where
  "two_digits n = [digit_char (n div 10), digit_char (n mod 10)]"

definition get_timestamp :: "nat \<Rightarrow> nat \<times> nat \<times> nat \<Rightarrow> string option" where
  "get_timestamp sz tm =
     (case tm of (h, m, sec) \<Rightarrow>
        (let t = two_digits h @ '':'' @ two_digits m @ '':'' @ two_digits sec
         in if length t < sz then Some t else None))"

lemma get_timestamp_fits: "8 < sz \<Longrightarrow> \<exists>t. get_timestamp sz tm = Some t \<and> length t = 8"
  by (cases tm) (simp add: get_timestamp_def two_digits_def)

section \<open>The coding, group by group\<close>

fun b64_spec :: "byte list \<Rightarrow> string" where
  "b64_spec [] = []"
| "b64_spec [a] = [b64_char (sextet1 a), b64_char (sextet2 a 0), CHR ''='', CHR ''='']"
| "b64_spec [a, b] =
     [b64_char (sextet1 a), b64_char (sextet2 a b), b64_char (sextet3 b 0), CHR ''='']"
| "b64_spec (a # b # c # xs) =
     b64_char (sextet1 a) # b64_char (sextet2 a b) # b64_char (sextet3 b c) # b64_char (sextet4 c)
       # b64_spec xs"

lemma length_b64_spec: "length (b64_spec xs) = (length xs + 2) div 3 * 4"
proof (induction xs rule: b64_spec.induct)
  case (4 a b c xs)
  have "(length (a # b # c # xs) + 2) div 3 = Suc ((length xs + 2) div 3)" by simp
  with 4 show ?case by simp
qed auto

lemma drop_eq_nth_Cons:
  "drop i xs = a # ys \<Longrightarrow> i < length xs \<and> xs ! i = a \<and> drop (Suc i) xs = ys"
  by (metis drop_all drop_Suc list.discI list.sel(1) list.sel(3) hd_drop_conv_nth linorder_not_le tl_drop)

lemma encode_loop_spec:
  "drop i input = xs \<Longrightarrow> length out + length (b64_spec xs) < min cap INT_MAX \<Longrightarrow>
   encode_loop cap input i out = Inr (out @ b64_spec xs @ [NUL])"
proof (induction xs arbitrary: i out rule: b64_spec.induct)
  case 1
  then show ?case by (simp add: encode_loop.simps[of cap input i] put_int_ok)
next
  case (2 a)
  note d0 = drop_eq_nth_Cons[OF 2(1)]
  then have "length input = i + 1" by simp
  with d0 2(2) show ?case
    by (simp add: encode_loop.simps[of cap input i] encode_loop.simps[of cap input "i + 3"]
        put_int_ok)
next
  case (3 a b)
  note d0 = drop_eq_nth_Cons[OF 3(1)]
  then have d1: "Suc i < length input" "input ! Suc i = b" "drop (Suc (Suc i)) input = []"
    using drop_eq_nth_Cons[of "Suc i" input b "[]"] by auto
  then have "length input = i + 2" by simp
  with d0 d1 3(2) show ?case
    by (simp add: encode_loop.simps[of cap input i] encode_loop.simps[of cap input "i + 3"]
        put_int_ok)
next
  case (4 a b c xs)
  note d0 = drop_eq_nth_Cons[OF 4(2)]
  then have d1: "Suc i < length input" "input ! Suc i = b" "drop (Suc (Suc i)) input = c # xs"
    using drop_eq_nth_Cons[of "Suc i" input b "c # xs"] by auto
  then have d2: "Suc (Suc i) < length input" "input ! Suc (Suc i) = c" "drop (i + 3) input = xs"
    using drop_eq_nth_Cons[of "Suc (Suc i)" input c xs] by (auto simp: numeral_3_eq_3)
  let ?o = "out @ [b64_char (sextet1 a), b64_char (sextet2 a b), b64_char (sextet3 b c), b64_char (sextet4 c)]"
  have "encode_loop cap input i out = encode_loop cap input (i + 3) ?o"
    using d0 d1 d2 4(3) by (simp add: encode_loop.simps[of cap input i] put_int_ok Let_def)
  also have "\<dots> = Inr (?o @ b64_spec xs @ [NUL])"
    by (rule 4(1)) (use d2 4(3) in auto)
  finally show ?case by simp
qed

lemma encode_loop_full:
  "encode_loop cap input 0 [] = Inr (b64_spec input @ [NUL])" if "length (b64_spec input) < min cap INT_MAX"
  using encode_loop_spec[of 0 input input "[]" cap] that by simp

section \<open>The six-bit values\<close>

lemma masks: "(x :: byte) AND 63 = take_bit 6 x" "x AND 15 = take_bit 4 x" "x AND 3 = take_bit 2 x"
  by (simp_all add: take_bit_eq_mask mask_eq_exp_minus_1)

lemma take_bit_6_less: "take_bit 6 (x :: byte) = x \<Longrightarrow> unat x < 64"
proof -
  assume "take_bit 6 x = x"
  then have "unat x = take_bit 6 (unat x)" by (metis unsigned_take_bit_eq)
  also have "\<dots> < 2 ^ 6" by (rule take_bit_nat_less_exp)
  finally show "unat x < 64" by simp
qed

text \<open>Two bytes are equal when their eight bits are.\<close>

lemma byte_eqI:
  fixes x y :: byte
  assumes "bit x 0 = bit y 0" "bit x 1 = bit y 1" "bit x 2 = bit y 2" "bit x 3 = bit y 3"
    "bit x 4 = bit y 4" "bit x 5 = bit y 5" "bit x 6 = bit y 6" "bit x 7 = bit y 7"
  shows "x = y"
proof (rule bit_word_eqI)
  fix n assume "n < LENGTH(8)"
  then have "n \<in> {0, 1, 2, 3, 4, 5, 6, 7}" by auto
  with assms show "bit x n = bit y n" by blast
qed

lemma bit_ge_8 [simp]: "8 \<le> n \<Longrightarrow> \<not> bit (x :: byte) n"
  by (rule impossible_bit) (simp add: possible_bit_def)

lemmas sextet_defs = sextet1_def sextet2_def sextet3_def sextet4_def

lemma sextets_six_bits:
  "take_bit 6 (sextet1 a) = sextet1 a" "take_bit 6 (sextet2 a b) = sextet2 a b"
  "take_bit 6 (sextet3 a b) = sextet3 a b" "take_bit 6 (sextet4 a) = sextet4 a"
  by (rule byte_eqI; simp add: sextet_defs masks bit_simps)+

lemma sextets_less [simp]:
  "unat (sextet1 a) < 64" "unat (sextet2 a b) < 64" "unat (sextet3 a b) < 64" "unat (sextet4 a) < 64"
  by (rule take_bit_6_less, rule sextets_six_bits)+

text \<open>Three bytes from four sextets: the shifts of the decoder undo those of the encoder.\<close>

lemma sextets_byte1: "push_bit 2 (sextet1 a) OR drop_bit 4 (sextet2 a b) = a"
  by (rule byte_eqI; simp add: sextet_defs masks bit_simps)

lemma sextets_byte2: "push_bit 4 (sextet2 a b AND 15) OR drop_bit 2 (sextet3 b c) = b"
  by (rule byte_eqI; simp add: sextet_defs masks bit_simps)

lemma sextets_byte3: "push_bit 6 (sextet3 b c AND 3) OR sextet4 c = c"
  by (rule byte_eqI; simp add: sextet_defs masks bit_simps)

section \<open>Properties\<close>



end
