(* ===== verification/Interfaces.thy ===== *)
theory Interfaces
  imports Prelude
begin

text \<open>
  The contracts between the components.  \<open>bounded_queue\<close> is what the producers and the
  consumer of outgoing messages rely on (message_queue.c provides it); \<open>byte_pipe\<close> is
  what the WebSocket thread and the audio thread rely on (the ring buffer of audio.c
  provides it); \<open>codec\<close> is an encoder with its decoder (Base64, the chunked transfer
  coding).  The clients' arguments are made once, from the laws.
\<close>

section \<open>Bounded queues\<close>

datatype 'x qop = Put 'x | Take

text \<open>
  Running a list of operations: the last state, the elements that were accepted and the
  elements that came out, each in order.
\<close>

fun run_queue :: "('x \<Rightarrow> 'q \<Rightarrow> ('q \<times> bool) res) \<Rightarrow> ('q \<Rightarrow> ('q \<times> 'x option) res) \<Rightarrow>
    'x qop list \<Rightarrow> 'q \<Rightarrow> ('q \<times> 'x list \<times> 'x list) res" where
  "run_queue enq deq [] q = Inr (q, [], [])"
| "run_queue enq deq (Put x # ops) q =
     bind_res (enq x q) (\<lambda>(q', ok).
     bind_res (run_queue enq deq ops q') (\<lambda>(q'', acc, out).
     Inr (q'', (if ok then x # acc else acc), out)))"
| "run_queue enq deq (Take # ops) q =
     bind_res (deq q) (\<lambda>(q', r).
     bind_res (run_queue enq deq ops q') (\<lambda>(q'', acc, out).
     Inr (q'', acc, (case r of None \<Rightarrow> out | Some x \<Rightarrow> x # out))))"

text \<open>The specification: a list that refuses elements beyond its capacity.\<close>

fun spec_queue :: "nat \<Rightarrow> 'x qop list \<Rightarrow> 'x list \<Rightarrow> 'x list \<times> 'x list \<times> 'x list" where
  "spec_queue cap [] xs = (xs, [], [])"
| "spec_queue cap (Put x # ops) xs =
     (if length xs < cap
      then (case spec_queue cap ops (xs @ [x]) of (ys, acc, out) \<Rightarrow> (ys, x # acc, out))
      else spec_queue cap ops xs)"
| "spec_queue cap (Take # ops) xs =
     (case xs of [] \<Rightarrow> spec_queue cap ops []
      | x # xs' \<Rightarrow> (case spec_queue cap ops xs' of (ys, acc, out) \<Rightarrow> (ys, acc, x # out)))"

definition puts_ok :: "('x \<Rightarrow> bool) \<Rightarrow> 'x qop list \<Rightarrow> bool" where
  "puts_ok P ops \<longleftrightarrow> (\<forall>x. Put x \<in> set ops \<longrightarrow> P x)"

lemma puts_ok_simps [simp]:
  "puts_ok P []"
  "puts_ok P (Put x # ops) \<longleftrightarrow> P x \<and> puts_ok P ops"
  "puts_ok P (Take # ops) \<longleftrightarrow> puts_ok P ops"
  by (auto simp: puts_ok_def)

lemma spec_queue_fifo: "spec_queue cap ops xs = (ys, acc, out) \<Longrightarrow> xs @ acc = out @ ys"
  by (induction cap ops xs arbitrary: ys acc out rule: spec_queue.induct)
    (auto split: if_splits list.splits prod.splits)

lemma spec_queue_bound:
  "spec_queue cap ops xs = (ys, acc, out) \<Longrightarrow> length xs \<le> cap \<Longrightarrow> length ys \<le> cap"
  by (induction cap ops xs arbitrary: ys acc out rule: spec_queue.induct)
    (auto split: if_splits list.splits prod.splits)

text \<open>A run that takes often enough empties the queue.\<close>

lemma spec_queue_drain: "spec_queue cap (replicate (length xs) Take) xs = ([], [], xs)"
  by (induction xs) auto

locale bounded_queue =
  fixes enq :: "'x \<Rightarrow> 'q \<Rightarrow> ('q \<times> bool) res"
    and deq :: "'q \<Rightarrow> ('q \<times> 'x option) res"
    and items :: "'q \<Rightarrow> 'x list"
    and inv :: "'q \<Rightarrow> bool"
    and accepts :: "'x \<Rightarrow> bool"
    and cap :: nat
  assumes enq_room: "inv q \<Longrightarrow> accepts x \<Longrightarrow> length (items q) < cap \<Longrightarrow>
      \<exists>q'. enq x q = Inr (q', True) \<and> inv q' \<and> items q' = items q @ [x]"
    and enq_full: "inv q \<Longrightarrow> cap \<le> length (items q) \<Longrightarrow> enq x q = Inr (q, False)"
    and deq_empty: "inv q \<Longrightarrow> items q = [] \<Longrightarrow> deq q = Inr (q, None)"
    and deq_first: "inv q \<Longrightarrow> items q = x # xs \<Longrightarrow>
      \<exists>q'. deq q = Inr (q', Some x) \<and> inv q' \<and> items q' = xs"
begin

text \<open>Every run refines the specification: no fault, and the same elements at each point.\<close>

lemma run_refines:
  "inv q \<Longrightarrow> puts_ok accepts ops \<Longrightarrow>
   \<exists>q' acc out. run_queue enq deq ops q = Inr (q', acc, out) \<and> inv q' \<and>
     spec_queue cap ops (items q) = (items q', acc, out)"
proof (induction ops arbitrary: q)
  case Nil
  then show ?case by simp
next
  case (Cons op ops)
  show ?case
  proof (cases op)
    case (Put x)
    show ?thesis
    proof (cases "length (items q) < cap")
      case True
      with Cons.prems Put obtain q1 where q1: "enq x q = Inr (q1, True)" "inv q1" "items q1 = items q @ [x]"
        using enq_room by fastforce
      from Cons.IH[OF q1(2)] Cons.prems(2) Put show ?thesis using q1 True by auto
    next
      case False
      then have "enq x q = Inr (q, False)" using enq_full Cons.prems(1) by simp
      moreover from Cons.IH[OF Cons.prems(1)] Cons.prems(2) Put False show ?thesis
        using calculation by auto
    qed
  next
    case Take
    show ?thesis
    proof (cases "items q")
      case Nil
      then have "deq q = Inr (q, None)" using deq_empty Cons.prems(1) by simp
      with Cons.IH[OF Cons.prems(1)] Cons.prems(2) Take Nil show ?thesis by auto
    next
      case (Cons x xs)
      from deq_first[OF Cons.prems(1) Cons] obtain q1
        where q1: "deq q = Inr (q1, Some x)" "inv q1" "items q1 = xs" by blast
      from Cons.IH[OF q1(2)] Cons.prems(2) Take Cons show ?thesis using q1 by auto
    qed
  qed
qed

lemma run_fifo:
  assumes "inv q" and "puts_ok accepts ops"
  shows "\<exists>q' acc out. run_queue enq deq ops q = Inr (q', acc, out) \<and> items q @ acc = out @ items q'"
  using run_refines[OF assms] spec_queue_fifo by blast

lemma run_bounded:
  assumes "inv q" and "puts_ok accepts ops" and "length (items q) \<le> cap"
    and "run_queue enq deq ops q = Inr (q', acc, out)"
  shows "length (items q') \<le> cap"
  using run_refines[OF assms(1,2)] assms(3,4) spec_queue_bound by fastforce

lemma drain:
  assumes "inv q"
  shows "\<exists>q'. run_queue enq deq (replicate (length (items q)) Take) q = Inr (q', [], items q) \<and> items q' = []"
proof -
  have "puts_ok accepts (replicate (length (items q)) Take)" by (auto simp: puts_ok_def)
  from run_refines[OF assms this] show ?thesis by (auto simp: spec_queue_drain)
qed

end

section \<open>Byte pipes between two threads\<close>

text \<open>
  The outcome of one pass through the critical section of a blocking operation: it waits
  on its condition variable, or it returns.
\<close>

datatype 'a attempt = Wait | Done 'a

datatype turn = Writer | Reader

text \<open>
  A writer with chunks to write and a reader that asks for blocks of \<open>n\<close> bytes, scheduled
  by an explicit list of turns.  A thread whose attempt waits stays where it is.
\<close>

record 'b pipe_state =
  pipe :: 'b
  pending :: "byte list list"
  got :: "byte list"

definition pipe_turn :: "('b \<Rightarrow> byte list \<Rightarrow> ('b \<times> bool) attempt res) \<Rightarrow>
    ('b \<Rightarrow> nat \<Rightarrow> ('b \<times> byte list option) attempt res) \<Rightarrow> nat \<Rightarrow>
    turn \<Rightarrow> 'b pipe_state \<Rightarrow> 'b pipe_state res" where
  "pipe_turn put get n t s =
     (case t of
        Writer \<Rightarrow>
          (case pending s of
             [] \<Rightarrow> Inr s
           | c # cs \<Rightarrow> bind_res (put (pipe s) c) (\<lambda>r. case r of
                 Wait \<Rightarrow> Inr s
               | Done (b, ok) \<Rightarrow> Inr (s\<lparr>pipe := b, pending := cs\<rparr>)))
      | Reader \<Rightarrow>
          bind_res (get (pipe s) n) (\<lambda>r. case r of
             Wait \<Rightarrow> Inr s
           | Done (b, None) \<Rightarrow> Inr (s\<lparr>pipe := b\<rparr>)
           | Done (b, Some d) \<Rightarrow> Inr (s\<lparr>pipe := b, got := got s @ d\<rparr>)))"

fun run_pipe :: "('b \<Rightarrow> byte list \<Rightarrow> ('b \<times> bool) attempt res) \<Rightarrow>
    ('b \<Rightarrow> nat \<Rightarrow> ('b \<times> byte list option) attempt res) \<Rightarrow> nat \<Rightarrow>
    turn list \<Rightarrow> 'b pipe_state \<Rightarrow> 'b pipe_state res" where
  "run_pipe put get n [] s = Inr s"
| "run_pipe put get n (t # ts) s = bind_res (pipe_turn put get n t s) (run_pipe put get n ts)"

locale byte_pipe =
  fixes put :: "'b \<Rightarrow> byte list \<Rightarrow> ('b \<times> bool) attempt res"
    and get :: "'b \<Rightarrow> nat \<Rightarrow> ('b \<times> byte list option) attempt res"
    and bytes :: "'b \<Rightarrow> byte list"
    and inv :: "'b \<Rightarrow> bool"
    and cap :: "'b \<Rightarrow> nat"
  assumes put_room: "inv b \<Longrightarrow> length (bytes b) + length d \<le> cap b \<Longrightarrow>
      \<exists>b'. put b d = Inr (Done (b', True)) \<and> inv b' \<and> bytes b' = bytes b @ d \<and> cap b' = cap b"
    and put_wait: "inv b \<Longrightarrow> cap b < length (bytes b) + length d \<Longrightarrow> put b d = Inr Wait"
    and get_ready: "inv b \<Longrightarrow> n \<le> length (bytes b) \<Longrightarrow>
      \<exists>b'. get b n = Inr (Done (b', Some (take n (bytes b)))) \<and> inv b' \<and>
        bytes b' = drop n (bytes b) \<and> cap b' = cap b"
    and get_wait: "inv b \<Longrightarrow> length (bytes b) < n \<Longrightarrow> get b n = Inr Wait"
begin

lemma turn_ok:
  assumes "inv (pipe s)"
  shows "\<exists>s'. pipe_turn put get n t s = Inr s' \<and> inv (pipe s') \<and> cap (pipe s') = cap (pipe s) \<and>
    got s' @ bytes (pipe s') @ concat (pending s') = got s @ bytes (pipe s) @ concat (pending s)"
proof (cases t)
  case Writer
  show ?thesis
  proof (cases "pending s")
    case Nil
    with Writer assms show ?thesis by (simp add: pipe_turn_def)
  next
    case (Cons c cs)
    show ?thesis
    proof (cases "length (bytes (pipe s)) + length c \<le> cap (pipe s)")
      case True
      from put_room[OF assms this] Writer Cons show ?thesis by (auto simp: pipe_turn_def)
    next
      case False
      then have "put (pipe s) c = Inr Wait" using put_wait assms by simp
      with Writer Cons assms show ?thesis by (simp add: pipe_turn_def)
    qed
  qed
next
  case Reader
  show ?thesis
  proof (cases "n \<le> length (bytes (pipe s))")
    case True
    from get_ready[OF assms this] Reader show ?thesis by (auto simp: pipe_turn_def)
  next
    case False
    then have "get (pipe s) n = Inr Wait" using get_wait assms by simp
    with Reader assms show ?thesis by (simp add: pipe_turn_def)
  qed
qed

text \<open>Whatever the schedule: nothing is lost, doubled or reordered, and nothing faults.\<close>

lemma run_stream:
  "inv (pipe s) \<Longrightarrow>
   \<exists>s'. run_pipe put get n ts s = Inr s' \<and> inv (pipe s') \<and> cap (pipe s') = cap (pipe s) \<and>
     got s' @ bytes (pipe s') @ concat (pending s') = got s @ bytes (pipe s) @ concat (pending s)"
proof (induction ts arbitrary: s)
  case Nil
  then show ?case by simp
next
  case (Cons t ts)
  from turn_ok[OF Cons.prems] obtain s1 where s1: "pipe_turn put get n t s = Inr s1" "inv (pipe s1)"
    "cap (pipe s1) = cap (pipe s)"
    "got s1 @ bytes (pipe s1) @ concat (pending s1) = got s @ bytes (pipe s) @ concat (pending s)"
    by blast
  from Cons.IH[OF s1(2)] s1 show ?case by auto
qed

text \<open>
  While chunks wait, one of the two threads can move, provided a chunk and a block together
  exceed the capacity by at most one byte.
\<close>

lemma no_deadlock:
  assumes "inv (pipe s)" and "pending s = c # cs" and "length c + n \<le> Suc (cap (pipe s))" and "0 < n"
  shows "put (pipe s) c \<noteq> Inr Wait \<or> get (pipe s) n \<noteq> Inr Wait"
proof (cases "length (bytes (pipe s)) + length c \<le> cap (pipe s)")
  case True
  from put_room[OF assms(1) this] show ?thesis by auto
next
  case False
  with assms(3) have "n \<le> length (bytes (pipe s))" by simp
  from get_ready[OF assms(1) this] show ?thesis by auto
qed

text \<open>A chunk larger than the whole buffer is never written: its writer waits in every state.\<close>

lemma oversized_waits:
  assumes "inv b" and "cap b < length c"
  shows "put b c = Inr Wait"
  using assms by (simp add: put_wait)

lemma oversized_stuck:
  "inv (pipe s) \<Longrightarrow> pending s = c # cs \<Longrightarrow> cap (pipe s) < length c \<Longrightarrow>
   \<exists>s'. run_pipe put get n ts s = Inr s' \<and> pending s' = c # cs"
proof (induction ts arbitrary: s)
  case Nil
  then show ?case by simp
next
  case (Cons t ts)
  from turn_ok[OF Cons.prems(1)] obtain s1 where s1: "pipe_turn put get n t s = Inr s1" "inv (pipe s1)"
    "cap (pipe s1) = cap (pipe s)" by blast
  have "pending s1 = c # cs"
  proof (cases t)
    case Writer
    with s1(1) Cons.prems oversized_waits show ?thesis by (simp add: pipe_turn_def)
  next
    case Reader
    show ?thesis
    proof (cases "n \<le> length (bytes (pipe s))")
      case True
      from get_ready[OF Cons.prems(1) True] s1(1) Reader Cons.prems(2) show ?thesis
        by (auto simp: pipe_turn_def)
    next
      case False
      then have "get (pipe s) n = Inr Wait" using get_wait Cons.prems(1) by simp
      with s1(1) Reader Cons.prems(2) show ?thesis by (auto simp: pipe_turn_def)
    qed
  qed
  from Cons.IH[OF s1(2) this] s1 Cons.prems(3) show ?case by auto
qed

end

section \<open>Encoders with their decoders\<close>

locale codec =
  fixes enc :: "'a \<Rightarrow> 'c"
    and dec :: "'c \<Rightarrow> 'a option"
    and valid :: "'a \<Rightarrow> bool"
  assumes dec_enc: "valid x \<Longrightarrow> dec (enc x) = Some x"
begin

lemma enc_inj: "valid x \<Longrightarrow> valid y \<Longrightarrow> enc x = enc y \<Longrightarrow> x = y"
  by (metis dec_enc option.inject)

lemma dec_image: "valid x \<Longrightarrow> enc x = c \<Longrightarrow> dec c = Some x"
  using dec_enc by blast

end

end
