(* ===== verification/Audio_Base64.thy ===== *)
theory Audio_Base64
  imports Utils Interfaces
begin

text \<open>
  The Base64 routines of audio.c.  The decoder looks characters up with
  \<open>strchr(base64_chars, c) - base64_chars\<close>, which for a character outside the alphabet (the
  padding included) subtracts from NULL; C does not say what that gives, so the byte it is
  truncated to is an argument, \<open>nullidx\<close>, and the theorems hold for every value of it.
\<close>

section \<open>Encoding\<close>

definition base64_size :: "nat \<Rightarrow> nat" where
  "base64_size n = (n + 2) div 3 * 4 + 1"

definition encode_audio_to_base64 :: "bool \<Rightarrow> byte list \<Rightarrow> string option res" where
  "encode_audio_to_base64 mok audio_data =
     (if \<not> mok then Inr None
      else bind_res (encode_loop (base64_size (length audio_data)) audio_data 0 []) (\<lambda>s. Inr (Some s)))"

section \<open>Decoding\<close>

definition b64_index :: "byte \<Rightarrow> char \<Rightarrow> byte" where
  "b64_index nullidx c =
     (case strchr base64_chars c of
        None \<Rightarrow> nullidx
      | Some r \<Rightarrow> word_of_nat (length base64_chars - length r))"

text \<open>
  \<open>input_length * 3\<close> is an \<open>int\<close> product; the two look-ups of the padding read before the
  string when it is shorter than two characters; the decrements are on a \<open>size_t\<close>.
\<close>

definition decoded_size :: "string \<Rightarrow> nat res" where
  "decoded_size input =
     (let n = length input in
      bind_res (guard_res (n * 3 \<le> INT_MAX) IntOverflow) (\<lambda>_.
      bind_res (guard_res (2 \<le> n) OutOfBounds) (\<lambda>_.
      (let s0 = n * 3 div 4;
           s1 = (if input ! (n - 1) = CHR ''='' then sz_sub s0 1 else s0);
           s2 = (if input ! (n - 2) = CHR ''='' then sz_sub s1 1 else s1)
       in Inr s2))))"

function decode_loop :: "byte \<Rightarrow> nat \<Rightarrow> string \<Rightarrow> nat \<Rightarrow> byte list \<Rightarrow> byte list res" where
  "decode_loop nullidx output_size input i out =
     (if i < length input then
        (let byte1 = b64_index nullidx (input ! i);
             byte2 = (if i + 1 < length input then b64_index nullidx (input ! (i + 1)) else 0);
             byte3 = (if i + 2 < length input then b64_index nullidx (input ! (i + 2)) else 0);
             byte4 = (if i + 3 < length input then b64_index nullidx (input ! (i + 3)) else 0) in
         bind_res (put_next output_size out (push_bit 2 byte1 OR drop_bit 4 byte2)) (\<lambda>o1.
         bind_res (if length o1 < output_size
                   then put_next output_size o1 (push_bit 4 (byte2 AND 15) OR drop_bit 2 byte3)
                   else Inr o1) (\<lambda>o2.
         bind_res (if length o2 < output_size
                   then put_next output_size o2 (push_bit 6 (byte3 AND 3) OR byte4)
                   else Inr o2) (\<lambda>o3.
         decode_loop nullidx output_size input (i + 4) o3))))
      else Inr out)"
  by pat_completeness auto
termination
  by (relation "measure (\<lambda>(nullidx, sz, input, i, out). length input - i)") auto

declare decode_loop.simps [simp del]

text \<open>The result: the bytes written to the block and the size reported for it.\<close>

definition decode_base64_audio :: "byte \<Rightarrow> bool \<Rightarrow> string \<Rightarrow> (byte list \<times> nat) option res" where
  "decode_base64_audio nullidx mok input =
     bind_res (decoded_size input) (\<lambda>sz.
     if \<not> mok then Inr None
     else bind_res (decode_loop nullidx sz input 0 []) (\<lambda>out. Inr (Some (out, sz))))"

section \<open>The alphabet\<close>

lemma base64_chars_length: "length base64_chars = 64"
  by (simp add: base64_chars_def)

lemma base64_chars_index:
  "\<forall>k \<in> {..<64}. b64_index x (base64_chars ! k) = word_of_nat k \<and> base64_chars ! k \<noteq> CHR ''=''"
proof -
  have d: "distinct base64_chars" and e: "CHR ''='' \<notin> set base64_chars"
    by (simp_all add: base64_chars_def)
  have "b64_index x (base64_chars ! k) = word_of_nat k" if "k < 64" for k
  proof -
    have k: "k < length base64_chars" using that base64_chars_length by simp
    have split: "base64_chars = take k base64_chars @ base64_chars ! k # drop (Suc k) base64_chars"
      using id_take_nth_drop[OF k] .
    have "base64_chars ! k \<notin> set (take k base64_chars)"
      using d split by (metis distinct_append disjoint_iff distinct.simps(2) list.set_intros(1))
    from strchr_append[OF this, of "drop (Suc k) base64_chars"] split
    have "strchr base64_chars (base64_chars ! k) = Some (base64_chars ! k # drop (Suc k) base64_chars)"
      by simp
    then show ?thesis using k by (simp add: b64_index_def)
  qed
  then show ?thesis using e base64_chars_length by (metis lessThan_iff nth_mem)
qed

lemma b64_index_char [simp]: "unat k < 64 \<Longrightarrow> b64_index x (b64_char k) = k"
  using base64_chars_index[of x] by (simp add: b64_char_def)

lemma b64_char_not_pad [simp]: "unat k < 64 \<Longrightarrow> b64_char k \<noteq> CHR ''=''"
  using base64_chars_index by (simp add: b64_char_def)

lemma b64_index_pad [simp]: "b64_index x (CHR ''='') = x"
  by (simp add: b64_index_def strchr_None[THEN iffD2] base64_chars_def)

lemma no_nul_b64_spec [simp]: "no_nul (b64_spec xs)"
proof -
  have "b64_char k \<noteq> NUL" if "unat k < 64" for k
  proof -
    have "b64_char k \<in> set base64_chars"
      using that base64_chars_length by (simp add: b64_char_def)
    moreover have "NUL \<notin> set base64_chars" by (simp add: base64_chars_def)
    ultimately show ?thesis by metis
  qed
  then show ?thesis by (induction xs rule: b64_spec.induct) auto
qed

section \<open>Round trip\<close>

lemma decode_loop_spec:
  "drop i input = b64_spec xs \<Longrightarrow> cap = length out + length xs \<Longrightarrow>
   decode_loop nullidx cap input i out = Inr (out @ xs)"
proof (induction xs arbitrary: i out rule: b64_spec.induct)
  case 1
  then show ?case by (simp add: decode_loop.simps[of nullidx _ input i])
next
  case (2 a)
  have len: "length input = i + 4" using arg_cong[OF 2(1), of length] by simp
  have n: "input ! i = drop i input ! 0" "input ! Suc i = drop i input ! 1"
    using len by simp_all
  show ?case
    using 2 len n sextets_byte1[of a 0]
    by (simp add: decode_loop.simps[of nullidx _ input i] decode_loop.simps[of nullidx _ input "i + 4"]
        put_next_ok)
next
  case (3 a b)
  have len: "length input = i + 4" using arg_cong[OF 3(1), of length] by simp
  have n: "input ! i = drop i input ! 0" "input ! Suc i = drop i input ! 1"
    "input ! Suc (Suc i) = drop i input ! 2"
    using len by simp_all
  show ?case
    using 3 len n sextets_byte1[of a b] sextets_byte2[of a b 0]
    by (simp add: decode_loop.simps[of nullidx _ input i] decode_loop.simps[of nullidx _ input "i + 4"]
        put_next_ok)
next
  case (4 a b c xs)
  have len: "i + 4 + length (b64_spec xs) = length input" using arg_cong[OF 4(2), of length] by simp
  have n: "input ! i = drop i input ! 0" "input ! Suc i = drop i input ! 1"
    "input ! Suc (Suc i) = drop i input ! 2" "input ! (i + 3) = drop i input ! 3"
    using len by simp_all
  have "drop (i + 4) input = drop 4 (drop i input)" by (simp add: add.commute)
  then have rest: "drop (i + 4) input = b64_spec xs" using 4(2) by simp
  have "decode_loop nullidx cap input i out = decode_loop nullidx cap input (i + 4) (out @ [a, b, c])"
    using 4(2,3) len n sextets_byte1[of a b] sextets_byte2[of a b c] sextets_byte3[of b c]
    by (simp add: decode_loop.simps[of nullidx _ input i] put_next_ok Let_def)
  also have "\<dots> = Inr ((out @ [a, b, c]) @ xs)"
    by (rule 4(1)[OF rest]) (use 4(3) in simp)
  finally show ?case by simp
qed

lemma nth_from_end:
  "0 < k \<Longrightarrow> k \<le> length t \<Longrightarrow> (a # b # c # d # t) ! (length (a # b # c # d # t) - k) = t ! (length t - k)"
  using nth_append[of "[a, b, c, d]" t "length t + 4 - k"] by simp

lemma b64_spec_nonempty: "xs \<noteq> [] \<Longrightarrow> 4 \<le> length (b64_spec xs)"
  by (cases xs rule: b64_spec.cases) auto

lemma b64_spec_last:
  "xs \<noteq> [] \<Longrightarrow>
   (b64_spec xs ! (length (b64_spec xs) - 1) = CHR ''='' \<longleftrightarrow> length xs mod 3 \<noteq> 0) \<and>
   (b64_spec xs ! (length (b64_spec xs) - 2) = CHR ''='' \<longleftrightarrow> length xs mod 3 = 1)"
proof (induction xs rule: b64_spec.induct)
  case (4 a b c xs)
  show ?case
  proof (cases "xs = []")
    case False
    have "length (a # b # c # xs) mod 3 = length xs mod 3" by simp
    then show ?thesis
      using 4(1)[OF False] b64_spec_nonempty[OF False]
        nth_from_end[of 1 "b64_spec xs"] nth_from_end[of 2 "b64_spec xs"]
      by (simp only: b64_spec.simps)
  qed simp
qed auto

definition audio_fits :: "byte list \<Rightarrow> bool" where
  "audio_fits xs \<longleftrightarrow> xs \<noteq> [] \<and> length xs \<le> 500000000"

lemma decoded_size_spec:
  assumes "audio_fits xs"
  shows "decoded_size (b64_spec xs) = Inr (length xs)"
proof -
  have ne: "xs \<noteq> []" and le: "length xs \<le> 500000000" using assms by (auto simp: audio_fits_def)
  let ?n = "length (b64_spec xs)" and ?k = "(length xs + 2) div 3"
  have n: "?n = ?k * 4" by (rule length_b64_spec)
  have b: "2 \<le> ?n" using b64_spec_nonempty[OF ne] by simp
  have c: "?n * 3 \<le> INT_MAX" "?n * 3 div 4 = ?k * 3"
    using le n by (auto simp: INT_MAX_def)
  obtain q where q: "length xs = 3 * q + length xs mod 3" by (metis mult_div_mod_eq)
  consider "length xs mod 3 = 0" | "length xs mod 3 = 1" | "length xs mod 3 = 2" by linarith
  then show ?thesis
  proof cases
    case 1
    then have "length xs = 3 * q" using q by simp
    then have "?k * 3 = length xs" by simp
    with 1 b c b64_spec_last[OF ne] show ?thesis by (simp add: decoded_size_def Let_def)
  next
    case 2
    then have "length xs = 3 * q + 1" using q by simp
    then have "?k * 3 = length xs + 2" by simp
    with 2 b c b64_spec_last[OF ne] show ?thesis by (simp add: decoded_size_def Let_def sz_sub_def)
  next
    case 3
    then have "length xs = 3 * q + 2" using q by simp
    then have "?k * 3 = length xs + 1" by simp
    with 3 b c b64_spec_last[OF ne] show ?thesis by (simp add: decoded_size_def Let_def sz_sub_def)
  qed
qed

lemma encode_audio_eq:
  assumes "length xs \<le> 500000000"
  shows "encode_audio_to_base64 True xs = Inr (Some (b64_spec xs @ [NUL]))"
proof -
  have "length (b64_spec xs) < min (base64_size (length xs)) INT_MAX"
    using assms unfolding length_b64_spec by (auto simp: base64_size_def INT_MAX_def)
  then show ?thesis by (simp add: encode_audio_to_base64_def encode_loop_full)
qed

lemma decode_audio_eq:
  assumes "audio_fits xs"
  shows "decode_base64_audio nullidx True (b64_spec xs) = Inr (Some (xs, length xs))"
  using decoded_size_spec[OF assms] decode_loop_spec[of 0 "b64_spec xs" xs "length xs" "[]" nullidx]
  by (simp add: decode_base64_audio_def)

section \<open>The audio Base64 pair is a codec\<close>

definition audio_to_text :: "byte list \<Rightarrow> string" where
  "audio_to_text d = (case encode_audio_to_base64 True d of Inr (Some s) \<Rightarrow> cstr s | _ \<Rightarrow> [])"

definition text_to_audio :: "byte \<Rightarrow> string \<Rightarrow> byte list option" where
  "text_to_audio nullidx s =
     (case decode_base64_audio nullidx True s of Inr (Some (d, n)) \<Rightarrow> Some (take n d) | _ \<Rightarrow> None)"

interpretation b64: codec audio_to_text "text_to_audio nullidx" audio_fits for nullidx
  by unfold_locales
    (auto simp: audio_to_text_def text_to_audio_def decode_audio_eq encode_audio_eq audio_fits_def)

section \<open>When decoding stays inside its block\<close>

text \<open>
  The first store of a group is not guarded, so the decoder is safe exactly when the first
  store of the last group is inside the block.
\<close>

lemma guarded_puts:
  assumes "length out < cap"
  shows "\<exists>o3. bind_res (put_next cap out x) (\<lambda>o1.
      bind_res (if length o1 < cap then put_next cap o1 y else Inr o1) (\<lambda>o2.
      bind_res (if length o2 < cap then put_next cap o2 z else Inr o2) (\<lambda>o3. k o3))) = k o3 \<and>
    length o3 = min (length out + 3) cap"
proof -
  consider "cap = length out + 1" | "cap = length out + 2" | "length out + 3 \<le> cap"
    using assms by linarith
  then show ?thesis
  proof cases
    case 1
    then show ?thesis by (intro exI[of _ "out @ [x]"]) (simp add: put_next_ok)
  next
    case 2
    then show ?thesis by (intro exI[of _ "out @ [x, y]"]) (simp add: put_next_ok)
  next
    case 3
    then show ?thesis by (intro exI[of _ "out @ [x, y, z]"]) (simp add: put_next_ok)
  qed
qed

lemma decode_loop_step:
  assumes "i < length input" and "length out < cap"
  shows "\<exists>o3. decode_loop nullidx cap input i out = decode_loop nullidx cap input (i + 4) o3 \<and>
    length o3 = min (length out + 3) cap"
  unfolding decode_loop.simps[of nullidx cap input i out] Let_def if_P[OF assms(1)]
  by (rule guarded_puts[OF assms(2)])

lemma decode_loop_unsafe:
  "i < length input \<Longrightarrow> cap \<le> length out \<Longrightarrow> decode_loop nullidx cap input i out = Inl OutOfBounds"
  by (simp add: decode_loop.simps[of nullidx cap input i] put_next_full Let_def)

lemma decode_loop_safety:
  "4 dvd i \<Longrightarrow> length out = min (3 * (i div 4)) cap \<Longrightarrow>
   (if i < length input \<and> cap \<le> 3 * ((length input - 1) div 4)
    then decode_loop nullidx cap input i out = Inl OutOfBounds
    else \<exists>out'. decode_loop nullidx cap input i out = Inr out' \<and> length out' \<le> cap)"
proof (induction "length input - i" arbitrary: i out rule: less_induct)
  case less
  show ?case
  proof (cases "i < length input")
    case False
    then show ?thesis using less.prems(2) by (simp add: decode_loop.simps[of nullidx cap input i])
  next
    case lt: True
    have le: "i div 4 \<le> (length input - 1) div 4" using lt by (intro div_le_mono) simp
    show ?thesis
    proof (cases "cap \<le> 3 * (i div 4)")
      case True
      with less.prems(2) have "cap \<le> length out" by simp
      from decode_loop_unsafe[OF lt this] True le lt show ?thesis by auto
    next
      case False
      with less.prems(2) have lo: "length out = 3 * (i div 4)" "length out < cap" by simp_all
      from decode_loop_step[OF lt lo(2), of nullidx] obtain o3
        where step: "decode_loop nullidx cap input i out = decode_loop nullidx cap input (i + 4) o3"
          and o3: "length o3 = min (length out + 3) cap" by blast
      have o3': "length o3 = min (3 * ((i + 4) div 4)) cap" 
      proof -
        have "(i + 4) div 4 = i div 4 + 1" by arith
        with o3 lo show ?thesis by (simp add: add.commute)
      qed
      have "4 dvd i + 4" using less.prems(1) by simp
      note IH = less.hyps[OF _ this o3']
      show ?thesis
      proof (cases "i + 4 < length input")
        case True
        with IH lt step show ?thesis by simp
      next
        case fin: False
        then have "(length input - 1) div 4 = i div 4" using lt less.prems(1) by auto
        with False IH lt step fin show ?thesis by simp
      qed
    qed
  qed
qed

lemma decode_safe_iff:
  assumes "decoded_size input = Inr sz"
  shows "(\<exists>out. decode_base64_audio nullidx True input = Inr (Some (out, sz)) \<and> length out \<le> sz) \<longleftrightarrow>
    3 * ((length input - 1) div 4) < sz"
    and "sz \<le> 3 * ((length input - 1) div 4) \<Longrightarrow> decode_base64_audio nullidx True input = Inl OutOfBounds"
proof -
  have "0 < length input"
    using assms by (auto simp: decoded_size_def Let_def res_simps)
  with decode_loop_safety[of 0 "[]" sz input nullidx]
  show "(\<exists>out. decode_base64_audio nullidx True input = Inr (Some (out, sz)) \<and> length out \<le> sz) \<longleftrightarrow>
      3 * ((length input - 1) div 4) < sz"
    "sz \<le> 3 * ((length input - 1) div 4) \<Longrightarrow> decode_base64_audio nullidx True input = Inl OutOfBounds"
    using assms by (auto simp: decode_base64_audio_def split: if_splits)
qed

text \<open>
  The size reported for a text, up to the wrap-around that only \<open>==\<close> itself reaches.
\<close>

lemma decoded_size_bounds:
  assumes "decoded_size input = Inr sz"
  shows "length input * 3 div 4 \<le> sz + 2" and "2 < length input \<Longrightarrow> sz \<le> length input * 3 div 4"
  using assms by (auto simp: decoded_size_def Let_def res_simps sz_sub_def split: if_splits)

lemma decoded_size_ok:
  "2 \<le> length input \<Longrightarrow> length input * 3 \<le> INT_MAX \<Longrightarrow> \<exists>sz. decoded_size input = Inr sz"
  by (simp add: decoded_size_def Let_def)

text \<open>Texts of whole groups are safe; a text with one character over never is.\<close>

lemma decode_whole_groups:
  assumes "4 dvd length input" and "input \<noteq> []" and "length input * 3 \<le> INT_MAX"
  shows "\<exists>out sz. decode_base64_audio nullidx True input = Inr (Some (out, sz)) \<and> length out \<le> sz"
proof -
  from assms(1) obtain k where k: "length input = 4 * k" by auto
  with assms(2) have k0: "0 < k" by (cases k) auto
  obtain sz where sz: "decoded_size input = Inr sz" using decoded_size_ok k k0 assms(3) by fastforce
  have "(length input - 1) div 4 = k - 1" using k k0 by (cases k) auto
  moreover have "3 * k \<le> sz + 2" using decoded_size_bounds(1)[OF sz] k by simp
  ultimately have "3 * ((length input - 1) div 4) < sz" using k0 by simp
  with decode_safe_iff(1)[OF sz] show ?thesis by blast
qed

lemma decode_one_over:
  assumes "length input mod 4 = 1" and "1 < length input" and "length input * 3 \<le> INT_MAX"
  shows "decode_base64_audio nullidx True input = Inl OutOfBounds"
proof -
  obtain k where k: "length input = 4 * k + 1" using assms(1) by (metis mult_div_mod_eq)
  obtain sz where sz: "decoded_size input = Inr sz" using decoded_size_ok assms(2,3) by fastforce
  have "sz \<le> (4 * k + 1) * 3 div 4" using decoded_size_bounds(2)[OF sz] k assms(2) by (cases k) auto
  then have "sz \<le> 3 * ((length input - 1) div 4)" using k by simp
  then show ?thesis by (rule decode_safe_iff(2)[OF sz])
qed

section \<open>Properties\<close>

text \<open>
  C11: what \<open>encode_audio_to_base64\<close> produces, \<open>decode_base64_audio\<close> turns back into the same
  bytes with their exact number, for every recording the \<open>int\<close> counters can hold; neither
  function leaves its block, and the text has no embedded terminator.
\<close>

theorem base64_round_trip:
  assumes "xs \<noteq> []" and "length xs \<le> 500000000"
  shows "\<exists>s. encode_audio_to_base64 True xs = Inr (Some (s @ [NUL])) \<and> no_nul s \<and>
    length s + 1 = base64_size (length xs) \<and>
    decode_base64_audio nullidx True s = Inr (Some (xs, length xs))"
  using encode_audio_eq[OF assms(2)] decode_audio_eq[of xs nullidx] assms
  by (auto simp: audio_fits_def base64_size_def length_b64_spec)

theorem base64_round_trip_witness:
  "\<exists>s. encode_audio_to_base64 True [1, 2, 3, 4] = Inr (Some (s @ [NUL])) \<and> no_nul s \<and>
    length s + 1 = base64_size (length [1 :: byte, 2, 3, 4]) \<and>
    decode_base64_audio 0 True s = Inr (Some ([1, 2, 3, 4], length [1 :: byte, 2, 3, 4]))"
  by (rule base64_round_trip) simp_all

text \<open>
  C27: \<open>decode_base64_audio\<close> stays inside its block on every text of whole groups of four,
  whatever characters it has, and never writes more bytes than it reports.
\<close>

theorem decode_stays_inside:
  assumes "4 dvd length input" and "input \<noteq> []" and "length input * 3 \<le> INT_MAX"
  shows "\<exists>out sz. decode_base64_audio nullidx True input = Inr (Some (out, sz)) \<and> length out \<le> sz"
  using assms by (rule decode_whole_groups)

theorem decode_stays_inside_witness:
  "\<exists>out sz. decode_base64_audio 7 True ''!x?=AAAA'' = Inr (Some (out, sz)) \<and> length out \<le> sz"
  by (rule decode_stays_inside) (code_simp, simp, simp add: INT_MAX_def)

text \<open>
  C37: on a text with one character more than whole groups the decoder writes past the block it
  allocated: the first store of a group is not compared with the size.
\<close>

theorem decode_writes_past_block:
  assumes "length input mod 4 = 1" and "1 < length input" and "length input * 3 \<le> INT_MAX"
  shows "decode_base64_audio nullidx True input = Inl OutOfBounds"
  using assms by (rule decode_one_over)

theorem decode_writes_past_block_witness:
  "decode_base64_audio 0 True ''QUJDR'' = Inl OutOfBounds"
  by (rule decode_writes_past_block) (simp_all add: INT_MAX_def)

end
