(* ===== verification/Wav_Player.thy ===== *)
theory Wav_Player
  imports Audio_Base64
begin

text \<open>
  \<open>play_audio_data\<close> of audio.c: it looks for the data chunk of a WAV file and writes what
  follows to the output stream in blocks of \<open>FRAMES_PER_BUFFER\<close> bytes.

  The chunk header is read byte by byte into a \<open>uint32_t\<close>, and \<open>8 + chunk_size\<close> is a 32-bit
  sum, so the step from one chunk to the next is taken modulo \<open>2 ^ 32\<close>.  A step of 0 leaves
  the loop where it is: the search is a \<^theory_text>\<open>partial_function\<close> into \<open>option\<close>, with \<open>None\<close> for a
  loop that does not end.  PortAudio is a parameter: \<open>werr k\<close> says that the \<open>k\<close>-th
  \<open>Pa_WriteStream\<close> fails, and \<open>avail k\<close> is what the \<open>k\<close>-th
  \<open>Pa_GetStreamWriteAvailable\<close> returns.
\<close>

section \<open>The search for the data chunk\<close>

definition is_riff :: "byte list \<Rightarrow> bool" where
  "is_riff d \<longleftrightarrow> 12 < length d \<and> take 4 d = bytes_of ''RIFF''"

definition is_data_at :: "byte list \<Rightarrow> nat \<Rightarrow> bool" where
  "is_data_at d off \<longleftrightarrow>
     d ! off = byte_of (CHR ''d'') \<and> d ! (off + 1) = byte_of (CHR ''a'') \<and>
     d ! (off + 2) = byte_of (CHR ''t'') \<and> d ! (off + 3) = byte_of (CHR ''a'')"

text \<open>The little-endian size field of the chunk at \<open>off\<close>.\<close>

definition chunk_size_at :: "byte list \<Rightarrow> nat \<Rightarrow> 32 word" where
  "chunk_size_at d off =
     (ucast (d ! (off + 4)) OR push_bit 8 (ucast (d ! (off + 5)))
        OR push_bit 16 (ucast (d ! (off + 6))) OR push_bit 24 (ucast (d ! (off + 7))))"

definition chunk_step :: "byte list \<Rightarrow> nat \<Rightarrow> nat" where
  "chunk_step d off = unat (8 + chunk_size_at d off)"

partial_function (option) wav_search :: "byte list \<Rightarrow> nat \<Rightarrow> nat option" where
  "wav_search d pcm_offset =
     (if pcm_offset + 8 < length d then
        (if is_data_at d pcm_offset then Some (pcm_offset + 8)
         else if pcm_offset + 4 < length d then wav_search d (pcm_offset + chunk_step d pcm_offset)
         else Some pcm_offset)
      else Some pcm_offset)"

definition pcm_start :: "byte list \<Rightarrow> nat option" where
  "pcm_start d = (if is_riff d then wav_search d 12 else Some 0)"

section \<open>Writing to the stream\<close>

text \<open>
  \<open>base\<close> is the advanced \<open>audio_data\<close> pointer as an offset into the object, \<open>data_size\<close>
  the (possibly wrapped) remaining size.  The result is the list of blocks written and
  whether the loop ran to its end.
\<close>

definition bytes_to_write :: "nat \<Rightarrow> nat \<Rightarrow> nat" where
  "bytes_to_write data_size offset =
     (let chunk_size = FRAMES_PER_BUFFER * CHANNELS * 1
      in if data_size < offset + chunk_size then data_size - offset else chunk_size)"

lemma bytes_to_write_bounds:
  "offset < n \<Longrightarrow> 0 < bytes_to_write n offset"
  "offset < n \<Longrightarrow> offset + bytes_to_write n offset \<le> n"
  "bytes_to_write n offset \<le> FRAMES_PER_BUFFER"
  by (auto simp: bytes_to_write_def Let_def FRAMES_PER_BUFFER_def CHANNELS_def)

function write_blocks :: "(nat \<Rightarrow> bool) \<Rightarrow> byte list \<Rightarrow> nat \<Rightarrow> nat \<Rightarrow> nat \<Rightarrow> byte list list \<Rightarrow>
    (byte list list \<times> bool) res" where
  "write_blocks werr d base data_size offset blocks =
     (if offset < data_size then
        bind_res (read_at d (base + offset) (bytes_to_write data_size offset)) (\<lambda>b.
        if werr (length blocks) then Inr (blocks @ [b], False)
        else write_blocks werr d base data_size (offset + bytes_to_write data_size offset) (blocks @ [b]))
      else Inr (blocks, True))"
  by pat_completeness auto
termination
  by (relation "measure (\<lambda>(werr, d, base, data_size, offset, blocks). data_size - offset)")
    (auto simp: diff_less_mono2 bytes_to_write_bounds(1))

declare write_blocks.simps [simp del]

text \<open>The last loop: poll until a whole buffer is free.\<close>

partial_function (option) wait_drained :: "(nat \<Rightarrow> int) \<Rightarrow> nat \<Rightarrow> nat option" where
  "wait_drained avail k =
     (if avail k < int FRAMES_PER_BUFFER then wait_drained avail (Suc k) else Some k)"

text \<open>
  \<open>ready\<close> stands for \<open>audio_initialized \<and> audio_stream\<close>.  The outer option is \<open>None\<close> when a
  loop does not end; inside, the blocks that reached PortAudio and the returned flag.
\<close>

definition play_audio_data :: "bool \<Rightarrow> (nat \<Rightarrow> bool) \<Rightarrow> (nat \<Rightarrow> int) \<Rightarrow> byte list \<Rightarrow>
    (byte list list \<times> bool) res option" where
  "play_audio_data ready werr avail d =
     (if \<not> ready then Some (Inr ([], False))
      else
        (case pcm_start d of
           None \<Rightarrow> None
         | Some pcm_offset \<Rightarrow>
             (case write_blocks werr d pcm_offset (sz_sub (length d) pcm_offset) 0 [] of
                Inl e \<Rightarrow> Some (Inl e)
              | Inr (blocks, False) \<Rightarrow> Some (Inr (blocks, False))
              | Inr (blocks, True) \<Rightarrow>
                  (case wait_drained avail 0 of None \<Rightarrow> None | Some _ \<Rightarrow> Some (Inr (blocks, True))))))"

definition play_audio_from_base64 :: "byte \<Rightarrow> bool \<Rightarrow> bool \<Rightarrow> (nat \<Rightarrow> bool) \<Rightarrow> (nat \<Rightarrow> int) \<Rightarrow> string \<Rightarrow>
    (byte list list \<times> bool) res option" where
  "play_audio_from_base64 nullidx mok ready werr avail s =
     (case decode_base64_audio nullidx mok s of
        Inl e \<Rightarrow> Some (Inl e)
      | Inr None \<Rightarrow> Some (Inr ([], False))
      | Inr (Some (d, n)) \<Rightarrow> play_audio_data ready werr avail (take n d))"

section \<open>The writer\<close>

text \<open>Inside the object: the blocks are the remaining bytes in order, none longer than a buffer.\<close>

lemma write_blocks_ok:
  "(\<forall>k. \<not> werr k) \<Longrightarrow> base + n = length d \<Longrightarrow> offset \<le> n \<Longrightarrow>
   \<exists>bs. write_blocks werr d base n offset blocks = Inr (blocks @ bs, True) \<and>
     concat bs = drop (base + offset) d \<and>
     (\<forall>b \<in> set bs. b \<noteq> [] \<and> length b \<le> FRAMES_PER_BUFFER)"
proof (induction "n - offset" arbitrary: offset blocks rule: less_induct)
  case less
  show ?case
  proof (cases "offset < n")
    case False
    then have "write_blocks werr d base n offset blocks = Inr (blocks @ [], True)"
      by (simp add: write_blocks.simps[of werr d base n offset])
    moreover have "drop (base + offset) d = []" using False less.prems by simp
    ultimately show ?thesis by (metis concat.simps(1) empty_iff empty_set)
  next
    case True
    let ?w = "bytes_to_write n offset"
    let ?b = "take ?w (drop (base + offset) d)"
    have w: "0 < ?w" "offset + ?w \<le> n" "?w \<le> FRAMES_PER_BUFFER"
      using True bytes_to_write_bounds by simp_all
    have rd: "read_at d (base + offset) ?w = Inr ?b"
      using w less.prems(2) by (intro read_at_ok) simp
    have "n - (offset + ?w) < n - offset" using w True by simp
    from less.hyps[OF this less.prems(1,2) w(2)] obtain bs where
      bs: "write_blocks werr d base n (offset + ?w) (blocks @ [?b]) = Inr ((blocks @ [?b]) @ bs, True)"
        "concat bs = drop (base + (offset + ?w)) d"
        "\<forall>b \<in> set bs. b \<noteq> [] \<and> length b \<le> FRAMES_PER_BUFFER" by blast
    have "write_blocks werr d base n offset blocks = Inr (blocks @ ?b # bs, True)"
      using True rd bs(1) less.prems(1)
      by (simp add: write_blocks.simps[of werr d base n offset] Let_def)
    moreover have "concat (?b # bs) = drop (base + offset) d"
      using bs(2) append_take_drop_id[of ?w "drop (base + offset) d"]
      by (simp add: add.assoc add.commute)
    moreover have "\<forall>b \<in> set (?b # bs). b \<noteq> [] \<and> length b \<le> FRAMES_PER_BUFFER"
      using bs(3) w less.prems(2) by auto
    ultimately show ?thesis by blast
  qed
qed

lemma write_blocks_outside:
  assumes "length d < base" and "base < 2 ^ 64"
  shows "write_blocks werr d base (sz_sub (length d) base) 0 [] = Inl OutOfBounds"
proof -
  let ?s = "sz_sub (length d) base"
  have s: "0 < ?s" using assms by (simp add: sz_sub_def)
  have "read_at d (base + 0) (bytes_to_write ?s 0) = Inl OutOfBounds"
    using assms(1) bytes_to_write_bounds(1)[OF s] by (simp add: read_at_def)
  with s show ?thesis by (subst write_blocks.simps) simp
qed

section \<open>The search\<close>

text \<open>A data chunk in place, and the two ways the search can miss.\<close>

lemma wav_search_data:
  "off + 8 < length d \<Longrightarrow> is_data_at d off \<Longrightarrow> wav_search d off = Some (off + 8)"
  by (subst wav_search.simps) simp

lemma wav_search_skip:
  "off + 8 < length d \<Longrightarrow> \<not> is_data_at d off \<Longrightarrow>
   wav_search d off = wav_search d (off + chunk_step d off)"
  by (subst wav_search.simps) simp

lemma wav_search_end: "length d \<le> off + 8 \<Longrightarrow> wav_search d off = Some off"
  by (subst wav_search.simps) simp

text \<open>If every step is at least 1 the search ends; it ends past every chunk or after a header.\<close>

lemma wav_search_terminates:
  "(\<forall>j. j + 8 < length d \<longrightarrow> chunk_step d j \<noteq> 0) \<Longrightarrow> \<exists>r. wav_search d off = Some r"
proof (induction "length d - off" arbitrary: off rule: less_induct)
  case less
  show ?case
  proof (cases "off + 8 < length d \<and> \<not> is_data_at d off")
    case True
    then have "length d - (off + chunk_step d off) < length d - off"
      using less.prems by (simp add: diff_less_mono2)
    from less.hyps[OF this less.prems] True show ?thesis by (simp add: wav_search_skip)
  next
    case False
    then show ?thesis using wav_search_data wav_search_end by (metis linorder_not_less)
  qed
qed

lemma wav_search_stuck:
  assumes "off + 8 < length d" and "\<not> is_data_at d off" and "chunk_step d off = 0"
  shows "wav_search d off = None"
proof (rule ccontr)
  assume "wav_search d off \<noteq> None"
  then obtain r where r: "wav_search d off = Some r" by blast
  have "\<not> (off + 8 < length d \<and> \<not> is_data_at d off \<and> chunk_step d off = 0)"
  proof (rule wav_search.raw_induct [where P = "\<lambda>d off r.
      \<not> (off + 8 < length d \<and> \<not> is_data_at d off \<and> chunk_step d off = 0)", OF _ r])
    fix f :: "byte list \<Rightarrow> nat \<Rightarrow> nat option" and d off r
    assume IH: "\<And>d off r. f d off = Some r \<Longrightarrow>
        \<not> (off + 8 < length d \<and> \<not> is_data_at d off \<and> chunk_step d off = 0)"
      and eq: "(if off + 8 < length d then
          (if is_data_at d off then Some (off + 8)
           else if off + 4 < length d then f d (off + chunk_step d off) else Some off)
        else Some off) = Some r"
    show "\<not> (off + 8 < length d \<and> \<not> is_data_at d off \<and> chunk_step d off = 0)"
    proof
      assume a: "off + 8 < length d \<and> \<not> is_data_at d off \<and> chunk_step d off = 0"
      with eq have "f d off = Some r" by simp
      from IH[OF this] a show False by simp
    qed
  qed
  with assms show False by simp
qed

text \<open>The size field that makes a step of 0: \<open>2 ^ 32 - 8\<close>.\<close>

lemma chunk_step_zero_iff: "chunk_step d off = 0 \<longleftrightarrow> chunk_size_at d off = 0xFFFFFFF8"
proof -
  have "chunk_step d off = 0 \<longleftrightarrow> chunk_size_at d off = - 8"
    by (simp add: chunk_step_def unat_eq_zero add_eq_0_iff)
  moreover have "(- 8 :: 32 word) = 0xFFFFFFF8" by simp
  ultimately show ?thesis by simp
qed

section \<open>The drain loop\<close>

lemma wait_drained_ok: "int FRAMES_PER_BUFFER \<le> avail (k + n) \<Longrightarrow> \<exists>j. wait_drained avail k = Some j"
proof (induction n arbitrary: k)
  case 0
  then show ?case by (subst wait_drained.simps) simp
next
  case (Suc n)
  then have "\<exists>j. wait_drained avail (Suc k) = Some j" by simp
  then show ?case by (subst wait_drained.simps) auto
qed

lemma wait_drained_never:
  assumes "\<forall>k. avail k < int FRAMES_PER_BUFFER"
  shows "wait_drained avail k = None"
proof (rule ccontr)
  assume "wait_drained avail k \<noteq> None"
  then obtain r where r: "wait_drained avail k = Some r" by blast
  have "\<not> (\<forall>k. avail k < int FRAMES_PER_BUFFER)"
  proof (rule wait_drained.raw_induct [where P = "\<lambda>avail k r. \<not> (\<forall>k. avail k < int FRAMES_PER_BUFFER)", OF _ r])
    fix f :: "(nat \<Rightarrow> int) \<Rightarrow> nat \<Rightarrow> nat option" and avail k r
    assume IH: "\<And>avail k r. f avail k = Some r \<Longrightarrow> \<not> (\<forall>k. avail k < int FRAMES_PER_BUFFER)"
      and eq: "(if avail k < int FRAMES_PER_BUFFER then f avail (Suc k) else Some k) = Some r"
    show "\<not> (\<forall>k. avail k < int FRAMES_PER_BUFFER)"
      using IH[of avail "Suc k" r] eq by (auto split: if_splits)
  qed
  with assms show False by simp
qed

section \<open>WAV files\<close>

text \<open>
  The files the search is for: the RIFF header, chunks with other names, then the data chunk.
  A chunk is its name, its size in little-endian order and its contents.
\<close>

definition le32 :: "32 word \<Rightarrow> byte list" where
  "le32 w = [ucast w, ucast (drop_bit 8 w), ucast (drop_bit 16 w), ucast (drop_bit 24 w)]"

definition wav_chunk :: "string \<times> byte list \<Rightarrow> byte list" where
  "wav_chunk c = bytes_of (fst c) @ le32 (word_of_nat (length (snd c))) @ snd c"

definition wav_file :: "byte list \<Rightarrow> (string \<times> byte list) list \<Rightarrow> byte list \<Rightarrow> byte list" where
  "wav_file header chunks pcm =
     bytes_of ''RIFF'' @ header @ concat (map wav_chunk chunks) @ bytes_of ''data'' @
     le32 (word_of_nat (length pcm)) @ pcm"

definition other_chunk :: "string \<times> byte list \<Rightarrow> bool" where
  "other_chunk c \<longleftrightarrow> length (fst c) = 4 \<and> fst c \<noteq> ''data'' \<and> length (snd c) + 8 < 2 ^ 32"

lemma le32_join:
  fixes w :: "32 word"
  shows "ucast (ucast w :: byte) OR push_bit 8 (ucast (ucast (drop_bit 8 w) :: byte))
    OR push_bit 16 (ucast (ucast (drop_bit 16 w) :: byte)) OR push_bit 24 (ucast (ucast (drop_bit 24 w) :: byte)) = w"
proof (rule bit_word_eqI)
  fix n assume "n < LENGTH(32)"
  then have "n < 8 \<or> (8 \<le> n \<and> n < 16) \<or> (16 \<le> n \<and> n < 24) \<or> (24 \<le> n \<and> n < 32)" by auto
  then show "bit (ucast (ucast w :: byte) OR push_bit 8 (ucast (ucast (drop_bit 8 w) :: byte))
    OR push_bit 16 (ucast (ucast (drop_bit 16 w) :: byte)) OR push_bit 24 (ucast (ucast (drop_bit 24 w) :: byte)) :: 32 word) n
    = bit w n"
    by (elim disjE) (auto simp: bit_or_iff bit_push_bit_iff bit_ucast_iff bit_drop_bit_eq)
qed

lemma nth_after: "(p @ q) ! (length p + k) = q ! k"
  by (simp add: nth_append)

lemma chunk_size_after:
  assumes "d = p @ bytes_of name @ le32 w @ q" and "length name = 4"
  shows "chunk_size_at d (length p) = w"
proof -
  have "d ! (length p + k) = (le32 w @ q) ! (k - 4)" if "4 \<le> k" for k
    using assms nth_after[of p "bytes_of name @ le32 w @ q" k] that by (simp add: nth_append)
  then show ?thesis by (simp add: chunk_size_at_def le32_def le32_join)
qed

lemma is_data_after:
  assumes "d = p @ bytes_of name @ q" and "length name = 4"
  shows "is_data_at d (length p) \<longleftrightarrow> name = ''data''"
proof -
  have "length name = Suc (Suc (Suc (Suc 0)))" using assms(2) by simp
  then obtain a b c e where n: "name = [a, b, c, e]" by (auto simp: length_Suc_conv)
  have "d ! (length p + k) = (bytes_of name @ q) ! k" for k
    using assms(1) nth_after by metis
  from this[of 0] this[of 1] this[of 2] this[of 3] show ?thesis
    by (simp add: is_data_at_def n)
qed

lemma wav_search_chunks:
  assumes "\<forall>c \<in> set cs. other_chunk c" and "pcm \<noteq> []"
    and "d = p @ concat (map wav_chunk cs) @ bytes_of ''data'' @ le32 (word_of_nat (length pcm)) @ pcm"
  shows "wav_search d (length p) = Some (length d - length pcm)"
  using assms
proof (induction cs arbitrary: p)
  case Nil
  then have "is_data_at d (length p)" using is_data_after[of d p "''data''"] by simp
  moreover have "length d = length p + 8 + length pcm" using Nil by (simp add: le32_def)
  ultimately show ?case using Nil(2) by (simp add: wav_search_data)
next
  case (Cons c cs)
  let ?rest = "concat (map wav_chunk cs) @ bytes_of ''data'' @ le32 (word_of_nat (length pcm)) @ pcm"
  let ?w = "word_of_nat (length (snd c)) :: 32 word"
  have c: "length (fst c) = 4" "fst c \<noteq> ''data''" "length (snd c) + 8 < 2 ^ 32"
    using Cons.prems(1) by (auto simp: other_chunk_def)
  have d: "d = p @ bytes_of (fst c) @ le32 ?w @ (snd c @ ?rest)"
    using Cons.prems(3) by (simp add: wav_chunk_def[of c])
  have nd: "\<not> is_data_at d (length p)" using is_data_after[OF d c(1)] c(2) by simp
  have "chunk_step d (length p) = unat (8 + ?w)"
    unfolding chunk_step_def chunk_size_after[OF d c(1)] ..
  also have "\<dots> = 8 + length (snd c)"
  proof -
    have "unat ?w = length (snd c)" using c(3) by (simp add: unat_of_nat take_bit_nat_eq_self)
    moreover have "unat (8 :: 32 word) + unat ?w < 2 ^ LENGTH(32)" using calculation c(3) by simp
    ultimately show ?thesis using unat_add_lem[of "8 :: 32 word" ?w] by simp
  qed
  finally have step: "chunk_step d (length p) = 8 + length (snd c)" .
  let ?p = "p @ wav_chunk c"
  have lp: "length ?p = length p + (8 + length (snd c))" using c(1) by (simp add: wav_chunk_def le32_def)
  have "length p + 8 < length d" using d c(1) Cons.prems(2) by (simp add: le32_def)
  from wav_search_skip[OF this nd] have "wav_search d (length p) = wav_search d (length ?p)"
    using step lp by simp
  also have "\<dots> = Some (length d - length pcm)"
    by (rule Cons.IH) (use Cons.prems in auto)
  finally show ?case .
qed

lemma pcm_start_wav:
  assumes "length header = 8" and "\<forall>c \<in> set cs. other_chunk c" and "pcm \<noteq> []"
  shows "pcm_start (wav_file header cs pcm) = Some (length (wav_file header cs pcm) - length pcm)"
proof -
  let ?d = "wav_file header cs pcm"
  have l: "length (bytes_of ''RIFF'' @ header) = 12" using assms(1) by simp
  have d: "?d = (bytes_of ''RIFF'' @ header) @ concat (map wav_chunk cs) @ bytes_of ''data'' @
      le32 (word_of_nat (length pcm)) @ pcm"
    by (simp add: wav_file_def)
  have "is_riff ?d" using l by (simp add: is_riff_def wav_file_def le32_def)
  with wav_search_chunks[OF assms(2,3) d] l show ?thesis by (simp add: pcm_start_def)
qed

section \<open>Properties\<close>





text \<open>
  C38: a file whose first chunk has the size \<open>0xFFFFFFF8\<close> makes \<open>play_audio_data\<close> loop for ever.
\<close>

theorem wav_search_hangs:
  assumes "is_riff d" and "20 < length d" and "\<not> is_data_at d 12" and "chunk_size_at d 12 = 0xFFFFFFF8"
  shows "play_audio_data True werr avail d = None"
  using assms wav_search_stuck[of 12 d]
  by (simp add: play_audio_data_def pcm_start_def chunk_step_zero_iff)

theorem wav_search_hangs_witness:
  "play_audio_data True (\<lambda>k. False) (\<lambda>k. 600)
    (bytes_of ''RIFF....WAVEfmt '' @ [0xF8, 0xFF, 0xFF, 0xFF, 0]) = None"
  by (rule wav_search_hangs)
    (simp_all add: is_riff_def is_data_at_def chunk_size_at_def)

text \<open>
  C39: a first chunk that reaches past the end of the data makes the remaining size wrap around,
  and the first block is read outside the object.
\<close>

theorem wav_chunk_overrun:
  assumes "is_riff d" and "20 < length d" and "length d < 12 + chunk_step d 12" and "\<not> is_data_at d 12"
  shows "play_audio_data True werr avail d = Some (Inl OutOfBounds)"
proof -
  let ?off = "12 + chunk_step d 12"
  have "unat (8 + chunk_size_at d 12) < 2 ^ LENGTH(32)" by (rule unsigned_less)
  then have lt: "?off < 2 ^ 64" by (simp add: chunk_step_def)
  have "wav_search d 12 = wav_search d ?off" using assms by (intro wav_search_skip) simp_all
  also have "\<dots> = Some ?off" using assms(3) by (intro wav_search_end) simp
  finally have "pcm_start d = Some ?off" using assms(1) by (simp add: pcm_start_def)
  with write_blocks_outside[OF assms(3) lt] show ?thesis by (simp add: play_audio_data_def)
qed

theorem wav_chunk_overrun_witness:
  "play_audio_data True (\<lambda>k. False) (\<lambda>k. 600)
    (bytes_of ''RIFF....WAVEfmt '' @ [0xFF, 0, 0, 0, 0]) = Some (Inl OutOfBounds)"
  by (rule wav_chunk_overrun)
    (simp_all add: is_riff_def is_data_at_def chunk_step_def chunk_size_at_def)

text \<open>
  The loop that waits for the end of the playback returns exactly when some call of
  \<open>Pa_GetStreamWriteAvailable\<close> reports a whole free buffer; an error code, which is negative,
  keeps it running.
\<close>

lemma drain_loop_returns:
  "(\<exists>j. wait_drained avail 0 = Some j) \<longleftrightarrow> (\<exists>n. int FRAMES_PER_BUFFER \<le> avail n)"
proof (cases "\<exists>n. int FRAMES_PER_BUFFER \<le> avail n")
  case True
  with wait_drained_ok[of avail 0] show ?thesis by auto
next
  case False
  with wait_drained_never[of avail 0] show ?thesis by (auto simp: not_le)
qed

end
