(* ===== verification/Ring_Buffer.thy ===== *)
theory Ring_Buffer
  imports Interfaces Config
begin

text \<open>
  The ring buffer of audio.c between the WebSocket callback, which writes the audio it
  receives, and the PortAudio callback, which reads what the sound card asks for.

  Both operations hold the buffer's mutex and wait on a condition variable while they
  cannot proceed.  One pass through the critical section is one \<open>attempt\<close>: \<open>Wait\<close> when
  the code calls \<open>pthread_cond_wait\<close>, \<open>Done\<close> when it returns.  A waiting thread makes its
  next attempt when it is woken, so a run is a list of attempts of the two threads.
\<close>

section \<open>The structure\<close>

record AudioRingBuffer =
  buffer :: "byte list"
  rb_size :: nat
  used :: nat
  read_pos :: nat
  write_pos :: nat
  active :: bool

text \<open>
  \<open>ms\<close>: the first \<open>malloc\<close> succeeds; \<open>raw\<close>: the block the second one returns, with whatever
  bytes it has, or \<open>None\<close> when it fails.
\<close>

definition init_audio_ring_buffer :: "bool \<Rightarrow> byte list option \<Rightarrow> nat \<Rightarrow> AudioRingBuffer option" where
  "init_audio_ring_buffer ms raw sz =
     (if \<not> ms then None
      else (case raw of
          None \<Rightarrow> None
        | Some b \<Rightarrow> Some \<lparr>buffer = b, rb_size = sz, used = 0, read_pos = 0, write_pos = 0, active = True\<rparr>))"

section \<open>Operations\<close>

definition ring_write :: "AudioRingBuffer \<Rightarrow> byte list \<Rightarrow> (AudioRingBuffer \<times> bool) attempt res" where
  "ring_write rb data =
     (if \<not> active rb then Inr (Done (rb, False))
      else if rb_size rb < used rb + length data then Inr Wait
      else
        (let first_chunk = min (rb_size rb - write_pos rb) (length data) in
         bind_res (memcpy_at (buffer rb) (write_pos rb) (take first_chunk data)) (\<lambda>b1.
         bind_res (if first_chunk < length data then memcpy_at b1 0 (drop first_chunk data) else Inr b1) (\<lambda>b2.
         bind_res (guard_res (rb_size rb \<noteq> 0) DivByZero) (\<lambda>_.
         Inr (Done (rb\<lparr>buffer := b2,
                       write_pos := (write_pos rb + length data) mod rb_size rb,
                       used := used rb + length data\<rparr>, True)))))))"

text \<open>The destination is the caller's block of \<open>cap\<close> bytes; the result holds what was copied there.\<close>

definition ring_read :: "nat \<Rightarrow> AudioRingBuffer \<Rightarrow> nat \<Rightarrow> (AudioRingBuffer \<times> byte list option) attempt res" where
  "ring_read cap rb sz =
     (if \<not> active rb then Inr (Done (rb, None))
      else if used rb < sz then Inr Wait
      else
        (let first_chunk = min (rb_size rb - read_pos rb) sz in
         bind_res (guard_res (sz \<le> cap) OutOfBounds) (\<lambda>_.
         bind_res (read_at (buffer rb) (read_pos rb) first_chunk) (\<lambda>d1.
         bind_res (if first_chunk < sz then read_at (buffer rb) 0 (sz - first_chunk) else Inr []) (\<lambda>d2.
         bind_res (guard_res (rb_size rb \<noteq> 0) DivByZero) (\<lambda>_.
         Inr (Done (rb\<lparr>read_pos := (read_pos rb + sz) mod rb_size rb,
                       used := used rb - sz\<rparr>, Some (d1 @ d2)))))))))"

definition write_audio_buffer ::
    "AudioRingBuffer option \<Rightarrow> byte list \<Rightarrow> (AudioRingBuffer option \<times> bool) attempt res" where
  "write_audio_buffer rb data =
     (case rb of
        None \<Rightarrow> Inr (Done (None, False))
      | Some r \<Rightarrow> bind_res (ring_write r data) (\<lambda>a. Inr (case a of
            Wait \<Rightarrow> Wait | Done (r', ok) \<Rightarrow> Done (Some r', ok))))"

definition read_audio_buffer ::
    "nat \<Rightarrow> AudioRingBuffer option \<Rightarrow> nat \<Rightarrow> (AudioRingBuffer option \<times> byte list option) attempt res" where
  "read_audio_buffer cap rb sz =
     (case rb of
        None \<Rightarrow> Inr (Done (None, None))
      | Some r \<Rightarrow> bind_res (ring_read cap r sz) (\<lambda>a. Inr (case a of
            Wait \<Rightarrow> Wait | Done (r', d) \<Rightarrow> Done (Some r', d))))"

text \<open>
  \<open>cleanup_audio_ring_buffer\<close>: under the mutex the buffer is made inactive and both waiters
  are signalled.  The result is the last state of the structure, the one a waiter finds when
  it wakes; its storage is then released and both callers clear their pointer.
\<close>

definition cleanup_audio_ring_buffer :: "AudioRingBuffer option \<Rightarrow> AudioRingBuffer option" where
  "cleanup_audio_ring_buffer rb = map_option (\<lambda>r. r\<lparr>active := False\<rparr>) rb"

section \<open>Abstraction and invariant\<close>

definition ring_bytes :: "AudioRingBuffer \<Rightarrow> byte list" where
  "ring_bytes rb = map (\<lambda>i. buffer rb ! ((read_pos rb + i) mod rb_size rb)) [0..<used rb]"

definition ring_inv :: "AudioRingBuffer \<Rightarrow> bool" where
  "ring_inv rb \<longleftrightarrow>
     length (buffer rb) = rb_size rb \<and> 0 < rb_size rb \<and> used rb \<le> rb_size rb \<and>
     read_pos rb < rb_size rb \<and> write_pos rb < rb_size rb \<and>
     write_pos rb = (read_pos rb + used rb) mod rb_size rb"

definition ring_live :: "AudioRingBuffer \<Rightarrow> bool" where
  "ring_live rb \<longleftrightarrow> ring_inv rb \<and> active rb"

lemma length_ring_bytes [simp]: "length (ring_bytes rb) = used rb"
  by (simp add: ring_bytes_def)

lemma nth_ring_bytes: "i < used rb \<Longrightarrow> ring_bytes rb ! i = buffer rb ! ((read_pos rb + i) mod rb_size rb)"
  by (simp add: ring_bytes_def)

text \<open>Distances on the ring: where position \<open>i\<close> lies when seen from position \<open>u\<close>.\<close>

lemma ring_distance:
  fixes n :: nat
  assumes "r < n" and "i < n" and "u \<le> n"
    and p: "p = (r + i) mod n" and w: "w = (r + u) mod n"
  shows "(if w \<le> p then p - w else p + n - w) = (if u \<le> i then i - u else i + n - u)"
proof -
  have "p = (if r + i < n then r + i else r + i - n)"
    using assms by (auto simp: mod_if)
  moreover have "w = (if r + u < n then r + u else r + u - n)"
    using assms by (auto simp: mod_if)
  ultimately show ?thesis using assms(1-3) by (auto split: if_splits)
qed

text \<open>The two copies of a write, read back cell by cell.\<close>

lemma write_cells:
  assumes len: "length b = n" and w: "w < n" and d: "length d \<le> n"
    and f: "f = min (n - w) (length d)"
  shows "\<exists>b1 b2. memcpy_at b w (take f d) = Inr b1 \<and>
    (if f < length d then memcpy_at b1 0 (drop f d) else Inr b1) = Inr b2 \<and> length b2 = n \<and>
    (\<forall>p < n. b2 ! p =
       (let k = (if w \<le> p then p - w else p + n - w) in if k < length d then d ! k else b ! p))"
proof -
  have tk: "length (take f d) = f" using f by simp
  have le: "w + f \<le> n" using f w by simp
  obtain b1 where b1: "memcpy_at b w (take f d) = Inr b1"
    using le len tk by (simp add: memcpy_at_def)
  have l1: "length b1 = n" using memcpy_at_length[OF b1] len by simp
  have n1: "b1 ! p = (if w \<le> p \<and> p < w + f then d ! (p - w) else b ! p)" if "p < n" for p
    using nth_memcpy[OF b1] that len tk by auto
  show ?thesis
  proof (cases "f < length d")
    case True
    then have fw: "f = n - w" using f by simp
    have "length (drop f d) \<le> length b1" using d fw w l1 by simp
    then obtain b2 where b2: "memcpy_at b1 0 (drop f d) = Inr b2"
      using memcpy_at_0 by blast
    have l2: "length b2 = n" using memcpy_at_length[OF b2] l1 by simp
    have "b2 ! p = (if p < length d - f then d ! (f + p) else b1 ! p)" if "p < n" for p
      using nth_memcpy[OF b2, of p] that l1 True by auto
    then have "\<forall>p < n. b2 ! p =
       (let k = (if w \<le> p then p - w else p + n - w) in if k < length d then d ! k else b ! p)"
      using n1 fw w d True by (auto simp: Let_def add.commute)
    with b1 b2 l2 True show ?thesis by auto
  next
    case False
    then have "f = length d" using f by simp
    then have "\<forall>p < n. b1 ! p =
       (let k = (if w \<le> p then p - w else p + n - w) in if k < length d then d ! k else b ! p)"
      using n1 f w by (auto simp: Let_def)
    with b1 l1 False show ?thesis by auto
  qed
qed

lemma ring_write_ok:
  assumes inv: "ring_live rb" and room: "used rb + length d \<le> rb_size rb"
  shows "\<exists>rb'. ring_write rb d = Inr (Done (rb', True)) \<and> ring_live rb' \<and>
    ring_bytes rb' = ring_bytes rb @ d \<and> rb_size rb' = rb_size rb"
proof -
  let ?n = "rb_size rb" and ?f = "min (rb_size rb - write_pos rb) (length d)"
  from inv have I: "length (buffer rb) = ?n" "0 < ?n" "used rb \<le> ?n" "read_pos rb < ?n"
    "write_pos rb < ?n" "write_pos rb = (read_pos rb + used rb) mod ?n" "active rb"
    by (auto simp: ring_live_def ring_inv_def)
  have "length d \<le> ?n" using room by simp
  from write_cells[OF I(1) I(5) this refl] obtain b1 b2 where
    b: "memcpy_at (buffer rb) (write_pos rb) (take ?f d) = Inr b1"
       "(if ?f < length d then memcpy_at b1 0 (drop ?f d) else Inr b1) = Inr b2"
       "length b2 = ?n"
    and cell: "\<And>p. p < ?n \<Longrightarrow> b2 ! p =
       (let k = (if write_pos rb \<le> p then p - write_pos rb else p + ?n - write_pos rb)
        in if k < length d then d ! k else buffer rb ! p)"
    by blast
  let ?rb' = "rb\<lparr>buffer := b2, write_pos := (write_pos rb + length d) mod ?n, used := used rb + length d\<rparr>"
  have eq: "ring_write rb d = Inr (Done (?rb', True))"
    using I(2,7) room b(1,2) by (simp add: ring_write_def Let_def)
  have "(write_pos rb + length d) mod ?n = (read_pos rb + (used rb + length d)) mod ?n"
    by (simp add: I(6) mod_add_left_eq add.assoc)
  then have live: "ring_live ?rb'"
    using I b(3) room by (simp add: ring_live_def ring_inv_def)
  have "ring_bytes ?rb' = ring_bytes rb @ d"
  proof (rule nth_equalityI)
    show "length (ring_bytes ?rb') = length (ring_bytes rb @ d)" by simp
    fix i assume "i < length (ring_bytes ?rb')"
    then have i: "i < used rb + length d" by simp
    let ?p = "(read_pos rb + i) mod ?n"
    have p: "?p < ?n" using I(2) by simp
    have iN: "i < ?n" using i room by simp
    have "ring_bytes ?rb' ! i = b2 ! ?p" using i by (simp add: nth_ring_bytes)
    also have "\<dots> = (let k = (if used rb \<le> i then i - used rb else i + ?n - used rb)
        in if k < length d then d ! k else buffer rb ! ?p)"
      using cell[OF p] ring_distance[OF I(4) iN I(3) refl I(6)] by simp
    also have "\<dots> = (ring_bytes rb @ d) ! i"
      using i room by (auto simp: Let_def nth_append nth_ring_bytes)
    finally show "ring_bytes ?rb' ! i = (ring_bytes rb @ d) ! i" .
  qed
  with eq live show ?thesis by auto
qed

lemma ring_read_ok:
  assumes inv: "ring_live rb" and ready: "n \<le> used rb" and cap: "n \<le> cap"
  shows "\<exists>rb'. ring_read cap rb n = Inr (Done (rb', Some (take n (ring_bytes rb)))) \<and> ring_live rb' \<and>
    ring_bytes rb' = drop n (ring_bytes rb) \<and> rb_size rb' = rb_size rb"
proof -
  let ?n = "rb_size rb" and ?f = "min (rb_size rb - read_pos rb) n"
  from inv have I: "length (buffer rb) = ?n" "0 < ?n" "used rb \<le> ?n" "read_pos rb < ?n"
    "write_pos rb < ?n" "write_pos rb = (read_pos rb + used rb) mod ?n" "active rb"
    by (auto simp: ring_live_def ring_inv_def)
  let ?d1 = "take ?f (drop (read_pos rb) (buffer rb))"
  let ?d2 = "take (n - ?f) (buffer rb)"
  have r1: "read_at (buffer rb) (read_pos rb) ?f = Inr ?d1"
    using I by (intro read_at_ok) simp
  have r2: "(if ?f < n then read_at (buffer rb) 0 (n - ?f) else Inr []) = Inr ?d2"
    using I ready by (auto simp: read_at_ok)
  let ?rb' = "rb\<lparr>read_pos := (read_pos rb + n) mod ?n, used := used rb - n\<rparr>"
  have eq: "ring_read cap rb n = Inr (Done (?rb', Some (?d1 @ ?d2)))"
    using I(2,7) ready cap r1 r2 by (simp add: ring_read_def Let_def del: One_nat_def)
  have "((read_pos rb + n) mod ?n + (used rb - n)) mod ?n = (read_pos rb + n + (used rb - n)) mod ?n"
    by (rule mod_add_left_eq)
  also have "\<dots> = (read_pos rb + used rb) mod ?n" using ready by simp
  finally have live: "ring_live ?rb'"
    using I ready by (simp add: ring_live_def ring_inv_def)
  have out: "?d1 @ ?d2 = take n (ring_bytes rb)"
  proof (rule nth_equalityI)
    have l: "length ?d1 = ?f" "length ?d2 = n - ?f" using I ready by auto
    then show "length (?d1 @ ?d2) = length (take n (ring_bytes rb))" using ready by simp
    fix i assume "i < length (?d1 @ ?d2)"
    with l have i: "i < n" by simp
    have m: "(read_pos rb + i) mod ?n = (if read_pos rb + i < ?n then read_pos rb + i else read_pos rb + i - ?n)"
      using I i ready by (auto simp: mod_if)
    show "(?d1 @ ?d2) ! i = take n (ring_bytes rb) ! i"
      using i ready I m by (auto simp: nth_append nth_ring_bytes min_def add.commute)
  qed
  have "ring_bytes ?rb' = drop n (ring_bytes rb)"
    by (rule nth_equalityI) (use ready in \<open>auto simp: nth_ring_bytes mod_add_left_eq add.assoc\<close>)
  with eq out live show ?thesis by (intro exI[of _ ?rb']) simp
qed

lemma ring_init_live:
  assumes "init_audio_ring_buffer ms raw n = Some rb" and "\<And>b. raw = Some b \<Longrightarrow> length b = n" and "0 < n"
  shows "ring_live rb" and "ring_bytes rb = []" and "rb_size rb = n"
  using assms by (auto simp: init_audio_ring_buffer_def ring_live_def ring_inv_def ring_bytes_def
      split: if_splits option.splits)

text \<open>After the cleanup no attempt waits: both threads are released, with the failure value.\<close>

lemma inactive_done:
  "\<not> active rb \<Longrightarrow> ring_write rb d = Inr (Done (rb, False))"
  "\<not> active rb \<Longrightarrow> ring_read cap rb n = Inr (Done (rb, None))"
  by (simp_all add: ring_write_def ring_read_def)

section \<open>The ring buffer is a byte pipe\<close>

interpretation ring: byte_pipe ring_write "\<lambda>rb n. ring_read n rb n" ring_bytes ring_live rb_size
proof unfold_locales
  show "\<exists>rb'. ring_write rb d = Inr (Done (rb', True)) \<and> ring_live rb' \<and>
      ring_bytes rb' = ring_bytes rb @ d \<and> rb_size rb' = rb_size rb"
    if "ring_live rb" "length (ring_bytes rb) + length d \<le> rb_size rb" for rb d
    using that ring_write_ok by simp
  show "ring_write rb d = Inr Wait"
    if "ring_live rb" "rb_size rb < length (ring_bytes rb) + length d" for rb d
    using that by (simp add: ring_write_def ring_live_def)
  show "\<exists>rb'. ring_read n rb n = Inr (Done (rb', Some (take n (ring_bytes rb)))) \<and> ring_live rb' \<and>
      ring_bytes rb' = drop n (ring_bytes rb) \<and> rb_size rb' = rb_size rb"
    if "ring_live rb" "n \<le> length (ring_bytes rb)" for rb n
    using that ring_read_ok by simp
  show "ring_read n rb n = Inr Wait"
    if "ring_live rb" "length (ring_bytes rb) < n" for rb n
    using that by (simp add: ring_read_def ring_live_def)
qed

section \<open>Properties\<close>

text \<open>
  C4: under every schedule of the writing and the reading thread, whatever the sizes of the
  chunks and of the blocks asked for, no access leaves the buffer, and what was read, what is in
  the buffer and what is still to be written make up the stream: nothing is lost, repeated or
  reordered.
\<close>

theorem ring_stream:
  assumes "ring_live rb"
  shows "\<exists>s. run_pipe ring_write (\<lambda>rb n. ring_read n rb n) k ts \<lparr>pipe = rb, pending = chunks, got = []\<rparr> = Inr s \<and>
    ring_live (pipe s) \<and> got s @ ring_bytes (pipe s) @ concat (pending s) = ring_bytes rb @ concat chunks"
  using ring.run_stream[of "\<lparr>pipe = rb, pending = chunks, got = []\<rparr>" k ts] assms by auto

theorem ring_stream_witness:
  "\<exists>s. run_pipe ring_write (\<lambda>rb n. ring_read n rb n) 3
      [Reader, Writer, Writer, Reader, Writer, Reader]
      \<lparr>pipe = \<lparr>buffer = [0, 0, 0, 0], rb_size = 4, used = 0, read_pos = 3, write_pos = 3, active = True\<rparr>,
       pending = [[1, 2, 3], [4, 5], [6]], got = []\<rparr> = Inr s \<and>
    ring_live (pipe s) \<and> got s @ ring_bytes (pipe s) @ concat (pending s) =
      ring_bytes \<lparr>buffer = [0, 0, 0, 0], rb_size = 4, used = 0, read_pos = 3, write_pos = 3, active = True\<rparr>
        @ concat [[1, 2, 3], [4, 5], [6]]"
  by (rule ring_stream) (simp add: ring_live_def ring_inv_def)

text \<open>
  C18: one write puts its bytes at the end of the sequence the ring stands for, across the end
  of the array too, and one read takes its bytes from the front; each waits exactly when there
  is no room, or when there are too few bytes.
\<close>

theorem ring_refines_sequence:
  assumes "ring_live rb"
  shows "(if length (ring_bytes rb) + length d \<le> rb_size rb
      then \<exists>rb'. ring_write rb d = Inr (Done (rb', True)) \<and> ring_live rb' \<and> ring_bytes rb' = ring_bytes rb @ d
      else ring_write rb d = Inr Wait) \<and>
    (if n \<le> length (ring_bytes rb)
      then \<exists>rb'. ring_read n rb n = Inr (Done (rb', Some (take n (ring_bytes rb)))) \<and> ring_live rb' \<and>
        ring_bytes rb' = drop n (ring_bytes rb)
      else ring_read n rb n = Inr Wait)"
  using ring.put_wait[OF assms, of d] ring.put_room[OF assms, of d]
    ring.get_wait[OF assms, of n] ring.get_ready[OF assms, of n] by auto

theorem ring_refines_sequence_witness:
  "\<exists>rb'. ring_write \<lparr>buffer = [0, 9, 0], rb_size = 3, used = 1, read_pos = 1, write_pos = 2, active = True\<rparr> [5, 6]
      = Inr (Done (rb', True)) \<and> ring_live rb' \<and> ring_bytes rb' = [9, 5, 6]"
proof -
  let ?rb = "\<lparr>buffer = [0, 9, 0], rb_size = 3, used = 1, read_pos = 1, write_pos = 2, active = True\<rparr>"
  have "ring_live ?rb" and "ring_bytes ?rb = [9]" by (simp_all add: ring_live_def ring_inv_def ring_bytes_def)
  with ring_refines_sequence[of ?rb "[5, 6]"] show ?thesis by simp
qed



text \<open>
  C32: a chunk larger than the whole buffer is never written: its writer waits after every
  schedule, however much is read, although the comment above \<open>play_audio_chunk\<close> calls the
  write non-blocking.
\<close>

theorem oversized_chunk_blocks:
  assumes "ring_live rb" and "rb_size rb < length c"
  shows "\<exists>s. run_pipe ring_write (\<lambda>rb n. ring_read n rb n) k ts \<lparr>pipe = rb, pending = c # cs, got = []\<rparr> = Inr s \<and>
    pending s = c # cs"
  using ring.oversized_stuck[of "\<lparr>pipe = rb, pending = c # cs, got = []\<rparr>" c cs k ts] assms by simp

theorem oversized_chunk_blocks_witness:
  "\<exists>s. run_pipe ring_write (\<lambda>rb n. ring_read n rb n) 1 [Writer, Reader, Writer]
      \<lparr>pipe = \<lparr>buffer = [7, 0], rb_size = 2, used = 1, read_pos = 0, write_pos = 1, active = True\<rparr>,
       pending = [[1, 2, 3]], got = []\<rparr> = Inr s \<and> pending s = [[1, 2, 3]]"
  by (rule oversized_chunk_blocks) (simp_all add: ring_live_def ring_inv_def)

end
