(* ===== verification/Audio_Device.thy ===== *)
theory Audio_Device
  imports Ring_Buffer
begin

text \<open>
  The rest of audio.c: the life of the audio system, recording, and streaming playback.
  PortAudio is a parameter: \<open>pa log call\<close> says whether the next \<open>call\<close> returns
  \<open>paNoError\<close>, given all calls so far, and every call is recorded in \<open>pa_log\<close> with its
  outcome.  A stream handle is the number of the call that opened it.  The blocks that
  \<open>malloc\<close> returns are arguments.
\<close>

section \<open>PortAudio calls\<close>

datatype pa_call = PaInitialize | PaTerminate | PaOpen nat | PaStart nat | PaStop nat | PaClose nat

type_synonym pa_log = "(pa_call \<times> bool) list"
type_synonym pa_env = "pa_log \<Rightarrow> pa_call \<Rightarrow> bool"

text \<open>
  The streams that are open after a log: an open that succeeds adds its handle, a close that
  succeeds removes it, and \<open>Pa_Terminate\<close> closes all that are left (so its documentation).
\<close>

fun pa_effect :: "pa_call \<times> bool \<Rightarrow> nat set \<Rightarrow> nat set" where
  "pa_effect (PaOpen h, True) S = insert h S"
| "pa_effect (PaClose h, True) S = S - {h}"
| "pa_effect (PaTerminate, True) S = {}"
| "pa_effect _ S = S"

definition open_streams :: "pa_log \<Rightarrow> nat set" where
  "open_streams l = fold pa_effect l {}"

text \<open>A call on a stream is legal while the stream is open.\<close>

fun pa_legal :: "nat set \<Rightarrow> pa_call \<Rightarrow> bool" where
  "pa_legal S (PaStart h) \<longleftrightarrow> h \<in> S"
| "pa_legal S (PaStop h) \<longleftrightarrow> h \<in> S"
| "pa_legal S (PaClose h) \<longleftrightarrow> h \<in> S"
| "pa_legal S _ \<longleftrightarrow> True"

fun legal_from :: "nat set \<Rightarrow> pa_log \<Rightarrow> bool" where
  "legal_from S [] \<longleftrightarrow> True"
| "legal_from S (e # es) \<longleftrightarrow> pa_legal S (fst e) \<and> legal_from (pa_effect e S) es"

definition pa_log_legal :: "pa_log \<Rightarrow> bool" where
  "pa_log_legal l \<longleftrightarrow> legal_from {} l"

definition opened_streams :: "pa_log \<Rightarrow> nat set" where
  "opened_streams l = {h. (PaOpen h, True) \<in> set l}"

definition closed_calls :: "pa_log \<Rightarrow> nat set" where
  "closed_calls l = {h. \<exists>r. (PaClose h, r) \<in> set l}"

section \<open>State\<close>

text \<open>
  The static variables of audio.c.  \<open>streaming_callback\<close> is whether the pointer is set.
\<close>

record audio =
  audio_stream :: "nat option"
  recording_stream :: "nat option"
  audio_initialized :: bool
  recording_active :: bool
  recording_buffer :: "byte list option"
  recording_buffer_used :: nat
  max_recording_size :: nat
  streaming_callback :: bool
  streaming_audio_active :: bool
  streaming_ring_buffer :: "AudioRingBuffer option"
  streaming_stream :: "nat option"
  pa_log :: pa_log

definition static_audio :: audio where
  "static_audio = \<lparr>audio_stream = None, recording_stream = None, audio_initialized = False,
     recording_active = False, recording_buffer = None, recording_buffer_used = 0,
     max_recording_size = 0, streaming_callback = False, streaming_audio_active = False,
     streaming_ring_buffer = None, streaming_stream = None, pa_log = []\<rparr>"

definition pa_do :: "pa_env \<Rightarrow> pa_call \<Rightarrow> audio \<Rightarrow> bool \<times> audio" where
  "pa_do pa c st = (let ok = pa (pa_log st) c in (ok, st\<lparr>pa_log := pa_log st @ [(c, ok)]\<rparr>))"

text \<open>A call whose result the code does not look at.\<close>

definition pa_run :: "pa_env \<Rightarrow> pa_call \<Rightarrow> audio \<Rightarrow> audio" where
  "pa_run pa c st = snd (pa_do pa c st)"

definition fresh_handle :: "audio \<Rightarrow> nat" where
  "fresh_handle st = length (pa_log st)"

section \<open>Life of the audio system\<close>

definition recording_capacity :: nat where
  "recording_capacity = SAMPLE_RATE * CHANNELS * 2 * MAX_RECORDING_DURATION"

definition init_audio :: "pa_env \<Rightarrow> byte list option \<Rightarrow> audio \<Rightarrow> audio \<times> bool" where
  "init_audio pa raw st =
     (if audio_initialized st then (st, True)
      else
        (case pa_do pa PaInitialize st of
           (False, st1) \<Rightarrow> (st1, False)
         | (True, st1) \<Rightarrow>
             (let h = fresh_handle st1 in
              case pa_do pa (PaOpen h) st1 of
                (False, st2) \<Rightarrow> (pa_run pa PaTerminate st2, False)
              | (True, st2) \<Rightarrow>
                  (case pa_do pa (PaStart h) (st2\<lparr>audio_stream := Some h\<rparr>) of
                     (False, st3) \<Rightarrow> (pa_run pa PaTerminate (pa_run pa (PaClose h) st3), False)
                   | (True, st3) \<Rightarrow>
                       (let st4 = st3\<lparr>max_recording_size := recording_capacity, recording_buffer := raw\<rparr> in
                        case raw of
                          None \<Rightarrow> (pa_run pa PaTerminate (pa_run pa (PaClose h) st4), False)
                        | Some b \<Rightarrow> (st4\<lparr>audio_initialized := True\<rparr>, True))))))"

section \<open>Recording\<close>

text \<open>\<open>inp\<close> is what \<open>inputBuffer\<close> points to, \<open>None\<close> for NULL; the second result is the chunk
  handed to the streaming callback.\<close>

definition recording_callback :: "byte list option \<Rightarrow> audio \<Rightarrow> (audio \<times> byte list option) res" where
  "recording_callback inp st =
     (case inp of
        None \<Rightarrow> Inr (st, None)
      | Some d \<Rightarrow>
          if \<not> recording_active st then Inr (st, None)
          else
            (let fwd = (if streaming_callback st then Some d else None) in
             if recording_buffer_used st + length d \<le> max_recording_size st then
               (case recording_buffer st of
                  None \<Rightarrow> Inl NullDeref
                | Some b \<Rightarrow> bind_res (memcpy_at b (recording_buffer_used st) d) (\<lambda>b'.
                    Inr (st\<lparr>recording_buffer := Some b',
                            recording_buffer_used := recording_buffer_used st + length d\<rparr>, fwd)))
             else Inr (st, fwd)))"

definition start_recording_with_streaming :: "pa_env \<Rightarrow> bool \<Rightarrow> audio \<Rightarrow> audio \<times> bool" where
  "start_recording_with_streaming pa callback st =
     (if \<not> audio_initialized st then (st, False)
      else if recording_active st then (st, False)
      else
        (let h = fresh_handle st in
         case pa_do pa (PaOpen h) st of
           (False, st1) \<Rightarrow> (st1, False)
         | (True, st1) \<Rightarrow>
             (case pa_do pa (PaStart h) (st1\<lparr>recording_stream := Some h\<rparr>) of
                (False, st2) \<Rightarrow> ((pa_run pa (PaClose h) st2)\<lparr>recording_stream := None\<rparr>, False)
              | (True, st2) \<Rightarrow>
                  (st2\<lparr>recording_buffer_used := 0, recording_active := True,
                       streaming_callback := callback\<rparr>, True))))"

definition start_recording :: "pa_env \<Rightarrow> audio \<Rightarrow> audio \<times> bool" where
  "start_recording pa st = start_recording_with_streaming pa False st"

definition is_recording_active :: "audio \<Rightarrow> bool" where
  "is_recording_active st = recording_active st"

definition stop_recording :: "pa_env \<Rightarrow> audio \<Rightarrow> audio \<times> bool" where
  "stop_recording pa st =
     (if \<not> recording_active st then (st, False)
      else
        (case recording_stream st of
           None \<Rightarrow> (st, False)
         | Some h \<Rightarrow>
             (case pa_do pa (PaStop h) st of
                (False, st1) \<Rightarrow> (st1, False)
              | (True, st1) \<Rightarrow>
                  (case pa_do pa (PaClose h) st1 of
                     (False, st2) \<Rightarrow> (st2, False)
                   | (True, st2) \<Rightarrow>
                       (st2\<lparr>recording_stream := None, recording_active := False,
                            streaming_callback := False\<rparr>, True)))))"

text \<open>The result is the block given to the caller, or \<open>None\<close> where the C function returns 0.\<close>

definition get_recorded_audio :: "bool \<Rightarrow> audio \<Rightarrow> byte list option res" where
  "get_recorded_audio mok st =
     (if recording_active st then Inr None
      else if recording_buffer_used st = 0 then Inr None
      else if \<not> mok then Inr None
      else
        (case recording_buffer st of
           None \<Rightarrow> Inl NullDeref
         | Some b \<Rightarrow> bind_res (read_at b 0 (recording_buffer_used st)) (\<lambda>d. Inr (Some d))))"

section \<open>Streaming playback\<close>

definition streaming_buffer_size :: nat where
  "streaming_buffer_size = 1024 * 1024"

text \<open>
  \<open>mok\<close>: the \<open>malloc\<close> of the temporary block succeeds.  The code does not test it, so a
  failed one is a block of size 0.  The result is what is put in \<open>outputBuffer\<close>.
\<close>

definition streaming_playback_callback :: "bool \<Rightarrow> nat \<Rightarrow> audio \<Rightarrow> (audio \<times> byte list) attempt res" where
  "streaming_playback_callback mok framesPerBuffer st =
     (let bytes_needed = framesPerBuffer * CHANNELS * 1;
          silence = replicate bytes_needed 0 in
      case streaming_ring_buffer st of
        None \<Rightarrow> Inr (Done (st, silence))
      | Some rb \<Rightarrow>
          if \<not> active rb then Inr (Done (st, silence))
          else
            bind_res (read_audio_buffer (if mok then bytes_needed else 0) (Some rb) bytes_needed) (\<lambda>a.
            case a of
              Wait \<Rightarrow> Inr Wait
            | Done (rb', Some d) \<Rightarrow> Inr (Done (st\<lparr>streaming_ring_buffer := rb'\<rparr>, d))
            | Done (rb', None) \<Rightarrow> Inr (Done (st\<lparr>streaming_ring_buffer := rb'\<rparr>, silence))))"

definition is_linear16_data :: "byte list \<Rightarrow> bool" where
  "is_linear16_data d =
     (if length d < 2 then False
      else if d ! 0 = 0xFF \<and> (d ! 1 = 0xFB \<or> d ! 1 = 0xFA) then False
      else if 10 \<le> length d \<and> d ! 0 = byte_of (CHR ''I'') \<and> d ! 1 = byte_of (CHR ''D'')
              \<and> d ! 2 = byte_of (CHR ''3'') \<and> 0x02 \<le> d ! 3 \<and> d ! 3 \<le> 0x04 then False
      else True)"

definition handle_linear16_audio :: "bool \<Rightarrow> byte list \<Rightarrow> byte list option" where
  "handle_linear16_audio mok d = (if \<not> mok then None else Some d)"

text \<open>
  \<open>dev\<close>: there is a default output device.  Without one \<open>Pa_GetDeviceInfo\<close> returns NULL and
  the code reads a field of it.
\<close>

definition start_streaming_audio_playback ::
    "pa_env \<Rightarrow> bool \<Rightarrow> bool \<Rightarrow> byte list option \<Rightarrow> audio \<Rightarrow> (audio \<times> bool) res" where
  "start_streaming_audio_playback pa dev ms raw st =
     (if \<not> audio_initialized st then Inr (st, False)
      else if streaming_audio_active st then Inr (st, False)
      else
        (case init_audio_ring_buffer ms raw streaming_buffer_size of
           None \<Rightarrow> Inr (st\<lparr>streaming_ring_buffer := None\<rparr>, False)
         | Some rb \<Rightarrow>
             bind_res (guard_res dev NullDeref) (\<lambda>_.
             (let st1 = st\<lparr>streaming_ring_buffer := Some rb\<rparr>; h = fresh_handle st1 in
              case pa_do pa (PaOpen h) st1 of
                (False, st2) \<Rightarrow>
                  Inr (st2\<lparr>streaming_ring_buffer := cleanup_audio_ring_buffer (Some rb)\<rparr>
                         \<lparr>streaming_ring_buffer := None\<rparr>, False)
              | (True, st2) \<Rightarrow>
                  (case pa_do pa (PaStart h) (st2\<lparr>streaming_stream := Some h\<rparr>) of
                     (False, st3) \<Rightarrow>
                       Inr ((pa_run pa (PaClose h) st3)
                          \<lparr>streaming_ring_buffer := cleanup_audio_ring_buffer (Some rb)\<rparr>
                          \<lparr>streaming_ring_buffer := None, streaming_stream := None\<rparr>, False)
                   | (True, st3) \<Rightarrow> Inr (st3\<lparr>streaming_audio_active := True\<rparr>, True))))))"

text \<open>
  The part of \<open>stop_streaming_audio_playback\<close> after the flag is cleared: it starts with
  \<open>Pa_StopStream\<close>, and the ring buffer is released after that call has returned.
\<close>

definition release_playback :: "pa_env \<Rightarrow> audio \<Rightarrow> audio" where
  "release_playback pa st1 =
     (let st2 = (case streaming_stream st1 of
            None \<Rightarrow> st1
          | Some h \<Rightarrow> (pa_run pa (PaClose h) (pa_run pa (PaStop h) st1))\<lparr>streaming_stream := None\<rparr>)
      in case streaming_ring_buffer st2 of
           None \<Rightarrow> st2
         | Some rb \<Rightarrow>
             st2\<lparr>streaming_ring_buffer := cleanup_audio_ring_buffer (Some rb)\<rparr>\<lparr>streaming_ring_buffer := None\<rparr>)"

definition stop_streaming_audio_playback :: "pa_env \<Rightarrow> audio \<Rightarrow> audio \<times> bool" where
  "stop_streaming_audio_playback pa st =
     (if \<not> streaming_audio_active st then (st, False)
      else (release_playback pa (st\<lparr>streaming_audio_active := False\<rparr>), True))"

definition is_streaming_audio_active :: "audio \<Rightarrow> bool" where
  "is_streaming_audio_active st = streaming_audio_active st"

definition play_audio_chunk :: "bool \<Rightarrow> byte list option \<Rightarrow> audio \<Rightarrow> (audio \<times> bool) attempt res" where
  "play_audio_chunk mok chunk st =
     (case streaming_ring_buffer st of
        None \<Rightarrow> Inr (Done (st, False))
      | Some rb \<Rightarrow>
          if \<not> streaming_audio_active st then Inr (Done (st, False))
          else
            (case chunk of
               None \<Rightarrow> Inr (Done (st, False))
             | Some d \<Rightarrow>
                 if d = [] then Inr (Done (st, False))
                 else
                   (case handle_linear16_audio mok d of
                      None \<Rightarrow> Inr (Done (st, False))
                    | Some pcm \<Rightarrow>
                        bind_res (write_audio_buffer (Some rb) pcm) (\<lambda>a.
                        case a of
                          Wait \<Rightarrow> Inr Wait
                        | Done (rb', ok) \<Rightarrow> Inr (Done (st\<lparr>streaming_ring_buffer := rb'\<rparr>, ok))))))"

section \<open>Cleanup\<close>

text \<open>The two streams that \<open>cleanup_audio\<close> closes itself.\<close>

definition close_recording :: "pa_env \<Rightarrow> audio \<Rightarrow> audio" where
  "close_recording pa st = (case recording_stream st of
      None \<Rightarrow> st | Some h \<Rightarrow> (pa_run pa (PaClose h) st)\<lparr>recording_stream := None\<rparr>)"

definition close_output :: "pa_env \<Rightarrow> audio \<Rightarrow> audio" where
  "close_output pa st = (case audio_stream st of
      None \<Rightarrow> st
    | Some h \<Rightarrow> (pa_run pa (PaClose h) (pa_run pa (PaStop h) st))\<lparr>audio_stream := None\<rparr>)"

definition cleanup_audio :: "pa_env \<Rightarrow> audio \<Rightarrow> audio" where
  "cleanup_audio pa st =
     (let st1 = (if recording_active st then fst (stop_recording pa st) else st);
          st2 = st1\<lparr>recording_buffer := None\<rparr>;
          st3 = close_recording pa st2;
          st4 = close_output pa st3;
          st5 = (if streaming_audio_active st4 then fst (stop_streaming_audio_playback pa st4) else st4)
      in if audio_initialized st5
         then (pa_run pa PaTerminate st5)\<lparr>audio_initialized := False\<rparr> else st5)"

section \<open>Logs\<close>

lemma open_streams_simps [simp]:
  "open_streams [] = {}"
  "open_streams (l @ [e]) = pa_effect e (open_streams l)"
  by (simp_all add: open_streams_def)

lemma legal_from_append:
  "legal_from S (l @ m) \<longleftrightarrow> legal_from S l \<and> legal_from (fold pa_effect l S) m"
  by (induction l arbitrary: S) auto

lemma pa_log_legal_simps [simp]:
  "pa_log_legal []"
  "pa_log_legal (l @ [e]) \<longleftrightarrow> pa_log_legal l \<and> pa_legal (open_streams l) (fst e)"
  by (simp_all add: pa_log_legal_def legal_from_append open_streams_def)

lemma opened_streams_simps [simp]:
  "opened_streams [] = {}"
  "opened_streams (l @ [(PaOpen h, True)]) = insert h (opened_streams l)"
  "opened_streams (l @ [(PaOpen h, False)]) = opened_streams l"
  "opened_streams (l @ [(PaClose h, r)]) = opened_streams l"
  "opened_streams (l @ [(PaStart h, r)]) = opened_streams l"
  "opened_streams (l @ [(PaStop h, r)]) = opened_streams l"
  "opened_streams (l @ [(PaInitialize, r)]) = opened_streams l"
  "opened_streams (l @ [(PaTerminate, r)]) = opened_streams l"
  by (auto simp: opened_streams_def)

lemma closed_calls_simps [simp]:
  "closed_calls [] = {}"
  "closed_calls (l @ [(PaClose h, r)]) = insert h (closed_calls l)"
  "closed_calls (l @ [(PaOpen h, r)]) = closed_calls l"
  "closed_calls (l @ [(PaStart h, r)]) = closed_calls l"
  "closed_calls (l @ [(PaStop h, r)]) = closed_calls l"
  "closed_calls (l @ [(PaInitialize, r)]) = closed_calls l"
  "closed_calls (l @ [(PaTerminate, r)]) = closed_calls l"
  by (auto simp: closed_calls_def)

lemma pa_effect_simps [simp]:
  "pa_effect (PaStart h, r) S = S" "pa_effect (PaStop h, r) S = S"
  "pa_effect (PaInitialize, r) S = S" "pa_effect (PaOpen h, False) S = S"
  "pa_effect (PaClose h, False) S = S"
  by (cases r; simp)+

lemma pa_close_in: "x \<noteq> h \<Longrightarrow> x \<in> pa_effect (PaClose h, r) S \<longleftrightarrow> x \<in> S"
  by (cases r) auto

lemma pa_close_le: "x \<in> pa_effect (PaClose h, r) S \<Longrightarrow> x \<in> S"
  by (cases r) auto

text \<open>
  \<open>handle_inv H l\<close>: the log \<open>l\<close> is legal, the handles \<open>H\<close> the program holds are open, and
  every stream that was opened is held or has been asked to close.
\<close>

definition handle_inv :: "nat set \<Rightarrow> pa_log \<Rightarrow> bool" where
  "handle_inv H l \<longleftrightarrow>
     pa_log_legal l \<and> (\<forall>h \<in> open_streams l. h < length l) \<and> H \<subseteq> open_streams l \<and>
     opened_streams l \<subseteq> closed_calls l \<union> H"

lemma handle_inv_Nil: "handle_inv {} []"
  by (simp add: handle_inv_def)

lemma handle_inv_initialize: "handle_inv H l \<Longrightarrow> handle_inv H (l @ [(PaInitialize, r)])"
  by (auto simp: handle_inv_def less_SucI)

lemma handle_inv_open:
  "handle_inv H l \<Longrightarrow> handle_inv (insert (length l) H) (l @ [(PaOpen (length l), True)])"
  by (auto simp: handle_inv_def less_SucI)

lemma handle_inv_open_fail: "handle_inv H l \<Longrightarrow> handle_inv H (l @ [(PaOpen h, False)])"
  by (auto simp: handle_inv_def less_SucI)

lemma handle_inv_start: "handle_inv H l \<Longrightarrow> h \<in> H \<Longrightarrow> handle_inv H (l @ [(PaStart h, r)])"
  by (auto simp: handle_inv_def less_SucI)

lemma handle_inv_stop: "handle_inv H l \<Longrightarrow> h \<in> H \<Longrightarrow> handle_inv H (l @ [(PaStop h, r)])"
  by (auto simp: handle_inv_def less_SucI)

lemma handle_inv_close:
  "handle_inv H l \<Longrightarrow> h \<in> H \<Longrightarrow> handle_inv (H - {h}) (l @ [(PaClose h, r)])"
  by (cases r) (auto simp: handle_inv_def less_SucI)

lemma handle_inv_close_fail: "handle_inv H l \<Longrightarrow> h \<in> H \<Longrightarrow> handle_inv H (l @ [(PaClose h, False)])"
  by (auto simp: handle_inv_def less_SucI)

lemma handle_inv_terminate: "handle_inv {} l \<Longrightarrow> handle_inv {} (l @ [(PaTerminate, r)])"
  by (cases r) (auto simp: handle_inv_def less_SucI)

lemma handle_inv_fresh: "handle_inv H l \<Longrightarrow> length l \<notin> H"
  by (auto simp: handle_inv_def)

lemmas handle_inv_intros = handle_inv_initialize handle_inv_open handle_inv_open_fail handle_inv_start
  handle_inv_stop handle_inv_close handle_inv_close_fail handle_inv_terminate

section \<open>The invariant between initialisation and cleanup\<close>

definition held :: "nat option \<Rightarrow> nat option \<Rightarrow> nat option \<Rightarrow> nat set" where
  "held a r s = set_option a \<union> set_option r \<union> set_option s"

definition handles :: "audio \<Rightarrow> nat set" where
  "handles st = held (audio_stream st) (recording_stream st) (streaming_stream st)"

lemma held_simps:
  "h \<in> held (Some h) r s" "h \<in> held a (Some h) s" "h \<in> held a r (Some h)"
  "held a (Some h) s = insert h (held a None s)" "held a r (Some h) = insert h (held a r None)"
  "held (Some h) r s = insert h (held None r s)" "held None None None = {}"
  by (auto simp: held_def)

definition streams_ok :: "audio \<Rightarrow> bool" where
  "streams_ok st \<longleftrightarrow>
     handle_inv (handles st) (pa_log st) \<and>
     set_option (audio_stream st) \<inter> set_option (recording_stream st) = {} \<and>
     set_option (audio_stream st) \<inter> set_option (streaming_stream st) = {} \<and>
     set_option (recording_stream st) \<inter> set_option (streaming_stream st) = {}"

definition buffers_ok :: "audio \<Rightarrow> bool" where
  "buffers_ok st \<longleftrightarrow>
     max_recording_size st = recording_capacity \<and> recording_buffer_used st \<le> recording_capacity \<and>
     (\<exists>b. recording_buffer st = Some b \<and> length b = recording_capacity) \<and>
     (\<forall>rb. streaming_ring_buffer st = Some rb \<longrightarrow> ring_live rb \<and> rb_size rb = streaming_buffer_size)"

definition flags_ok :: "audio \<Rightarrow> bool" where
  "flags_ok st \<longleftrightarrow>
     audio_initialized st \<and> audio_stream st \<noteq> None \<and>
     (recording_active st \<longleftrightarrow> recording_stream st \<noteq> None) \<and>
     (streaming_audio_active st \<longleftrightarrow> streaming_stream st \<noteq> None) \<and>
     (streaming_ring_buffer st \<noteq> None \<longleftrightarrow> streaming_stream st \<noteq> None)"

definition audio_ready :: "audio \<Rightarrow> bool" where
  "audio_ready st \<longleftrightarrow> streams_ok st \<and> buffers_ok st \<and> flags_ok st"

lemmas audio_inv_defs = audio_ready_def streams_ok_def buffers_ok_def flags_ok_def

named_theorems pa_simps \<open>unfolding PortAudio calls\<close>

lemmas pa_call_defs [pa_simps] = pa_do_def pa_run_def fresh_handle_def Let_def

lemma init_audio_ready:
  assumes "init_audio pa (Some b) static_audio = (st, True)" and "length b = recording_capacity"
  shows "audio_ready st"
proof -
  from assms have st: "st = static_audio\<lparr>audio_stream := Some 1, audio_initialized := True,
      max_recording_size := recording_capacity, recording_buffer := Some b,
      pa_log := [(PaInitialize, True), (PaOpen 1, True), (PaStart 1, True)]\<rparr>"
    by (auto simp: init_audio_def pa_simps static_audio_def split: bool.splits)
  have "handle_inv {1} (([(PaInitialize, True)] @ [(PaOpen 1, True)]) @ [(PaStart 1, True)])"
    using handle_inv_open[OF handle_inv_initialize[OF handle_inv_Nil]]
    by (intro handle_inv_start) auto
  then show ?thesis
    using assms(2) by (simp add: st static_audio_def audio_inv_defs handles_def held_def)
qed

text \<open>
  Every operation leaves the stream variables and the log in step; one lemma per operation.
\<close>

lemma audio_readyD:
  assumes "audio_ready st"
  obtains b where "audio_initialized st" "recording_buffer st = Some b" "length b = recording_capacity"
    "max_recording_size st = recording_capacity" "recording_buffer_used st \<le> recording_capacity"
  using assms by (auto simp: audio_inv_defs)

lemma start_recording_ready:
  assumes r: "audio_ready st"
  shows "audio_ready (fst (start_recording_with_streaming pa cb st))"
proof (cases "audio_initialized st \<and> \<not> recording_active st")
  case False
  with r show ?thesis by (auto simp: start_recording_with_streaming_def)
next
  case True
  let ?l = "pa_log st" and ?h = "length (pa_log st)"
  have none: "recording_stream st = None" using r True by (auto simp: audio_inv_defs)
  have inv: "handle_inv (handles st) ?l" using r by (simp add: audio_inv_defs)
  note fresh = handle_inv_fresh[OF inv]
  have H: "handles (st\<lparr>recording_stream := Some ?h\<rparr>) = insert ?h (handles st)"
    using none by (auto simp: handles_def held_def)
  let ?l1 = "?l @ [(PaOpen ?h, True)]"
  show ?thesis
  proof (cases "pa ?l (PaOpen ?h)")
    case False
    with handle_inv_open_fail[OF inv] r True show ?thesis
      by (auto simp: start_recording_with_streaming_def pa_simps audio_inv_defs handles_def held_def)
  next
    case op: True
    note inv1 = handle_inv_start[OF handle_inv_open[OF inv] insertI1]
    show ?thesis
    proof (cases "pa ?l1 (PaStart ?h)")
      case True
      with op inv1[of True] r \<open>audio_initialized st \<and> \<not> recording_active st\<close> fresh none show ?thesis
        by (auto simp: start_recording_with_streaming_def pa_simps audio_inv_defs handles_def held_def)
    next
      case False
      have "insert ?h (handles st) - {?h} = handles st" using fresh by auto
      with handle_inv_close[OF inv1[of False] insertI1]
      have "handle_inv (handles st) ((?l1 @ [(PaStart ?h, False)]) @ [(PaClose ?h, r)])" for r
        by simp
      with op False r \<open>audio_initialized st \<and> \<not> recording_active st\<close> fresh none show ?thesis
        by (auto simp: start_recording_with_streaming_def pa_simps audio_inv_defs handles_def held_def)
    qed
  qed
qed

lemma stop_recording_ready:
  assumes r: "audio_ready st"
  shows "audio_ready (fst (stop_recording pa st))"
proof (cases "recording_active st")
  case False
  with r show ?thesis by (simp add: stop_recording_def)
next
  case act: True
  with r obtain h where h: "recording_stream st = Some h" by (auto simp: audio_inv_defs)
  let ?l = "pa_log st" and ?H = "held (audio_stream st) (Some h) (streaming_stream st)"
  let ?l1 = "?l @ [(PaStop h, True)]"
  have inv: "handle_inv ?H ?l" using r h by (simp add: audio_inv_defs handles_def)
  have hin: "h \<in> ?H" by (rule held_simps)
  have H: "?H - {h} = held (audio_stream st) None (streaming_stream st)"
    using r h by (auto simp: audio_inv_defs held_def)
  note stop = handle_inv_stop[OF inv hin]
  consider "\<not> pa ?l (PaStop h)" | "pa ?l (PaStop h)" "\<not> pa ?l1 (PaClose h)"
    | "pa ?l (PaStop h)" "pa ?l1 (PaClose h)" by blast
  then show ?thesis
  proof cases
    case 1
    then have "fst (stop_recording pa st) = st\<lparr>pa_log := ?l @ [(PaStop h, False)]\<rparr>"
      using act h by (simp add: stop_recording_def pa_simps)
    with r h stop[of False] show ?thesis by (simp add: audio_inv_defs handles_def)
  next
    case 2
    then have "fst (stop_recording pa st) = st\<lparr>pa_log := ?l1 @ [(PaClose h, False)]\<rparr>"
      using act h by (simp add: stop_recording_def pa_simps)
    moreover have "handle_inv ?H (?l1 @ [(PaClose h, False)])"
      by (rule handle_inv_close_fail[OF stop hin])
    ultimately show ?thesis using r h by (simp add: audio_inv_defs handles_def)
  next
    case 3
    then have "fst (stop_recording pa st) = st\<lparr>pa_log := ?l1 @ [(PaClose h, True)],
        recording_stream := None, recording_active := False, streaming_callback := False\<rparr>"
      using act h by (simp add: stop_recording_def pa_simps)
    moreover have "handle_inv (held (audio_stream st) None (streaming_stream st)) (?l1 @ [(PaClose h, True)])"
      using handle_inv_close[OF stop hin] H by simp
    ultimately show ?thesis using r h by (simp add: audio_inv_defs handles_def)
  qed
qed


text \<open>The block \<open>malloc(size)\<close> returns for the ring buffer has the size asked for.\<close>

definition ring_block_ok :: "byte list option \<Rightarrow> bool" where
  "ring_block_ok raw \<longleftrightarrow> (case raw of None \<Rightarrow> True | Some b \<Rightarrow> length b = streaming_buffer_size)"

lemma start_streaming_ready:
  assumes r: "audio_ready st" and raw: "ring_block_ok raw"
  shows "\<exists>st' ok. start_streaming_audio_playback pa True ms raw st = Inr (st', ok) \<and> audio_ready st'"
proof (cases "\<not> streaming_audio_active st \<and> ms \<and> raw \<noteq> None")
  case False
  with r show ?thesis
    by (auto simp: start_streaming_audio_playback_def init_audio_ring_buffer_def audio_inv_defs handles_def)
next
  case True
  then obtain rb where rb: "init_audio_ring_buffer ms raw streaming_buffer_size = Some rb"
    by (auto simp: init_audio_ring_buffer_def)
  have live: "ring_live rb" "rb_size rb = streaming_buffer_size"
    using ring_init_live[OF rb] raw by (cases raw; simp add: streaming_buffer_size_def ring_block_ok_def)+
  let ?l = "pa_log st" and ?h = "length (pa_log st)"
  let ?l1 = "?l @ [(PaOpen ?h, True)]"
  let ?H = "held (audio_stream st) (recording_stream st) None"
  have none: "streaming_stream st = None" "streaming_ring_buffer st = None" "audio_initialized st"
    and act: "\<not> streaming_audio_active st"
    using r True by (auto simp: audio_inv_defs)
  have inv: "handle_inv ?H ?l" using r none by (simp add: audio_inv_defs handles_def)
  note fresh = handle_inv_fresh[OF inv]
  note inv1 = handle_inv_start[OF handle_inv_open[OF inv] insertI1]
  have del: "insert ?h ?H - {?h} = ?H" using fresh by auto
  note start = start_streaming_audio_playback_def pa_simps
  consider "\<not> pa ?l (PaOpen ?h)" | "pa ?l (PaOpen ?h)" "\<not> pa ?l1 (PaStart ?h)"
    | "pa ?l (PaOpen ?h)" "pa ?l1 (PaStart ?h)" by blast
  then show ?thesis
  proof cases
    case 1
    then have "start_streaming_audio_playback pa True ms raw st =
        Inr (st\<lparr>pa_log := ?l @ [(PaOpen ?h, False)], streaming_ring_buffer := None\<rparr>, False)"
      using act none rb by (simp add: start)
    with r none handle_inv_open_fail[OF inv] show ?thesis by (auto simp: audio_inv_defs handles_def)
  next
    case 2
    let ?l2 = "?l1 @ [(PaStart ?h, False)]"
    from 2 have "start_streaming_audio_playback pa True ms raw st =
        Inr (st\<lparr>streaming_stream := None, pa_log := ?l2 @ [(PaClose ?h, pa ?l2 (PaClose ?h))],
              streaming_ring_buffer := None\<rparr>, False)"
      using act none rb by (simp add: start)
    moreover have "handle_inv ?H (?l2 @ [(PaClose ?h, pa ?l2 (PaClose ?h))])"
      using handle_inv_close[OF inv1 insertI1] del by simp
    ultimately show ?thesis using r none by (auto simp: audio_inv_defs handles_def)
  next
    case 3
    then have "start_streaming_audio_playback pa True ms raw st =
        Inr (st\<lparr>streaming_ring_buffer := Some rb, streaming_stream := Some ?h,
              pa_log := ?l1 @ [(PaStart ?h, True)], streaming_audio_active := True\<rparr>, True)"
      using act none rb by (simp add: start)
    moreover have "handle_inv (held (audio_stream st) (recording_stream st) (Some ?h)) (?l1 @ [(PaStart ?h, True)])"
      using inv1 by (simp add: held_def)
    moreover have "?h \<notin> set_option (audio_stream st)" "?h \<notin> set_option (recording_stream st)"
      using fresh by (auto simp: held_def)
    ultimately show ?thesis using r none live by (auto simp: audio_inv_defs handles_def)
  qed
qed

lemma stop_streaming_eq:
  assumes "streaming_audio_active st" and "streaming_stream st = Some h" and "streaming_ring_buffer st = Some rb"
  shows "\<exists>a b. stop_streaming_audio_playback pa st =
    (st\<lparr>streaming_audio_active := False, pa_log := (pa_log st @ [(PaStop h, a)]) @ [(PaClose h, b)],
        streaming_stream := None, streaming_ring_buffer := None\<rparr>, True)"
  using assms by (intro exI[of _ "pa (pa_log st) (PaStop h)"] exI)
    (simp add: stop_streaming_audio_playback_def release_playback_def pa_simps)

lemma stop_streaming_ready:
  assumes r: "audio_ready st"
  shows "audio_ready (fst (stop_streaming_audio_playback pa st))"
proof (cases "streaming_audio_active st")
  case False
  with r show ?thesis by (simp add: stop_streaming_audio_playback_def)
next
  case act: True
  with r obtain h rb where h: "streaming_stream st = Some h" "streaming_ring_buffer st = Some rb"
    by (auto simp: audio_inv_defs)
  let ?H = "held (audio_stream st) (recording_stream st) (Some h)"
  have hin: "h \<in> ?H" by (rule held_simps)
  have inv: "handle_inv ?H (pa_log st)" using r h by (simp add: audio_inv_defs handles_def)
  have H: "?H - {h} = held (audio_stream st) (recording_stream st) None"
    using r h by (auto simp: audio_inv_defs held_def)
  have "handle_inv (held (audio_stream st) (recording_stream st) None)
      ((pa_log st @ [(PaStop h, a)]) @ [(PaClose h, b)])" for a b
    using handle_inv_close[OF handle_inv_stop[OF inv hin] hin] H by simp
  moreover obtain a b where "fst (stop_streaming_audio_playback pa st) =
      st\<lparr>streaming_audio_active := False, pa_log := (pa_log st @ [(PaStop h, a)]) @ [(PaClose h, b)],
        streaming_stream := None, streaming_ring_buffer := None\<rparr>"
    using stop_streaming_eq[OF act h] by (metis fst_conv)
  ultimately show ?thesis using r by (simp add: audio_inv_defs handles_def)
qed

section \<open>The data operations\<close>

text \<open>The operations that touch only buffers keep the streams and the log.\<close>

lemma audio_ready_ring:
  assumes "audio_ready st" and "streaming_ring_buffer st = Some rb" and "ring_live rb'" and "rb_size rb' = rb_size rb"
  shows "audio_ready (st\<lparr>streaming_ring_buffer := Some rb'\<rparr>)"
  using assms by (simp add: audio_inv_defs handles_def)

lemma audio_ready_ringD:
  assumes "audio_ready st" and "streaming_ring_buffer st = Some rb"
  shows "ring_live rb" and "rb_size rb = streaming_buffer_size" and "active rb"
  using assms by (auto simp: audio_inv_defs ring_live_def)

lemma recording_callback_ready:
  assumes r: "audio_ready st"
  shows "\<exists>st' fwd. recording_callback inp st = Inr (st', fwd) \<and> audio_ready st'"
proof -
  from r obtain b where b: "recording_buffer st = Some b" "length b = recording_capacity"
    "max_recording_size st = recording_capacity"
    by (rule audio_readyD)
  show ?thesis
  proof (cases "\<exists>d. inp = Some d \<and> recording_active st \<and> recording_buffer_used st + length d \<le> recording_capacity")
    case True
    then obtain d where d: "inp = Some d" "recording_active st"
      "recording_buffer_used st + length d \<le> recording_capacity" by blast
    with b have m: "memcpy_at b (recording_buffer_used st) d = Inr (take (recording_buffer_used st) b @ d
        @ drop (recording_buffer_used st + length d) b)"
      by (simp add: memcpy_at_ok)
    have "length (take (recording_buffer_used st) b @ d @ drop (recording_buffer_used st + length d) b)
        = recording_capacity"
      using memcpy_at_length[OF m] b by simp
    with r b d m show ?thesis by (simp add: recording_callback_def audio_inv_defs handles_def)
  next
    case False
    with r b show ?thesis by (auto simp: recording_callback_def split: option.splits)
  qed
qed

lemma play_audio_chunk_ready:
  assumes r: "audio_ready st"
  shows "play_audio_chunk mok chunk st = Inr Wait \<or>
    (\<exists>st' ok. play_audio_chunk mok chunk st = Inr (Done (st', ok)) \<and> audio_ready st')"
proof (cases "\<exists>rb d. streaming_ring_buffer st = Some rb \<and> streaming_audio_active st \<and> chunk = Some d \<and> d \<noteq> [] \<and> mok")
  case False
  with r show ?thesis
    by (auto simp: play_audio_chunk_def handle_linear16_audio_def split: option.splits)
next
  case True
  then obtain rb d where d: "streaming_ring_buffer st = Some rb" "streaming_audio_active st" "chunk = Some d"
    "d \<noteq> []" "mok" by blast
  note rb = audio_ready_ringD[OF r d(1)]
  show ?thesis
  proof (cases "used rb + length d \<le> rb_size rb")
    case True
    from ring_write_ok[OF rb(1) True] obtain rb' where "ring_write rb d = Inr (Done (rb', True))"
      "ring_live rb'" "rb_size rb' = rb_size rb" by blast
    with d audio_ready_ring[OF r d(1)] show ?thesis
      by (auto simp: play_audio_chunk_def handle_linear16_audio_def write_audio_buffer_def)
  next
    case False
    with d rb show ?thesis
      by (simp add: play_audio_chunk_def handle_linear16_audio_def write_audio_buffer_def ring_write_def)
  qed
qed

lemma playback_callback_ready:
  assumes r: "audio_ready st"
  shows "streaming_playback_callback True n st = Inr Wait \<or>
    (\<exists>st' out. streaming_playback_callback True n st = Inr (Done (st', out)) \<and> audio_ready st' \<and> length out = n)"
proof (cases "streaming_ring_buffer st")
  case None
  with r show ?thesis by (simp add: streaming_playback_callback_def CHANNELS_def)
next
  case (Some rb)
  note rb = audio_ready_ringD[OF r Some]
  show ?thesis
  proof (cases "n \<le> used rb")
    case True
    from ring_read_ok[OF rb(1) True order_refl] obtain rb' where
      "ring_read n rb n = Inr (Done (rb', Some (take n (ring_bytes rb))))" "ring_live rb'" "rb_size rb' = rb_size rb"
      by blast
    with True Some rb(3) audio_ready_ring[OF r Some] show ?thesis
      by (simp add: streaming_playback_callback_def read_audio_buffer_def CHANNELS_def Let_def)
  next
    case False
    with Some rb(3) show ?thesis
      by (simp add: streaming_playback_callback_def read_audio_buffer_def CHANNELS_def Let_def ring_read_def)
  qed
qed

section \<open>Runs between initialisation and cleanup\<close>

text \<open>
  The main thread, the WebSocket callback and the two PortAudio callbacks in any order.  An
  attempt that waits changes nothing.
\<close>

datatype audio_op = StartRecording bool | StopRecording | CaptureChunk "byte list option"
  | StartPlayback bool "byte list option" | StopPlayback | PlayChunk bool "byte list option" | PlayFrames nat

definition after_attempt :: "'s \<Rightarrow> ('s \<times> 'a) attempt res \<Rightarrow> 's res" where
  "after_attempt st r = bind_res r (\<lambda>a. case a of Wait \<Rightarrow> Inr st | Done (st', x) \<Rightarrow> Inr st')"

fun audio_step :: "pa_env \<Rightarrow> audio_op \<Rightarrow> audio \<Rightarrow> audio res" where
  "audio_step pa (StartRecording cb) st = Inr (fst (start_recording_with_streaming pa cb st))"
| "audio_step pa StopRecording st = Inr (fst (stop_recording pa st))"
| "audio_step pa (CaptureChunk inp) st = bind_res (recording_callback inp st) (\<lambda>(st', fwd). Inr st')"
| "audio_step pa (StartPlayback ms raw) st =
     bind_res (start_streaming_audio_playback pa True ms raw st) (\<lambda>(st', ok). Inr st')"
| "audio_step pa StopPlayback st = Inr (fst (stop_streaming_audio_playback pa st))"
| "audio_step pa (PlayChunk mok chunk) st = after_attempt st (play_audio_chunk mok chunk st)"
| "audio_step pa (PlayFrames n) st = after_attempt st (streaming_playback_callback True n st)"

fun run_audio :: "pa_env \<Rightarrow> audio_op list \<Rightarrow> audio \<Rightarrow> audio res" where
  "run_audio pa [] st = Inr st"
| "run_audio pa (c # cs) st = bind_res (audio_step pa c st) (run_audio pa cs)"

fun audio_op_ok :: "audio_op \<Rightarrow> bool" where
  "audio_op_ok (StartPlayback ms raw) \<longleftrightarrow> ring_block_ok raw"
| "audio_op_ok _ \<longleftrightarrow> True"

lemma audio_step_ready:
  assumes r: "audio_ready st" and c: "audio_op_ok c"
  shows "\<exists>st'. audio_step pa c st = Inr st' \<and> audio_ready st'"
proof (cases c)
  case (CaptureChunk inp)
  from recording_callback_ready[OF r, of inp] CaptureChunk show ?thesis by auto
next
  case (StartPlayback ms raw)
  then have "ring_block_ok raw" using c by simp
  from start_streaming_ready[OF r this, of pa ms] StartPlayback
  show ?thesis by auto
next
  case (PlayChunk mok chunk)
  with play_audio_chunk_ready[OF r, of mok chunk] r show ?thesis by (auto simp: after_attempt_def)
next
  case (PlayFrames n)
  with playback_callback_ready[OF r, of n] r show ?thesis by (auto simp: after_attempt_def)
qed (use r in \<open>simp_all add: start_recording_ready stop_recording_ready stop_streaming_ready\<close>)

lemma run_audio_ready:
  "audio_ready st \<Longrightarrow> \<forall>c \<in> set cs. audio_op_ok c \<Longrightarrow> \<exists>st'. run_audio pa cs st = Inr st' \<and> audio_ready st'"
proof (induction cs arbitrary: st)
  case Nil
  then show ?case by simp
next
  case (Cons c cs)
  from audio_step_ready[OF Cons.prems(1), of c] Cons.prems(2)
  obtain st1 where "audio_step pa c st = Inr st1" "audio_ready st1" by auto
  with Cons show ?case by simp
qed

section \<open>Cleanup releases everything\<close>

definition audio_released :: "audio \<Rightarrow> bool" where
  "audio_released st \<longleftrightarrow>
     audio_stream st = None \<and> recording_stream st = None \<and> streaming_stream st = None \<and>
     recording_buffer st = None \<and> streaming_ring_buffer st = None \<and>
     \<not> audio_initialized st \<and> \<not> streaming_audio_active st \<and>
     pa_log_legal (pa_log st) \<and> opened_streams (pa_log st) \<subseteq> closed_calls (pa_log st)"

lemma close_recording_inv:
  assumes "handle_inv (held a (recording_stream st) s) (pa_log st)"
    and "set_option a \<inter> set_option (recording_stream st) = {}"
    and "set_option s \<inter> set_option (recording_stream st) = {}"
  shows "handle_inv (held a None s) (pa_log (close_recording pa st))"
proof (cases "recording_stream st")
  case None
  with assms show ?thesis by (simp add: close_recording_def)
next
  case (Some h)
  have "held a (Some h) s - {h} = held a None s" using assms Some by (auto simp: held_def)
  with handle_inv_close[of "held a (Some h) s" "pa_log st" h] assms(1) Some show ?thesis
    by (simp add: close_recording_def pa_simps held_simps)
qed

lemma close_output_inv:
  assumes "handle_inv (held (audio_stream st) r s) (pa_log st)"
    and "set_option (audio_stream st) \<inter> set_option r = {}"
    and "set_option (audio_stream st) \<inter> set_option s = {}"
  shows "handle_inv (held None r s) (pa_log (close_output pa st))"
proof (cases "audio_stream st")
  case None
  with assms show ?thesis by (simp add: close_output_def)
next
  case (Some h)
  have h: "h \<in> held (Some h) r s" by (rule held_simps)
  have "held (Some h) r s - {h} = held None r s" using assms Some by (auto simp: held_def)
  with handle_inv_close[OF handle_inv_stop[of _ "pa_log st", OF _ h] h] assms(1) Some show ?thesis
    by (simp add: close_output_def pa_simps)
qed

lemma close_fields [simp]:
  "streaming_stream (close_recording pa st) = streaming_stream st"
  "streaming_stream (close_output pa st) = streaming_stream st"
  "streaming_ring_buffer (close_recording pa st) = streaming_ring_buffer st"
  "streaming_ring_buffer (close_output pa st) = streaming_ring_buffer st"
  "streaming_audio_active (close_recording pa st) = streaming_audio_active st"
  "streaming_audio_active (close_output pa st) = streaming_audio_active st"
  "audio_initialized (close_recording pa st) = audio_initialized st"
  "audio_initialized (close_output pa st) = audio_initialized st"
  "recording_buffer (close_recording pa st) = recording_buffer st"
  "recording_buffer (close_output pa st) = recording_buffer st"
  "audio_stream (close_recording pa st) = audio_stream st"
  "recording_stream (close_recording pa st) = None"
  "recording_stream (close_output pa st) = recording_stream st"
  "audio_stream (close_output pa st) = None"
  by (simp_all add: close_recording_def close_output_def pa_simps split: option.splits)

lemma stop_streaming_released:
  assumes inv: "handle_inv (held None None (streaming_stream st)) (pa_log st)"
    and flags: "streaming_audio_active st \<longleftrightarrow> streaming_stream st \<noteq> None"
      "streaming_ring_buffer st \<noteq> None \<longleftrightarrow> streaming_stream st \<noteq> None"
    and st': "st' = (if streaming_audio_active st then fst (stop_streaming_audio_playback pa st) else st)"
  shows "handle_inv {} (pa_log st')" and "streaming_stream st' = None" and "streaming_ring_buffer st' = None"
    and "\<not> streaming_audio_active st'" and "audio_stream st' = audio_stream st"
    and "recording_stream st' = recording_stream st" and "recording_buffer st' = recording_buffer st"
    and "audio_initialized st' = audio_initialized st"
proof -
  have "handle_inv {} (pa_log st') \<and> streaming_stream st' = None \<and> streaming_ring_buffer st' = None \<and>
    \<not> streaming_audio_active st' \<and> audio_stream st' = audio_stream st \<and>
    recording_stream st' = recording_stream st \<and> recording_buffer st' = recording_buffer st \<and>
    audio_initialized st' = audio_initialized st"
  proof (cases "streaming_stream st")
    case None
    with inv flags st' show ?thesis by (simp add: held_simps)
  next
    case (Some h)
    then obtain rb where rb: "streaming_ring_buffer st = Some rb" and act: "streaming_audio_active st"
      using flags by auto
    from stop_streaming_eq[OF act Some rb, of pa] obtain a b where
      "st' = st\<lparr>streaming_audio_active := False, pa_log := (pa_log st @ [(PaStop h, a)]) @ [(PaClose h, b)],
        streaming_stream := None, streaming_ring_buffer := None\<rparr>"
      using st' act by auto
    moreover have "handle_inv {} ((pa_log st @ [(PaStop h, a)]) @ [(PaClose h, b)])"
      using handle_inv_close[OF handle_inv_stop[of "{h}"], of "pa_log st" h] inv Some by (simp add: held_simps)
    ultimately show ?thesis by simp
  qed
  then show "handle_inv {} (pa_log st')" "streaming_stream st' = None" "streaming_ring_buffer st' = None"
    "\<not> streaming_audio_active st'" "audio_stream st' = audio_stream st"
    "recording_stream st' = recording_stream st" "recording_buffer st' = recording_buffer st"
    "audio_initialized st' = audio_initialized st" by simp_all
qed

lemma cleanup_audio_ok:
  assumes r: "audio_ready st"
  shows "audio_released (cleanup_audio pa st)"
proof -
  define st1 where "st1 = (if recording_active st then fst (stop_recording pa st) else st)"
  define st4 where "st4 = close_output pa (close_recording pa (st1\<lparr>recording_buffer := None\<rparr>))"
  define st5 where "st5 = (if streaming_audio_active st4 then fst (stop_streaming_audio_playback pa st4) else st4)"
  have r1: "audio_ready st1" using r stop_recording_ready by (simp add: st1_def)
  then have inv1: "handle_inv (held (audio_stream st1) (recording_stream st1) (streaming_stream st1)) (pa_log st1)"
    and dis: "set_option (audio_stream st1) \<inter> set_option (recording_stream st1) = {}"
      "set_option (audio_stream st1) \<inter> set_option (streaming_stream st1) = {}"
      "set_option (streaming_stream st1) \<inter> set_option (recording_stream st1) = {}"
    by (auto simp: audio_inv_defs handles_def)
  have inv3: "handle_inv (held (audio_stream st1) None (streaming_stream st1))
      (pa_log (close_recording pa (st1\<lparr>recording_buffer := None\<rparr>)))"
    by (rule close_recording_inv) (use inv1 dis in simp_all)
  have inv4: "handle_inv (held None None (streaming_stream st4)) (pa_log st4)"
    unfolding st4_def using inv3 by (simp add: close_output_inv dis)
  have fl: "streaming_audio_active st4 \<longleftrightarrow> streaming_stream st4 \<noteq> None"
      "streaming_ring_buffer st4 \<noteq> None \<longleftrightarrow> streaming_stream st4 \<noteq> None"
    using r1 by (auto simp: st4_def audio_inv_defs)
  note end5 = stop_streaming_released[OF inv4 fl st5_def]
  have eq: "cleanup_audio pa st = (pa_run pa PaTerminate st5)\<lparr>audio_initialized := False\<rparr>"
  proof -
    have "audio_initialized st5" using r1 end5(8) by (simp add: st4_def audio_inv_defs)
    then show ?thesis by (simp only: cleanup_audio_def Let_def st5_def st4_def st1_def if_True)
  qed
  from handle_inv_terminate[OF end5(1)] end5 show ?thesis
    by (simp add: eq audio_released_def pa_simps handle_inv_def st4_def)
qed

section \<open>What a recording holds\<close>

definition recorded :: "audio \<Rightarrow> byte list" where
  "recorded st = (case recording_buffer st of None \<Rightarrow> [] | Some b \<Rightarrow> take (recording_buffer_used st) b)"

text \<open>A chunk that does not fit is dropped whole.\<close>

definition keep_chunk :: "byte list \<Rightarrow> byte list \<Rightarrow> byte list" where
  "keep_chunk acc d = (if length acc + length d \<le> recording_capacity then acc @ d else acc)"

lemma length_recorded: "audio_ready st \<Longrightarrow> length (recorded st) = recording_buffer_used st"
  by (auto simp: audio_inv_defs recorded_def)

lemma capture_step:
  assumes r: "audio_ready st" and act: "recording_active st"
  shows "\<exists>st' fwd. recording_callback (Some d) st = Inr (st', fwd) \<and> audio_ready st' \<and>
    recorded st' = keep_chunk (recorded st) d \<and> recording_active st' \<and>
    recording_stream st' = recording_stream st"
proof -
  from r obtain b where b: "recording_buffer st = Some b" "length b = recording_capacity"
    "max_recording_size st = recording_capacity" "recording_buffer_used st \<le> recording_capacity"
    by (rule audio_readyD)
  have l: "length (recorded st) = recording_buffer_used st" using r by (rule length_recorded)
  from recording_callback_ready[OF r, of "Some d"] obtain st' fwd where
    st': "recording_callback (Some d) st = Inr (st', fwd)" and r': "audio_ready st'" by blast
  have "recorded st' = keep_chunk (recorded st) d \<and> recording_active st' \<and> recording_stream st' = recording_stream st"
  proof (cases "recording_buffer_used st + length d \<le> recording_capacity")
    case True
    then have "st' = st\<lparr>recording_buffer := Some (take (recording_buffer_used st) b @ d
        @ drop (recording_buffer_used st + length d) b), recording_buffer_used := recording_buffer_used st + length d\<rparr>"
      using st' act b by (simp add: recording_callback_def memcpy_at_ok)
    with True act b l show ?thesis by (simp add: keep_chunk_def recorded_def)
  next
    case False
    then have "st' = st" using st' act b by (simp add: recording_callback_def)
    with False act l show ?thesis by (simp add: keep_chunk_def)
  qed
  with st' r' show ?thesis by blast
qed

lemma capture_run:
  "audio_ready st \<Longrightarrow> recording_active st \<Longrightarrow>
   \<exists>st'. run_audio pa (map (\<lambda>d. CaptureChunk (Some d)) ds) st = Inr st' \<and> audio_ready st' \<and>
     recorded st' = foldl keep_chunk (recorded st) ds \<and> recording_active st' \<and>
     recording_stream st' = recording_stream st"
proof (induction ds arbitrary: st)
  case Nil
  then show ?case by simp
next
  case (Cons d ds)
  from capture_step[OF Cons.prems, of d] obtain st1 fwd where
    s1: "recording_callback (Some d) st = Inr (st1, fwd)" "audio_ready st1"
    "recorded st1 = keep_chunk (recorded st) d" "recording_active st1" "recording_stream st1 = recording_stream st"
    by blast
  from Cons.IH[OF s1(2,4)] s1 show ?case by simp
qed

lemma keep_chunks_even:
  assumes "0 < k" and "\<forall>d \<in> set ds. length d = k" and "length acc = j * k" and "j \<le> recording_capacity div k"
  shows "foldl keep_chunk acc ds = acc @ concat (take (recording_capacity div k - j) ds)"
  using assms
proof (induction ds arbitrary: acc j)
  case Nil
  then show ?case by simp
next
  case (Cons d ds)
  have fits: "length acc + length d \<le> recording_capacity \<longleftrightarrow> j < recording_capacity div k"
    using Cons.prems less_eq_div_iff_mult_less_eq[of k "Suc j" recording_capacity]
    by (simp add: Suc_le_eq add.commute)
  show ?case
  proof (cases "j < recording_capacity div k")
    case True
    have "foldl keep_chunk (acc @ d) ds = (acc @ d) @ concat (take (recording_capacity div k - Suc j) ds)"
      by (rule Cons.IH) (use Cons.prems True in auto)
    moreover have "keep_chunk acc d = acc @ d" using True fits by (simp add: keep_chunk_def)
    ultimately show ?thesis using True by (simp add: Suc_diff_Suc[symmetric])
  next
    case False
    then have j: "j = recording_capacity div k" using Cons.prems by simp
    have "foldl keep_chunk acc ds = acc @ concat (take (recording_capacity div k - j) ds)"
      by (rule Cons.IH) (use Cons.prems in auto)
    moreover have "keep_chunk acc d = acc" using False fits by (simp add: keep_chunk_def)
    ultimately show ?thesis using j by simp
  qed
qed

lemma start_recording_records:
  assumes "start_recording_with_streaming pa cb st = (st', True)" and "audio_ready st"
  shows "audio_ready st'" and "recorded st' = []" and "recording_active st'"
proof -
  show "audio_ready st'" using start_recording_ready[OF assms(2), of pa cb] assms(1) by simp
  show "recorded st' = []" "recording_active st'"
    using assms(1) by (auto simp: start_recording_with_streaming_def recorded_def pa_simps
        split: if_splits bool.splits option.splits)
qed

lemma stop_recording_keeps:
  assumes "stop_recording pa st = (st', True)"
  shows "\<not> recording_active st'" and "recording_buffer st' = recording_buffer st"
    and "recording_buffer_used st' = recording_buffer_used st"
  using assms by (auto simp: stop_recording_def pa_simps split: if_splits prod.splits bool.splits option.splits)

lemma get_recorded_ok:
  assumes "audio_ready st" and "\<not> recording_active st"
  shows "get_recorded_audio True st = Inr (if recorded st = [] then None else Some (recorded st))"
proof -
  from assms(1) obtain b where b: "recording_buffer st = Some b" "length b = recording_capacity"
    "recording_buffer_used st \<le> recording_capacity" by (rule audio_readyD)
  then have "recorded st = [] \<longleftrightarrow> recording_buffer_used st = 0"
    using length_recorded[OF assms(1)] by (metis length_0_conv)
  with b assms(2) show ?thesis
    by (auto simp: get_recorded_audio_def read_at_ok recorded_def)
qed

section \<open>Properties\<close>



text \<open>
  C13: what \<open>get_recorded_audio\<close> returns after a recording made of buffers of \<open>k\<close> bytes is
  those buffers joined, up to the last one that fits in the 960000 bytes of the recording
  buffer; later buffers are dropped whole.
\<close>

theorem recording_content:
  assumes "audio_ready st" and "start_recording_with_streaming pa cb st = (st1, True)"
    and "0 < k" and "k \<le> 960000" and "ds \<noteq> []" and "\<forall>d \<in> set ds. length d = k"
  shows "\<exists>st2. run_audio pa (map (\<lambda>d. CaptureChunk (Some d)) ds) st1 = Inr st2 \<and>
    (\<forall>st3. stop_recording pa st2 = (st3, True) \<longrightarrow>
       get_recorded_audio True st3 = Inr (Some (concat (take (960000 div k) ds))))"
proof -
  have cap: "recording_capacity = 960000"
    by (simp add: recording_capacity_def SAMPLE_RATE_def CHANNELS_def MAX_RECORDING_DURATION_def)
  note s1 = start_recording_records[OF assms(2,1)]
  from capture_run[OF s1(1,3), of pa ds] obtain st2 where
    st2: "run_audio pa (map (\<lambda>d. CaptureChunk (Some d)) ds) st1 = Inr st2" "audio_ready st2"
    "recorded st2 = foldl keep_chunk [] ds" unfolding s1(2) by blast
  have content: "recorded st2 = concat (take (960000 div k) ds)"
    using keep_chunks_even[OF assms(3,6), of "[]" 0] st2(3) by (simp add: cap)
  have "0 < 960000 div k" using assms(3,4) by (simp add: div_greater_zero_iff)
  then have ne: "recorded st2 \<noteq> []" using content assms(3,5,6) by (cases ds; cases "960000 div k") auto
  have "get_recorded_audio True st3 = Inr (Some (recorded st2))" if stop: "stop_recording pa st2 = (st3, True)" for st3
  proof -
    have "audio_ready st3" using stop_recording_ready[OF st2(2), of pa] stop by simp
    moreover have "recorded st3 = recorded st2" unfolding recorded_def stop_recording_keeps(2,3)[OF stop] ..
    ultimately show ?thesis using get_recorded_ok stop_recording_keeps(1)[OF stop] ne by simp
  qed
  with st2(1) content show ?thesis by auto
qed

theorem recording_content_witness:
  "\<exists>st st1 st2. init_audio (\<lambda>l c. True) (Some (replicate recording_capacity 0)) static_audio = (st, True) \<and>
    start_recording_with_streaming (\<lambda>l c. True) False st = (st1, True) \<and>
    run_audio (\<lambda>l c. True) (map (\<lambda>d. CaptureChunk (Some d)) [[1, 2], [3, 4]]) st1 = Inr st2 \<and>
    (\<forall>st3. stop_recording (\<lambda>l c. True) st2 = (st3, True) \<longrightarrow>
       get_recorded_audio True st3 = Inr (Some [1, 2, 3, 4]))"
proof -
  obtain st where st: "init_audio (\<lambda>l c. True) (Some (replicate recording_capacity 0)) static_audio = (st, True)"
    by (simp add: init_audio_def pa_simps static_audio_def)
  note r = init_audio_ready[OF st length_replicate]
  obtain st1 where st1: "start_recording_with_streaming (\<lambda>l c. True) False st = (st1, True)"
    using st by (auto simp: start_recording_with_streaming_def init_audio_def pa_simps static_audio_def)
  from recording_content[OF r st1, of 2 "[[1, 2], [3, 4]]"] st st1 show ?thesis by auto
qed

end
