(* ===== verification/Playback_Threads.thy ===== *)
theory Playback_Threads
  imports Audio_Device
begin

text \<open>
  The two threads of streaming playback in audio.c: the PortAudio thread, which runs
  \<open>streaming_playback_callback\<close> and may be waiting inside it on \<open>data_available\<close>, and the main
  thread, which writes chunks from the WebSocket callback and stops the playback.  Of
  PortAudio one documented fact is used: \<open>Pa_StopStream\<close> returns only when no callback of the
  stream is running, and no callback runs after that.
\<close>

section \<open>States and steps\<close>

datatype cb_state = CbIdle | CbWaiting nat
datatype main_state = Serving | InStopStream | PlaybackStopped

record playback =
  aud :: audio
  cb :: cb_state
  phase :: main_state

inductive playback_step :: "pa_env \<Rightarrow> playback \<Rightarrow> playback \<Rightarrow> bool" for pa where
  put_chunk: "phase s = Serving \<Longrightarrow> play_audio_chunk mok chunk (aud s) = Inr (Done (a, ok)) \<Longrightarrow>
    playback_step pa s (s\<lparr>aud := a\<rparr>)"
| call_done: "phase s \<noteq> PlaybackStopped \<Longrightarrow> cb s = CbIdle \<Longrightarrow>
    streaming_playback_callback True n (aud s) = Inr (Done (a, out)) \<Longrightarrow>
    playback_step pa s (s\<lparr>aud := a\<rparr>)"
| call_wait: "phase s \<noteq> PlaybackStopped \<Longrightarrow> cb s = CbIdle \<Longrightarrow>
    streaming_playback_callback True n (aud s) = Inr Wait \<Longrightarrow>
    playback_step pa s (s\<lparr>cb := CbWaiting n\<rparr>)"
| wake_done: "cb s = CbWaiting n \<Longrightarrow>
    streaming_playback_callback True n (aud s) = Inr (Done (a, out)) \<Longrightarrow>
    playback_step pa s (s\<lparr>aud := a, cb := CbIdle\<rparr>)"
| begin_stop: "phase s = Serving \<Longrightarrow> streaming_audio_active (aud s) \<Longrightarrow>
    playback_step pa s (s\<lparr>aud := (aud s)\<lparr>streaming_audio_active := False\<rparr>, phase := InStopStream\<rparr>)"
| end_stop: "phase s = InStopStream \<Longrightarrow> cb s = CbIdle \<Longrightarrow>
    playback_step pa s (s\<lparr>aud := release_playback pa (aud s), phase := PlaybackStopped\<rparr>)"

inductive_cases playback_stepE: "playback_step pa s s'"

inductive playback_reach :: "pa_env \<Rightarrow> playback \<Rightarrow> playback \<Rightarrow> bool" for pa where
  reach_refl: "playback_reach pa s s"
| reach_step: "playback_reach pa s t \<Longrightarrow> playback_step pa t u \<Longrightarrow> playback_reach pa s u"

lemma reach_trans: "playback_reach pa t u \<Longrightarrow> playback_reach pa s t \<Longrightarrow> playback_reach pa s u"
  by (induction rule: playback_reach.induct) (auto intro: reach_step)

section \<open>What the callback waits for\<close>

definition starved :: "playback \<Rightarrow> bool" where
  "starved s \<longleftrightarrow> (\<exists>n rb. cb s = CbWaiting n \<and> streaming_ring_buffer (aud s) = Some rb \<and> active rb \<and> used rb < n)"

lemma callback_wait_iff:
  "streaming_playback_callback True n st = Inr Wait \<longleftrightarrow>
   (\<exists>rb. streaming_ring_buffer st = Some rb \<and> active rb \<and> used rb < n)"
  by (auto simp: streaming_playback_callback_def read_audio_buffer_def ring_read_def bind_res_def
      guard_res_def read_at_def CHANNELS_def Let_def split: option.splits)

lemma starved_waits:
  assumes "starved s" and "cb s = CbWaiting n"
  shows "streaming_playback_callback True n (aud s) = Inr Wait"
  using assms by (auto simp: starved_def callback_wait_iff)

text \<open>Once the main thread is inside \<open>Pa_StopStream\<close> no step is left to a starved callback.\<close>

lemma starved_stop_no_step:
  assumes "starved s" and "phase s = InStopStream"
  shows "\<not> playback_step pa s s'"
proof
  assume "playback_step pa s s'"
  then show False
    using assms starved_waits[OF assms(1)] by (cases rule: playback_stepE) (auto simp: starved_def)
qed

lemma starved_stop_stuck:
  assumes "playback_reach pa s u"
  shows "starved s \<Longrightarrow> phase s = InStopStream \<Longrightarrow> u = s"
  using assms by (induction rule: playback_reach.induct) (auto simp: starved_stop_no_step)

text \<open>With nothing waiting the stop goes through, and an idle callback never blocks it.\<close>

lemma idle_stop_returns:
  assumes "cb s = CbIdle" and "phase s = InStopStream"
  shows "playback_step pa s (s\<lparr>aud := release_playback pa (aud s), phase := PlaybackStopped\<rparr>)"
  using assms by (rule end_stop[rotated])

section \<open>The ring buffer outlives its waiters\<close>

definition playback_inv :: "playback \<Rightarrow> bool" where
  "playback_inv s \<longleftrightarrow>
     (phase s \<noteq> PlaybackStopped \<longrightarrow> (\<exists>rb. streaming_ring_buffer (aud s) = Some rb \<and> ring_live rb)) \<and>
     (phase s = PlaybackStopped \<longrightarrow>
        cb s = CbIdle \<and> streaming_ring_buffer (aud s) = None \<and> streaming_stream (aud s) = None)"

lemma play_audio_chunk_ring:
  assumes "play_audio_chunk mok chunk st = Inr (Done (st', ok))"
    and "streaming_ring_buffer st = Some rb" and "ring_live rb"
  shows "\<exists>rb'. streaming_ring_buffer st' = Some rb' \<and> ring_live rb'"
proof (cases "st' = st")
  case True
  with assms show ?thesis by simp
next
  case False
  with assms obtain d r ok' where d: "write_audio_buffer (Some rb) d = Inr (Done (r, ok'))"
    and st': "st' = st\<lparr>streaming_ring_buffer := r\<rparr>"
    by (auto simp: play_audio_chunk_def res_simps handle_linear16_audio_def
        split: if_splits option.splits attempt.splits prod.splits) (metis attempt.exhaust surj_pair)
  show ?thesis
  proof (cases "used rb + length d \<le> rb_size rb")
    case True
    from ring_write_ok[OF assms(3) True] d st' show ?thesis by (auto simp: write_audio_buffer_def)
  next
    case False
    with assms(3) have "ring_write rb d = Inr Wait" by (simp add: ring_write_def ring_live_def)
    with d show ?thesis by (simp add: write_audio_buffer_def)
  qed
qed

lemma playback_callback_ring:
  assumes "streaming_playback_callback True n st = Inr (Done (st', out))"
    and "streaming_ring_buffer st = Some rb" and "ring_live rb"
  shows "\<exists>rb'. streaming_ring_buffer st' = Some rb' \<and> ring_live rb'"
proof (cases "n \<le> used rb")
  case True
  from ring_read_ok[OF assms(3) True order_refl] assms show ?thesis
    by (auto simp: streaming_playback_callback_def read_audio_buffer_def CHANNELS_def Let_def ring_live_def)
next
  case False
  then have "streaming_playback_callback True n st = Inr Wait"
    using assms(2,3) by (auto simp: callback_wait_iff ring_live_def)
  with assms(1) show ?thesis by simp
qed

lemma release_playback_none:
  "streaming_ring_buffer (release_playback pa st) = None"
  "streaming_stream (release_playback pa st) = None"
  by (simp_all add: release_playback_def pa_simps split: option.splits)

lemma playback_step_inv:
  assumes "playback_step pa s s'" and "playback_inv s"
  shows "playback_inv s'"
  using assms
proof (cases rule: playback_step.cases)
  case (put_chunk mok chunk a ok)
  with assms(2) play_audio_chunk_ring[OF put_chunk(3)] show ?thesis by (auto simp: playback_inv_def)
next
  case (call_done n a out)
  with assms(2) playback_callback_ring[OF call_done(4)] show ?thesis by (auto simp: playback_inv_def)
next
  case (wake_done n a out)
  with assms(2) playback_callback_ring[OF wake_done(3)] show ?thesis by (auto simp: playback_inv_def)
qed (auto simp: playback_inv_def release_playback_none)

lemma playback_reach_inv:
  "playback_reach pa s u \<Longrightarrow> playback_inv s \<Longrightarrow> playback_inv u"
  by (induction rule: playback_reach.induct) (auto intro: playback_step_inv)

section \<open>Properties\<close>





end
