(* ===== verification/Http_Client.thy ===== *)
theory Http_Client
  imports Interfaces Config
begin

text \<open>
  http_client.c: the requests that fetch a token, check the server and upload a recording,
  and the streaming session with its chunked transfer coding.

  The socket interface is a parameter: \<open>net_ret n log call\<close> is what the next \<open>call\<close>
  returns, given all calls so far (\<open>None\<close> for a negative value or NULL), and
  \<open>net_data n log s\<close> is what a \<open>recv\<close> on \<open>s\<close> then gets.  Every call is recorded in
  \<open>net_log\<close> with its result.  A socket is the number of the call that made it.
\<close>

section \<open>Socket calls\<close>

datatype net_call = NetSocket | NetResolve | NetConnect nat | NetSend nat "byte list"
  | NetRecv nat nat | NetClose nat

type_synonym net_log = "(net_call \<times> nat option) list"

record net =
  net_ret :: "net_log \<Rightarrow> net_call \<Rightarrow> nat option"
  net_data :: "net_log \<Rightarrow> nat \<Rightarrow> byte list"

fun sock_effect :: "net_call \<times> nat option \<Rightarrow> (nat set \<times> nat) \<Rightarrow> (nat set \<times> nat)" where
  "sock_effect (NetSocket, Some v) (S, i) = (insert i S, Suc i)"
| "sock_effect (NetClose s, v) (S, i) = (S - {s}, Suc i)"
| "sock_effect _ (S, i) = (S, Suc i)"

definition open_socks :: "net_log \<Rightarrow> nat set" where
  "open_socks l = fst (fold sock_effect l ({}, 0))"

fun sock_legal :: "nat set \<Rightarrow> net_call \<Rightarrow> bool" where
  "sock_legal S (NetConnect s) \<longleftrightarrow> s \<in> S"
| "sock_legal S (NetSend s d) \<longleftrightarrow> s \<in> S"
| "sock_legal S (NetRecv s m) \<longleftrightarrow> s \<in> S"
| "sock_legal S (NetClose s) \<longleftrightarrow> s \<in> S"
| "sock_legal S _ \<longleftrightarrow> True"

definition net_log_legal :: "net_log \<Rightarrow> bool" where
  "net_log_legal l \<longleftrightarrow> (\<forall>i < length l. sock_legal (open_socks (take i l)) (fst (l ! i)))"

text \<open>The bytes the peer of socket \<open>s\<close> has been sent: of each block as many as \<open>send\<close> took.\<close>

fun wire :: "nat \<Rightarrow> net_log \<Rightarrow> byte list" where
  "wire s [] = []"
| "wire s ((NetSend t d, Some k) # l) = (if s = t then take k d else []) @ wire s l"
| "wire s (e # l) = wire s l"

section \<open>State\<close>

text \<open>
  The globals of http_client.c; \<open>streaming_socket\<close> is \<open>None\<close> where the C variable is
  negative.  \<open>streaming_session_id\<close> is never used there and is left out.
\<close>

record http =
  http_initialized :: bool
  current_jwt_token :: string
  streaming_socket :: "nat option"
  streaming_session_active :: bool
  net_log :: net_log

definition static_http :: http where
  "static_http = \<lparr>http_initialized = False, current_jwt_token = replicate MAX_JWT_TOKEN_LENGTH NUL,
     streaming_socket = None, streaming_session_active = False, net_log = []\<rparr>"

definition net_do :: "net \<Rightarrow> net_call \<Rightarrow> http \<Rightarrow> nat option \<times> http" where
  "net_do n c st = (let r = net_ret n (net_log st) c in (r, st\<lparr>net_log := net_log st @ [(c, r)]\<rparr>))"

definition net_close :: "net \<Rightarrow> nat \<Rightarrow> http \<Rightarrow> http" where
  "net_close n s st = snd (net_do n (NetClose s) st)"

text \<open>\<open>if (call < 0) { close(s); return false; }\<close>, else on with the result.\<close>

definition net_try :: "net \<Rightarrow> net_call \<Rightarrow> nat \<Rightarrow> http \<Rightarrow> (http \<Rightarrow> http \<times> 'a option) \<Rightarrow> http \<times> 'a option" where
  "net_try n c s st k =
     (case net_do n c st of (None, st') \<Rightarrow> (net_close n s st', None) | (Some v, st') \<Rightarrow> k st')"

text \<open>What \<open>recv(s, buf, m, 0)\<close> puts in the buffer.\<close>

definition recv_bytes :: "net \<Rightarrow> nat \<Rightarrow> nat \<Rightarrow> http \<Rightarrow> byte list" where
  "recv_bytes n s m st = take m (net_data n (net_log st) s)"

section \<open>Requests\<close>

definition CRLF :: string where
  "CRLF = [CHR 0x0D, CHR 0x0A]"

definition create_http_request :: "bool \<Rightarrow> string \<Rightarrow> string \<Rightarrow> string option \<Rightarrow> nat \<Rightarrow> string option" where
  "create_http_request mok meth path headers body_length =
     (if \<not> mok then None
      else Some (snprintf_str 4096
        (meth @ '' '' @ path @ '' HTTP/1.1'' @ CRLF @
         ''Host: '' @ HTTP_SERVER_ADDRESS @ '':'' @ dec_str HTTP_SERVER_PORT @ CRLF @
         ''Connection: close'' @ CRLF @
         (case headers of None \<Rightarrow> [] | Some h \<Rightarrow> h) @
         ''Content-Length: '' @ dec_str body_length @ CRLF @ CRLF)))"

text \<open>
  The three parts of \<open>send_http_request\<close>: what follows the request line and headers is the body,
  if there is one, then one \<open>recv\<close>.  The response is the C string in the buffer: up to the
  first zero byte that arrived.
\<close>

definition receive_response :: "net \<Rightarrow> nat \<Rightarrow> nat \<Rightarrow> http \<Rightarrow> http \<times> string option" where
  "receive_response n s max_response st =
     net_try n (NetRecv s (max_response - 1)) s st (\<lambda>st1.
       (net_close n s st1, Some (cstr (chars_of (recv_bytes n s (max_response - 1) st)))))"

definition send_body :: "net \<Rightarrow> nat \<Rightarrow> byte list option \<Rightarrow> nat \<Rightarrow> http \<Rightarrow> http \<times> string option" where
  "send_body n s body max_response st =
     (case body of
        None \<Rightarrow> receive_response n s max_response st
      | Some b \<Rightarrow>
          if b = [] then receive_response n s max_response st
          else net_try n (NetSend s b) s st (receive_response n s max_response))"

definition send_http_request ::
    "net \<Rightarrow> string \<Rightarrow> byte list option \<Rightarrow> nat \<Rightarrow> http \<Rightarrow> http \<times> string option" where
  "send_http_request n request body max_response st =
     (let s = length (net_log st) in
      case net_do n NetSocket st of
        (None, st1) \<Rightarrow> (st1, None)
      | (Some _, st1) \<Rightarrow>
          net_try n NetResolve s st1 (\<lambda>st2.
          net_try n (NetConnect s) s st2 (\<lambda>st3.
          net_try n (NetSend s (bytes_of (cstr request))) s st3
            (send_body n s body max_response))))"

section \<open>Fields of a JSON response\<close>

text \<open>
  \<open>find_field resp key off\<close>: the place after the key (the code adds the constant \<open>off\<close> to
  what \<open>strstr\<close> finds) and the length up to the next quote.
\<close>

definition find_field :: "string \<Rightarrow> string \<Rightarrow> nat \<Rightarrow> (string \<times> nat) option" where
  "find_field resp key off =
     (case strstr resp key of
        None \<Rightarrow> None
      | Some r \<Rightarrow>
          (let start = drop off r in
           case strchr start (CHR 0x22) of
             None \<Rightarrow> None
           | Some e \<Rightarrow> Some (start, length start - length e)))"

text \<open>\<open>strncpy(dst, start, len); dst[len] = 0\<close>.\<close>

definition copy_field :: "string \<Rightarrow> string \<Rightarrow> nat \<Rightarrow> string res" where
  "copy_field dst start len = bind_res (strncpy_at dst 0 start len) (\<lambda>d. store_at d len NUL)"

definition TOKEN_KEY :: string where "TOKEN_KEY = ''\"token\":\"''"
definition SUCCESS_KEY :: string where "SUCCESS_KEY = ''\"success\":''"
definition MESSAGE_KEY :: string where "MESSAGE_KEY = ''\"message\":\"''"
definition SESSION_KEY :: string where "SESSION_KEY = ''\"session_id\":\"''"
definition TEXT_KEY :: string where "TEXT_KEY = ''\"text\":\"''"

record http_audio_response_t =
  success :: bool
  message :: string
  session_id :: string
  resp_text :: string

definition zero_response :: http_audio_response_t where
  "zero_response = \<lparr>success = False, message = replicate 256 NUL, session_id = replicate 64 NUL,
     resp_text = replicate 1024 NUL\<rparr>"

text \<open>One field of the struct: left alone when the key is missing or the value does not fit.\<close>

definition parse_field :: "string \<Rightarrow> string \<Rightarrow> nat \<Rightarrow> string \<Rightarrow> string res" where
  "parse_field resp key off dst =
     (case find_field resp key off of
        None \<Rightarrow> Inr dst
      | Some (start, len) \<Rightarrow> if len < length dst then copy_field dst start len else Inr dst)"

text \<open>\<open>old\<close> is what the struct held before the call.\<close>

definition http_parse_audio_response ::
    "string option \<Rightarrow> http_audio_response_t \<Rightarrow> (bool \<times> http_audio_response_t) res" where
  "http_parse_audio_response response old =
     (case response of
        None \<Rightarrow> Inr (False, old)
      | Some resp \<Rightarrow>
          (let ok = (case strstr resp SUCCESS_KEY of
                 None \<Rightarrow> False | Some r \<Rightarrow> take 4 (drop 10 r) = ''true'') in
           bind_res (parse_field resp MESSAGE_KEY 11 (message zero_response)) (\<lambda>m.
           bind_res (parse_field resp SESSION_KEY 14 (session_id zero_response)) (\<lambda>i.
           bind_res (parse_field resp TEXT_KEY 8 (resp_text zero_response)) (\<lambda>t.
           Inr (True, \<lparr>success = ok, message = m, session_id = i, resp_text = t\<rparr>))))))"

section \<open>Operations\<close>

definition http_init :: "http \<Rightarrow> http \<times> bool" where
  "http_init st = (if http_initialized st then (st, True) else (st\<lparr>http_initialized := True\<rparr>, True))"

definition http_health_check :: "net \<Rightarrow> bool \<Rightarrow> http \<Rightarrow> http \<times> bool" where
  "http_health_check n mok st =
     (if \<not> http_initialized st then (st, False)
      else
        (case create_http_request mok ''GET'' ''/api/v1/health'' None 0 of
           None \<Rightarrow> (st, False)
         | Some request \<Rightarrow>
             (case send_http_request n request None MAX_HTTP_RESPONSE_LENGTH st of
                (st', None) \<Rightarrow> (st', False)
              | (st', Some response) \<Rightarrow> (st', strstr response ''healthy'' \<noteq> None))))"

definition token_headers :: string where
  "token_headers = snprintf_str 512
     (''X-API-Key: '' @ HTTP_API_KEY @ CRLF @ ''X-API-Secret: '' @ HTTP_API_SECRET @ CRLF @
      ''Content-Type: application/json'' @ CRLF)"

text \<open>\<open>jwt_token\<close> is the caller's array; \<open>max_length\<close> is the size it gives for it.\<close>

definition http_get_jwt_token :: "net \<Rightarrow> bool \<Rightarrow> string \<Rightarrow> nat \<Rightarrow> http \<Rightarrow> (http \<times> string \<times> bool) res" where
  "http_get_jwt_token n mok jwt_token max_length st =
     (if \<not> http_initialized st then Inr (st, jwt_token, False)
      else
        (case create_http_request mok ''POST'' ''/api/v1/auth/token'' (Some token_headers) 0 of
           None \<Rightarrow> Inr (st, jwt_token, False)
         | Some request \<Rightarrow>
             (case send_http_request n request None MAX_HTTP_RESPONSE_LENGTH st of
                (st', None) \<Rightarrow> Inr (st', jwt_token, False)
              | (st', Some response) \<Rightarrow>
                  (case find_field response TOKEN_KEY 9 of
                     None \<Rightarrow> Inr (st', jwt_token, False)
                   | Some (token_start, token_len) \<Rightarrow>
                       if token_len < max_length
                       then bind_res (copy_field jwt_token token_start token_len) (\<lambda>t. Inr (st', t, True))
                       else Inr (st', jwt_token, False)))))"

definition auth_header :: "string \<Rightarrow> string" where
  "auth_header jwt_token = ''Authorization: Bearer '' @ jwt_token @ CRLF @ ''Content-Type: audio/wav'' @ CRLF"

definition session_request :: "string \<Rightarrow> string" where
  "session_request jwt_token = snprintf_str 1024
     (''POST /api/v1/audio/stream HTTP/1.1'' @ CRLF @
      ''Host: '' @ HTTP_SERVER_ADDRESS @ '':'' @ dec_str HTTP_SERVER_PORT @ CRLF @
      snprintf_str 512 (auth_header jwt_token @ ''Transfer-Encoding: chunked'' @ CRLF) @ CRLF)"

text \<open>A step of the session set-up: on failure the socket is closed and forgotten.\<close>

definition session_try :: "net \<Rightarrow> net_call \<Rightarrow> nat \<Rightarrow> http \<Rightarrow> (http \<Rightarrow> http \<times> bool) \<Rightarrow> http \<times> bool" where
  "session_try n c s st k =
     (case net_do n c st of
        (None, st') \<Rightarrow> ((net_close n s st')\<lparr>streaming_socket := None\<rparr>, False)
      | (Some v, st') \<Rightarrow> k st')"

definition http_init_streaming_session :: "net \<Rightarrow> string option \<Rightarrow> http \<Rightarrow> http \<times> bool" where
  "http_init_streaming_session n jwt_token st =
     (case jwt_token of
        None \<Rightarrow> (st, False)
      | Some token \<Rightarrow>
          if \<not> http_initialized st then (st, False)
          else
            (let s = length (net_log st) in
             case net_do n NetSocket st of
               (None, st1) \<Rightarrow> (st1\<lparr>streaming_socket := None\<rparr>, False)
             | (Some _, st1) \<Rightarrow>
                 session_try n NetResolve s (st1\<lparr>streaming_socket := Some s\<rparr>) (\<lambda>st2.
                 session_try n (NetConnect s) s st2 (\<lambda>st3.
                 session_try n (NetSend s (bytes_of (session_request token))) s st3 (\<lambda>st4.
                 (st4\<lparr>streaming_session_active := True\<rparr>, True))))))"

text \<open>Three sends; the first that fails ends the call, and the session goes on as it is.\<close>

definition send_or :: "net \<Rightarrow> nat \<Rightarrow> byte list \<Rightarrow> http \<Rightarrow> (http \<Rightarrow> http \<times> bool) \<Rightarrow> http \<times> bool" where
  "send_or n s d st k =
     (case net_do n (NetSend s d) st of (None, st') \<Rightarrow> (st', False) | (Some v, st') \<Rightarrow> k st')"

definition http_stream_audio_chunk :: "net \<Rightarrow> byte list option \<Rightarrow> http \<Rightarrow> http \<times> bool" where
  "http_stream_audio_chunk n chunk st =
     (case (streaming_socket st, chunk) of
        (Some s, Some d) \<Rightarrow>
          if \<not> streaming_session_active st \<or> d = [] then (st, False)
          else
            send_or n s (bytes_of (snprintf_str 32 (hex_str (length d) @ CRLF))) st (\<lambda>st1.
            send_or n s d st1 (\<lambda>st2.
            send_or n s (bytes_of CRLF) st2 (\<lambda>st3. (st3, True))))
      | _ \<Rightarrow> (st, False))"

definition http_finish_streaming_session :: "net \<Rightarrow> http \<Rightarrow> http \<times> bool" where
  "http_finish_streaming_session n st =
     (case streaming_socket st of
        None \<Rightarrow> (st, False)
      | Some s \<Rightarrow>
          if \<not> streaming_session_active st then (st, False)
          else
            (let st1 = snd (net_do n (NetSend s (bytes_of (''0'' @ CRLF @ CRLF))) st);
                 st2 = snd (net_do n (NetRecv s (MAX_HTTP_RESPONSE_LENGTH - 1)) st1)
             in ((net_close n s st2)\<lparr>streaming_socket := None, streaming_session_active := False\<rparr>, True)))"

definition http_cleanup :: "net \<Rightarrow> http \<Rightarrow> http" where
  "http_cleanup n st =
     (if \<not> http_initialized st then st
      else
        (let st1 = st\<lparr>http_initialized := False, current_jwt_token := replicate MAX_JWT_TOKEN_LENGTH NUL\<rparr>
         in if streaming_session_active st1 then fst (http_finish_streaming_session n st1) else st1))"

text \<open>\<open>old\<close> is the uninitialised \<open>parsed_response\<close> of the C function.\<close>

definition http_stream_audio_realtime ::
    "net \<Rightarrow> bool \<Rightarrow> http_audio_response_t \<Rightarrow> string option \<Rightarrow> byte list option \<Rightarrow> http \<Rightarrow> (http \<times> bool) res" where
  "http_stream_audio_realtime n mok old jwt_token audio_data st =
     (case (jwt_token, audio_data) of
        (Some token, Some d) \<Rightarrow>
          if \<not> http_initialized st \<or> d = [] then Inr (st, False)
          else
            (case create_http_request mok ''POST'' ''/api/v1/audio/stream''
                    (Some (snprintf_str 512 (auth_header token))) (length d) of
               None \<Rightarrow> Inr (st, False)
             | Some request \<Rightarrow>
                 (case send_http_request n request (Some d) MAX_HTTP_RESPONSE_LENGTH st of
                    (st', None) \<Rightarrow> Inr (st', False)
                  | (st', Some response) \<Rightarrow>
                      bind_res (http_parse_audio_response (Some response) old) (\<lambda>(ok, parsed). Inr (st', ok))))
      | _ \<Rightarrow> Inr (st, False))"

section \<open>Sockets are closed exactly once\<close>

lemma sock_effect_count: "snd (fold sock_effect l (S, i)) = i + length l"
proof (induction l arbitrary: S i)
  case (Cons e l)
  obtain S' where "sock_effect e (S, i) = (S', Suc i)"
    by (cases "(e, (S, i))" rule: sock_effect.cases) auto
  with Cons show ?case by simp
qed simp

lemma open_socks_Nil [simp]: "open_socks [] = {}"
  by (simp add: open_socks_def)

lemma open_socks_snoc: "open_socks (l @ [e]) = fst (sock_effect e (open_socks l, length l))"
  using sock_effect_count[of l "{}" 0] by (simp add: open_socks_def prod_eq_iff)
    (metis prod.collapse)

lemma open_socks_simps [simp]:
  "open_socks (l @ [(NetSocket, Some v)]) = insert (length l) (open_socks l)"
  "open_socks (l @ [(NetSocket, None)]) = open_socks l"
  "open_socks (l @ [(NetResolve, r)]) = open_socks l"
  "open_socks (l @ [(NetConnect s, r)]) = open_socks l"
  "open_socks (l @ [(NetSend s d, r)]) = open_socks l"
  "open_socks (l @ [(NetRecv s m, r)]) = open_socks l"
  "open_socks (l @ [(NetClose s, r)]) = open_socks l - {s}"
  by (simp_all add: open_socks_snoc)

lemma net_log_legal_simps [simp]:
  "net_log_legal []"
  "net_log_legal (l @ [e]) \<longleftrightarrow> net_log_legal l \<and> sock_legal (open_socks l) (fst e)"
  by (auto simp: net_log_legal_def nth_append less_Suc_eq)

text \<open>\<open>socks_inv S st\<close>: the calls so far were legal, and the sockets that are open are \<open>S\<close>.\<close>

definition socks_inv :: "nat set \<Rightarrow> http \<Rightarrow> bool" where
  "socks_inv S st \<longleftrightarrow> net_log_legal (net_log st) \<and> open_socks (net_log st) = S \<and> (\<forall>s \<in> S. s < length (net_log st))"

definition neutral :: "net_call \<Rightarrow> bool" where
  "neutral c \<longleftrightarrow> (case c of NetSocket \<Rightarrow> False | NetClose s \<Rightarrow> False | _ \<Rightarrow> True)"

lemma net_do_log [simp]:
  "net_log (snd (net_do n c st)) = net_log st @ [(c, net_ret n (net_log st) c)]"
  "fst (net_do n c st) = net_ret n (net_log st) c"
  by (simp_all add: net_do_def Let_def)

lemma socks_inv_do:
  assumes "socks_inv S st" and "neutral c" and "sock_legal S c"
  shows "socks_inv S (snd (net_do n c st))"
  using assms by (cases c) (auto simp: socks_inv_def neutral_def less_SucI)

lemma socks_inv_close: "socks_inv S st \<Longrightarrow> s \<in> S \<Longrightarrow> socks_inv (S - {s}) (net_close n s st)"
  by (auto simp: socks_inv_def net_close_def less_SucI)

lemma socks_inv_socket:
  "socks_inv S st \<Longrightarrow> net_do n NetSocket st = (Some v, st1) \<Longrightarrow> socks_inv (insert (length (net_log st)) S) st1"
  by (auto simp: socks_inv_def net_do_def Let_def less_SucI)

lemma socks_inv_no_socket: "socks_inv S st \<Longrightarrow> net_do n NetSocket st = (None, st1) \<Longrightarrow> socks_inv S st1"
  by (auto simp: socks_inv_def net_do_def Let_def less_SucI)

lemma socks_inv_fresh: "socks_inv S st \<Longrightarrow> length (net_log st) \<notin> S"
  by (auto simp: socks_inv_def)

text \<open>Every step of a request either goes on or closes the socket and ends.\<close>

lemma net_try_inv:
  assumes "socks_inv (insert s S) st" and "s \<notin> S" and "neutral c" and "sock_legal (insert s S) c"
    and "\<And>st'. socks_inv (insert s S) st' \<Longrightarrow> socks_inv S (fst (k st'))"
  shows "socks_inv S (fst (net_try n c s st k))"
proof -
  obtain r st' where d: "net_do n c st = (r, st')" by (cases "net_do n c st")
  have inv: "socks_inv (insert s S) st'" using socks_inv_do[OF assms(1,3,4), of n] d by simp
  show ?thesis
  proof (cases r)
    case None
    with socks_inv_close[OF inv, of s n] assms(2) d show ?thesis by (simp add: net_try_def)
  next
    case (Some v)
    with assms(5)[OF inv] d show ?thesis by (simp add: net_try_def)
  qed
qed

lemma receive_response_inv:
  assumes "socks_inv (insert s S) st" and "s \<notin> S"
  shows "socks_inv S (fst (receive_response n s m st))"
  unfolding receive_response_def
proof (rule net_try_inv[OF assms])
  fix st' assume "socks_inv (insert s S) st'"
  from socks_inv_close[OF this, of s n] assms(2)
  show "socks_inv S (fst (net_close n s st', Some (cstr (chars_of (recv_bytes n s (m - 1) st)))))" by simp
qed (simp_all add: neutral_def)

lemma send_body_inv:
  assumes "socks_inv (insert s S) st" and "s \<notin> S"
  shows "socks_inv S (fst (send_body n s body m st))"
proof -
  have "socks_inv S (fst (net_try n (NetSend s b) s st (receive_response n s m)))" for b
    by (rule net_try_inv[OF assms]) (simp_all add: neutral_def receive_response_inv assms(2))
  with receive_response_inv[OF assms] show ?thesis by (simp add: send_body_def split: option.split)
qed

lemma send_http_request_inv:
  assumes "socks_inv S st"
  shows "socks_inv S (fst (send_http_request n request body m st))"
proof (cases "net_do n NetSocket st")
  case (Pair r st1)
  let ?s = "length (net_log st)"
  have fresh: "?s \<notin> S" using assms by (rule socks_inv_fresh)
  show ?thesis
  proof (cases r)
    case None
    with Pair socks_inv_no_socket[OF assms] show ?thesis by (simp add: send_http_request_def)
  next
    case (Some v)
    have st1: "socks_inv (insert ?s S) st1" using Pair Some socks_inv_socket[OF assms] by simp
    have "socks_inv S (fst (net_try n NetResolve ?s st1 (\<lambda>st2. net_try n (NetConnect ?s) ?s st2
        (\<lambda>st3. net_try n (NetSend ?s (bytes_of (cstr request))) ?s st3 (send_body n ?s body m)))))"
      by (intro net_try_inv[OF _ fresh] st1 send_body_inv fresh) (simp_all add: neutral_def)
    with Some Pair show ?thesis by (simp add: send_http_request_def Let_def)
  qed
qed

text \<open>A request changes nothing but the log of calls.\<close>

definition only_log :: "http \<Rightarrow> http \<Rightarrow> bool" where
  "only_log st st' \<longleftrightarrow> (\<exists>l. st' = st\<lparr>net_log := l\<rparr>)"

lemma only_log_refl [simp]: "only_log st st"
  unfolding only_log_def by (rule exI[of _ "net_log st"]) simp

lemma only_log_trans: "only_log a b \<Longrightarrow> only_log b c \<Longrightarrow> only_log a c"
  by (auto simp: only_log_def)

lemma only_log_do: "net_do n c st = (r, st') \<Longrightarrow> only_log st st'"
  by (auto simp: only_log_def net_do_def Let_def)

lemma only_log_close [simp]: "only_log st (net_close n s st)"
  by (auto simp: only_log_def net_do_def net_close_def Let_def)

lemma only_log_try:
  assumes "\<And>st'. only_log st' (fst (k st'))"
  shows "only_log st (fst (net_try n c s st k))"
  using assms only_log_do[of n c st] only_log_trans only_log_close
  by (auto simp: net_try_def split: prod.splits option.splits)

lemma only_log_send: "only_log st (fst (send_http_request n request body m st))"
proof -
  have r: "only_log st (fst (receive_response n s m st))" for s st
    unfolding receive_response_def by (rule only_log_try) simp
  then have "only_log st (fst (net_try n (NetSend s b) s st (receive_response n s m)))" for s b st
    by (intro only_log_try) simp
  with r have b: "only_log st (fst (send_body n s body m st))" for s st
    by (simp add: send_body_def split: option.split)
  have "only_log st' (fst (net_try n NetResolve s st' (\<lambda>st2. net_try n (NetConnect s) s st2
        (\<lambda>st3. net_try n (NetSend s (bytes_of (cstr request))) s st3 (send_body n s body m)))))" for s st'
    by (intro only_log_try) (rule b)
  with only_log_do[of n NetSocket st] only_log_trans show ?thesis
    by (auto simp: send_http_request_def Let_def split: prod.splits option.splits)
qed

section \<open>The invariant of the client\<close>

text \<open>
  The one socket that stays open between calls is that of the streaming session.
\<close>

definition session_inv :: "http \<Rightarrow> bool" where
  "session_inv st \<longleftrightarrow>
     socks_inv (set_option (streaming_socket st)) st \<and>
     (streaming_session_active st \<longleftrightarrow> streaming_socket st \<noteq> None)"

definition http_inv :: "http \<Rightarrow> bool" where
  "http_inv st \<longleftrightarrow> session_inv st \<and> (streaming_session_active st \<longrightarrow> http_initialized st)"

lemmas http_inv_defs = http_inv_def session_inv_def

lemma http_inv_static: "http_inv static_http"
  by (simp add: http_inv_defs static_http_def socks_inv_def)

lemma http_inv_log:
  assumes "http_inv st" and "only_log st st'" and "socks_inv (set_option (streaming_socket st)) st'"
  shows "http_inv st'"
  using assms by (auto simp: http_inv_defs only_log_def)

lemma http_inv_send:
  assumes "http_inv st"
  shows "http_inv (fst (send_http_request n request body m st))"
  by (rule http_inv_log[OF assms only_log_send send_http_request_inv]) (use assms in \<open>simp add: http_inv_defs\<close>)

lemma http_inv_sendD:
  "http_inv st \<Longrightarrow> send_http_request n request body m st = (st', r) \<Longrightarrow> http_inv st'"
  using http_inv_send by (metis fst_conv)

lemma http_init_inv: "http_inv st \<Longrightarrow> http_inv (fst (http_init st))"
  by (auto simp: http_init_def http_inv_defs socks_inv_def)

lemma http_health_check_inv: "http_inv st \<Longrightarrow> http_inv (fst (http_health_check n mok st))"
  by (auto simp: http_health_check_def dest: http_inv_sendD split: option.splits prod.splits)

section \<open>Copying fields\<close>

lemma find_fieldE:
  assumes "find_field resp key off = Some (start, len)"
  obtains r p t where "strstr resp key = Some r" "start = drop off r" "start = p @ CHR 0x22 # t"
    "len = length p" "CHR 0x22 \<notin> set p"
proof -
  from assms obtain r e where r: "strstr resp key = Some r" "start = drop off r"
    "strchr start (CHR 0x22) = Some e" "len = length start - length e"
    by (auto simp: find_field_def Let_def split: option.splits)
  from r(3) obtain p t where p: "start = p @ CHR 0x22 # t" "e = CHR 0x22 # t" "CHR 0x22 \<notin> set p"
    by (rule strchr_SomeE)
  have "len = length p" unfolding r(4) by (simp add: p)
  from that[OF r(1,2) p(1) this p(3)] show ?thesis .
qed

text \<open>The value of the first occurrence of a key is found whatever follows it.\<close>

lemma find_field_value:
  assumes "strstr (pre @ key) key = Some key" and "key \<noteq> []" and "CHR 0x22 \<notin> set val"
  shows "find_field (pre @ key @ val @ CHR 0x22 # rest) key (length key) =
    Some (val @ CHR 0x22 # rest, length val)"
  using strstr_append_found[OF assms(1,2), of "val @ CHR 0x22 # rest"] strchr_append[OF assms(3), of rest]
  by (simp add: find_field_def)

lemma strstr_no_nul: "strstr s k = Some r \<Longrightarrow> no_nul s \<Longrightarrow> no_nul r"
  by (auto dest!: strstr_SomeD)

lemma copy_field_ok:
  assumes "len < length dst" and "len \<le> length start" and "no_nul start"
  shows "copy_field dst start len = Inr (take len start @ [NUL] @ drop (Suc len) dst)"
proof -
  have "strncpy_block start len = take len start" using assms by (simp add: strncpy_block_def)
  moreover from assms(1) obtain c t where "drop len dst = c # t" by (cases "drop len dst") auto
  moreover from this have "drop (Suc len) dst = t" by (metis drop_Suc list.sel(3) tl_drop)
  ultimately show ?thesis using assms
    by (simp add: copy_field_def strncpy_at_def memcpy_at_0 store_at_ok list_update_append)
qed

text \<open>The array a field is copied to holds exactly the field, and the copy stays inside it.\<close>

lemma copy_field_cstr:
  assumes "len < length dst" and "len \<le> length start" and "no_nul start"
  shows "\<exists>d. copy_field dst start len = Inr d \<and> cstr d = take len start \<and> length d = length dst"
  using copy_field_ok[OF assms] assms by (simp add: no_nul_take)

lemma parse_field_ok:
  assumes "no_nul resp"
  shows "\<exists>d. parse_field resp key off dst = Inr d \<and> length d = length dst \<and>
    (case find_field resp key off of
       None \<Rightarrow> d = dst
     | Some (start, len) \<Rightarrow> if len < length dst then cstr d = take len start else d = dst)"
proof (cases "find_field resp key off")
  case None
  then show ?thesis by (simp add: parse_field_def)
next
  case (Some sl)
  then obtain start len where sl: "find_field resp key off = Some (start, len)" by (cases sl) auto
  from find_fieldE[OF sl] obtain r p t where f: "strstr resp key = Some r" "start = drop off r"
    "start = p @ CHR 0x22 # t" "len = length p" .
  have "no_nul start" using strstr_no_nul[OF f(1) assms] f(2) by (simp add: no_nul_drop)
  with copy_field_cstr[of len dst start] f(3,4) sl show ?thesis
    by (cases "len < length dst") (auto simp: parse_field_def)
qed

lemma parse_field_size: "no_nul resp \<Longrightarrow> parse_field resp key off dst = Inr d \<Longrightarrow> length d = length dst"
  using parse_field_ok by (metis sum.inject(2))

section \<open>The operations\<close>

lemma copy_field_token:
  assumes "find_field resp key off = Some (start, len)" and "no_nul resp" and "len < length dst"
  shows "\<exists>d. copy_field dst start len = Inr d \<and> cstr d = take len start \<and> length d = length dst"
proof -
  from find_fieldE[OF assms(1)] obtain r p t where f: "strstr resp key = Some r" "start = drop off r"
    "start = p @ CHR 0x22 # t" "len = length p" .
  have "no_nul start" using strstr_no_nul[OF f(1) assms(2)] f(2) by (simp add: no_nul_drop)
  moreover have "len \<le> length start" using f(3,4) by simp
  ultimately show ?thesis using copy_field_cstr[OF assms(3)] by blast
qed

lemma send_http_request_no_nul:
  assumes "send_http_request n request body m st = (st', Some resp)"
  shows "no_nul resp"
proof -
  have t: "no_nul resp" if "net_try n c s st k = (st', Some resp)"
    and "\<And>st st' resp. k st = (st', Some resp) \<Longrightarrow> no_nul resp" for c s k st st' resp
    using that by (auto simp: net_try_def split: prod.splits option.splits)
  have r: "no_nul resp" if "receive_response n s m st = (st', Some resp)" for s st st' resp
    using that unfolding receive_response_def by (rule t) auto
  have "no_nul resp" if "send_body n s body m st = (st', Some resp)" for s st st' resp
    using that r t[of "NetSend s b" for b] by (auto simp: send_body_def split: option.splits if_splits)
  with assms show ?thesis
    by (auto simp: send_http_request_def Let_def split: prod.splits option.splits elim!: t)
qed

lemma http_get_jwt_token_ok:
  assumes "http_inv st" and "length buf = m"
  shows "\<exists>st' t ok. http_get_jwt_token n mok buf m st = Inr (st', t, ok) \<and> http_inv st' \<and> length t = m \<and>
    only_log st st' \<and> (\<not> ok \<longrightarrow> t = buf)"
proof (cases "http_initialized st \<and> mok")
  case False
  with assms show ?thesis by (auto simp: http_get_jwt_token_def create_http_request_def)
next
  case True
  then obtain req where req: "create_http_request mok ''POST'' ''/api/v1/auth/token'' (Some token_headers) 0 = Some req"
    by (simp add: create_http_request_def)
  obtain st' r where send: "send_http_request n req None MAX_HTTP_RESPONSE_LENGTH st = (st', r)"
    by (cases "send_http_request n req None MAX_HTTP_RESPONSE_LENGTH st")
  have inv: "http_inv st'" using http_inv_sendD[OF assms(1) send] .
  have ol: "only_log st st'" using only_log_send send by (metis fst_conv)
  show ?thesis
  proof (cases "\<exists>resp start len. r = Some resp \<and> find_field resp TOKEN_KEY 9 = Some (start, len) \<and> len < m")
    case False
    with True req send inv ol assms(2) show ?thesis
      by (auto simp: http_get_jwt_token_def split: option.splits)
  next
    case tok: True
    then obtain resp start len where f: "r = Some resp" "find_field resp TOKEN_KEY 9 = Some (start, len)" "len < m"
      by blast
    have nn: "no_nul resp" using send_http_request_no_nul send f(1) by blast
    have lt: "len < length buf" using f(3) assms(2) by simp
    obtain d where "copy_field buf start len = Inr d" "length d = m"
      using copy_field_token[OF f(2) nn lt] assms(2) by auto
    with True req send inv ol f show ?thesis by (auto simp: http_get_jwt_token_def)
  qed
qed

lemma parse_response_ok:
  assumes "no_nul resp"
  shows "\<exists>r. http_parse_audio_response (Some resp) old = Inr (True, r) \<and>
    length (message r) = 256 \<and> length (session_id r) = 64 \<and> length (resp_text r) = 1024"
proof -
  obtain m i t where f: "parse_field resp MESSAGE_KEY 11 (message zero_response) = Inr m"
    "parse_field resp SESSION_KEY 14 (session_id zero_response) = Inr i"
    "parse_field resp TEXT_KEY 8 (resp_text zero_response) = Inr t"
    using parse_field_ok[OF assms] by metis
  have "length m = 256" "length i = 64" "length t = 1024"
    using f[THEN parse_field_size[OF assms]] by (simp_all add: zero_response_def)
  with f show ?thesis by (simp add: http_parse_audio_response_def)
qed

lemma http_realtime_ok:
  assumes "http_inv st"
  shows "\<exists>st' ok. http_stream_audio_realtime n mok old jwt d st = Inr (st', ok) \<and> http_inv st' \<and> only_log st st'"
proof (cases "\<exists>token b. jwt = Some token \<and> d = Some b \<and> http_initialized st \<and> b \<noteq> [] \<and> mok")
  case False
  with assms show ?thesis
    by (auto simp: http_stream_audio_realtime_def create_http_request_def split: option.splits)
next
  case True
  then obtain token b where tb: "jwt = Some token" "d = Some b" "http_initialized st" "b \<noteq> []" "mok" by blast
  then obtain req where req: "create_http_request mok ''POST'' ''/api/v1/audio/stream''
      (Some (snprintf_str 512 (auth_header token))) (length b) = Some req"
    by (simp add: create_http_request_def)
  obtain st' r where send: "send_http_request n req (Some b) MAX_HTTP_RESPONSE_LENGTH st = (st', r)"
    by (cases "send_http_request n req (Some b) MAX_HTTP_RESPONSE_LENGTH st")
  have inv: "http_inv st'" using http_inv_sendD[OF assms send] .
  have ol: "only_log st st'" using only_log_send send by (metis fst_conv)
  show ?thesis
  proof (cases r)
    case None
    with tb req send inv ol show ?thesis by (auto simp: http_stream_audio_realtime_def)
  next
    case (Some resp)
    have "no_nul resp" using send_http_request_no_nul send Some by blast
    from parse_response_ok[OF this, of old] obtain p where
      "http_parse_audio_response (Some resp) old = Inr (True, p)" by blast
    with tb req send inv ol Some show ?thesis
      by (auto simp: http_stream_audio_realtime_def)
  qed
qed

section \<open>The streaming session\<close>

lemma net_close_fields [simp]:
  "streaming_socket (net_close n s st) = streaming_socket st"
  "streaming_session_active (net_close n s st) = streaming_session_active st"
  "http_initialized (net_close n s st) = http_initialized st"
  by (simp_all add: net_close_def net_do_def Let_def)

lemma socks_inv_fields [simp]:
  "socks_inv S (st\<lparr>streaming_socket := x\<rparr>) = socks_inv S st"
  "socks_inv S (st\<lparr>streaming_session_active := y\<rparr>) = socks_inv S st"
  "socks_inv S (st\<lparr>http_initialized := z\<rparr>) = socks_inv S st"
  "socks_inv S (st\<lparr>current_jwt_token := t\<rparr>) = socks_inv S st"
  by (simp_all add: socks_inv_def)

lemma session_try_inv:
  assumes "socks_inv {s} st" and "streaming_socket st = Some s" and "neutral c" and "sock_legal {s} c"
    and "\<not> streaming_session_active st" and "http_initialized st"
    and "\<And>st'. socks_inv {s} st' \<Longrightarrow> streaming_socket st' = Some s \<Longrightarrow> \<not> streaming_session_active st' \<Longrightarrow>
      http_initialized st' \<Longrightarrow> http_inv (fst (k st'))"
  shows "http_inv (fst (session_try n c s st k))"
proof -
  obtain r st' where d: "net_do n c st = (r, st')" by (cases "net_do n c st")
  have inv: "socks_inv {s} st'" using socks_inv_do[OF assms(1,3,4), of n] d by simp
  have f: "streaming_socket st' = Some s" "\<not> streaming_session_active st'" "http_initialized st'"
    using only_log_do[OF d] assms(2,5,6) by (auto simp: only_log_def)
  show ?thesis
  proof (cases r)
    case None
    have "socks_inv {} (net_close n s st')" using socks_inv_close[OF inv, of s n] by simp
    with None d f show ?thesis by (simp add: session_try_def http_inv_defs)
  next
    case (Some v)
    with assms(7)[OF inv f] d show ?thesis by (simp add: session_try_def)
  qed
qed

lemma http_init_session_inv:
  assumes "http_inv st" and "\<not> streaming_session_active st"
  shows "http_inv (fst (http_init_streaming_session n jwt st))"
proof (cases "\<exists>token. jwt = Some token \<and> http_initialized st")
  case False
  with assms show ?thesis by (auto simp: http_init_streaming_session_def split: option.split)
next
  case True
  then obtain token where t: "jwt = Some token" "http_initialized st" by blast
  have none: "streaming_socket st = None" and inv: "socks_inv {} st"
    using assms by (auto simp: http_inv_defs)
  let ?s = "length (net_log st)"
  obtain r st1 where d: "net_do n NetSocket st = (r, st1)" by (cases "net_do n NetSocket st")
  have f: "streaming_socket st1 = None" "\<not> streaming_session_active st1" "http_initialized st1"
    using only_log_do[OF d] assms t none by (auto simp: only_log_def)
  show ?thesis
  proof (cases r)
    case None
    with d t f socks_inv_no_socket[OF inv, of n st1] show ?thesis
      by (simp add: http_init_streaming_session_def http_inv_defs socks_inv_def)
  next
    case (Some v)
    have "socks_inv {?s} st1" using socks_inv_socket[OF inv] d Some by simp
    then have i1: "socks_inv {?s} (st1\<lparr>streaming_socket := Some ?s\<rparr>)" by (simp add: socks_inv_def)
    have fin: "http_inv (st'\<lparr>streaming_session_active := True\<rparr>)"
      if "socks_inv {?s} st'" "streaming_socket st' = Some ?s" "http_initialized st'" for st'
      using that by (simp add: http_inv_defs socks_inv_def)
    have "http_inv (fst (session_try n NetResolve ?s (st1\<lparr>streaming_socket := Some ?s\<rparr>) (\<lambda>st2.
        session_try n (NetConnect ?s) ?s st2 (\<lambda>st3.
        session_try n (NetSend ?s (bytes_of (session_request token))) ?s st3 (\<lambda>st4.
        (st4\<lparr>streaming_session_active := True\<rparr>, True))))))"
      by (intro session_try_inv i1) (use f fin in \<open>simp_all add: neutral_def\<close>)
    with Some d t show ?thesis by (simp add: http_init_streaming_session_def Let_def)
  qed
qed

lemma send_or_inv:
  assumes "http_inv st" and "streaming_socket st = Some s"
    and "\<And>st'. http_inv st' \<Longrightarrow> streaming_socket st' = Some s \<Longrightarrow> http_inv (fst (k st'))"
  shows "http_inv (fst (send_or n s d st k))"
proof -
  obtain r st' where d: "net_do n (NetSend s d) st = (r, st')" by (cases "net_do n (NetSend s d) st")
  have "socks_inv {s} st'" using socks_inv_do[of "{s}" st "NetSend s d" n] assms(1,2) d
    by (simp add: http_inv_defs neutral_def)
  then have "http_inv st'" using http_inv_log[OF assms(1) only_log_do[OF d]] assms(2) by simp
  moreover have "streaming_socket st' = Some s" using only_log_do[OF d] assms(2) by (auto simp: only_log_def)
  ultimately show ?thesis using assms(3) d by (auto simp: send_or_def split: option.split)
qed

lemma http_stream_chunk_inv:
  assumes "http_inv st"
  shows "http_inv (fst (http_stream_audio_chunk n chunk st))"
proof (cases "\<exists>s d. streaming_socket st = Some s \<and> chunk = Some d \<and> streaming_session_active st \<and> d \<noteq> []")
  case False
  with assms show ?thesis by (auto simp: http_stream_audio_chunk_def split: option.split)
next
  case True
  then obtain s d where "streaming_socket st = Some s" "chunk = Some d" "streaming_session_active st" "d \<noteq> []"
    by blast
  with assms show ?thesis
    by (simp add: http_stream_audio_chunk_def) (intro send_or_inv; simp)
qed

lemma http_finish_ok:
  assumes "session_inv st" and "streaming_session_active st"
  shows "http_inv (fst (http_finish_streaming_session n st))"
    and "snd (http_finish_streaming_session n st)"
    and "open_socks (net_log (fst (http_finish_streaming_session n st))) = {}"
proof -
  from assms obtain s where s: "streaming_socket st = Some s" by (auto simp: http_inv_defs)
  let ?st1 = "snd (net_do n (NetSend s (bytes_of (''0'' @ CRLF @ CRLF))) st)"
  let ?st2 = "snd (net_do n (NetRecv s (MAX_HTTP_RESPONSE_LENGTH - 1)) ?st1)"
  have "socks_inv {s} ?st2"
    using assms(1) s by (intro socks_inv_do) (simp_all add: http_inv_defs neutral_def)
  then have "socks_inv {} (net_close n s ?st2)" using socks_inv_close by fastforce
  moreover have "http_finish_streaming_session n st =
      ((net_close n s ?st2)\<lparr>streaming_socket := None, streaming_session_active := False\<rparr>, True)"
    using assms(2) s by (simp only: http_finish_streaming_session_def Let_def option.case) simp
  ultimately show "http_inv (fst (http_finish_streaming_session n st))"
    "snd (http_finish_streaming_session n st)"
    "open_socks (net_log (fst (http_finish_streaming_session n st))) = {}"
    by (simp_all add: http_inv_defs socks_inv_def)
qed

lemma http_finish_inv: "http_inv st \<Longrightarrow> http_inv (fst (http_finish_streaming_session n st))"
  using http_finish_ok(1)[of st n] unfolding http_inv_def
  by (cases "streaming_session_active st") (auto simp: http_finish_streaming_session_def split: option.split)

lemma session_inv_fields [simp]:
  "session_inv (st\<lparr>http_initialized := z\<rparr>) = session_inv st"
  "session_inv (st\<lparr>current_jwt_token := t\<rparr>) = session_inv st"
  by (simp_all add: session_inv_def)

lemma http_cleanup_ok:
  assumes "http_inv st"
  shows "http_inv (http_cleanup n st)" and "open_socks (net_log (http_cleanup n st)) = {}"
proof -
  let ?st1 = "st\<lparr>http_initialized := False, current_jwt_token := replicate MAX_JWT_TOKEN_LENGTH NUL\<rparr>"
  have inv: "session_inv st" using assms by (simp add: http_inv_def)
  have "http_inv (http_cleanup n st) \<and> open_socks (net_log (http_cleanup n st)) = {}"
  proof (cases "streaming_session_active st")
    case True
    then have "http_cleanup n st = fst (http_finish_streaming_session n ?st1)"
      using assms by (simp add: http_cleanup_def http_inv_def)
    moreover have "session_inv ?st1" using inv by simp
    ultimately show ?thesis using http_finish_ok(1,3)[of ?st1 n] True by simp
  next
    case False
    then have "streaming_socket st = None" using inv by (simp add: session_inv_def)
    with False inv show ?thesis by (simp add: http_cleanup_def http_inv_defs socks_inv_def)
  qed
  then show "http_inv (http_cleanup n st)" "open_socks (net_log (http_cleanup n st)) = {}" by simp_all
qed

section \<open>Sequences of calls\<close>

datatype http_op = HttpInit | HttpHealth bool | HttpToken bool string
  | HttpUpload bool http_audio_response_t "string option" "byte list option"
  | SessionInit "string option" | SessionChunk "byte list option" | SessionFinish | HttpCleanup

fun http_step :: "net \<Rightarrow> http_op \<Rightarrow> http \<Rightarrow> http res" where
  "http_step n HttpInit st = Inr (fst (http_init st))"
| "http_step n (HttpHealth mok) st = Inr (fst (http_health_check n mok st))"
| "http_step n (HttpToken mok buf) st =
     bind_res (http_get_jwt_token n mok buf (length buf) st) (\<lambda>(st', t, ok). Inr st')"
| "http_step n (HttpUpload mok old jwt d) st =
     bind_res (http_stream_audio_realtime n mok old jwt d st) (\<lambda>(st', ok). Inr st')"
| "http_step n (SessionInit jwt) st = Inr (fst (http_init_streaming_session n jwt st))"
| "http_step n (SessionChunk c) st = Inr (fst (http_stream_audio_chunk n c st))"
| "http_step n SessionFinish st = Inr (fst (http_finish_streaming_session n st))"
| "http_step n HttpCleanup st = Inr (http_cleanup n st)"

fun run_http :: "net \<Rightarrow> http_op list \<Rightarrow> http \<Rightarrow> http res" where
  "run_http n [] st = Inr st"
| "run_http n (c # cs) st = bind_res (http_step n c st) (run_http n cs)"

text \<open>No session is opened while one is active.\<close>

fun not_nested :: "net \<Rightarrow> http_op list \<Rightarrow> http \<Rightarrow> bool" where
  "not_nested n [] st \<longleftrightarrow> True"
| "not_nested n (c # cs) st \<longleftrightarrow>
     (case c of SessionInit jwt \<Rightarrow> \<not> streaming_session_active st | _ \<Rightarrow> True) \<and>
     (case http_step n c st of Inl e \<Rightarrow> True | Inr st' \<Rightarrow> not_nested n cs st')"

lemma http_step_inv:
  assumes "http_inv st" and "case c of SessionInit jwt \<Rightarrow> \<not> streaming_session_active st | _ \<Rightarrow> True"
  shows "\<exists>st'. http_step n c st = Inr st' \<and> http_inv st'"
proof (cases c)
  case (HttpToken mok buf)
  with http_get_jwt_token_ok[OF assms(1) refl, of n mok buf] show ?thesis by auto
next
  case (HttpUpload mok old jwt d)
  with http_realtime_ok[OF assms(1), of n mok old jwt d] show ?thesis by auto
qed (use assms in \<open>simp_all add: http_init_inv http_health_check_inv http_init_session_inv
      http_stream_chunk_inv http_finish_inv http_cleanup_ok\<close>)

lemma run_http_inv:
  "http_inv st \<Longrightarrow> not_nested n cs st \<Longrightarrow> \<exists>st'. run_http n cs st = Inr st' \<and> http_inv st'"
proof (induction cs arbitrary: st)
  case Nil
  then show ?case by simp
next
  case (Cons c cs)
  from http_step_inv[OF Cons.prems(1), of c n] Cons.prems(2)
  obtain st1 where "http_step n c st = Inr st1" "http_inv st1" by auto
  with Cons show ?case by simp
qed

section \<open>A server that answers\<close>

text \<open>Every call succeeds and every \<open>recv\<close> gets the bytes of \<open>resp\<close>.\<close>

definition answers :: "net \<Rightarrow> string \<Rightarrow> bool" where
  "answers n resp \<longleftrightarrow> (\<forall>l c. net_ret n l c \<noteq> None) \<and> (\<forall>l s. net_data n l s = bytes_of resp)"

lemma net_do_answers:
  assumes "answers n resp"
  shows "\<exists>v st'. net_do n c st = (Some v, st')"
proof -
  obtain v where "net_ret n (net_log st) c = Some v" using assms unfolding answers_def by blast
  then show ?thesis by (simp add: net_do_def Let_def)
qed

lemma net_try_answers:
  assumes "answers n resp" and "\<And>st'. \<exists>st''. k st' = (st'', Some resp)"
  shows "\<exists>st''. net_try n c s st k = (st'', Some resp)"
proof -
  obtain v st' where "net_do n c st = (Some v, st')" using net_do_answers[OF assms(1)] by blast
  with assms(2)[of st'] show ?thesis by (simp add: net_try_def)
qed

lemma send_http_request_answers:
  assumes a: "answers n resp" and "no_nul resp" and "length resp < m"
  shows "\<exists>st'. send_http_request n request body m st = (st', Some resp)"
proof -
  have "cstr (chars_of (recv_bytes n s (m - 1) st)) = resp" for s st
    using assms by (simp add: recv_bytes_def answers_def)
  then have r: "\<exists>st'. receive_response n s m st = (st', Some resp)" for s st
    unfolding receive_response_def by (intro net_try_answers[OF a]) simp
  have "\<exists>st'. net_try n (NetSend s b) s st (receive_response n s m) = (st', Some resp)" for s b st
    by (intro net_try_answers[OF a]) (rule r)
  with r have b: "\<exists>st'. send_body n s body m st = (st', Some resp)" for s st
    by (simp add: send_body_def split: option.split)
  obtain v st1 where s: "net_do n NetSocket st = (Some v, st1)" using net_do_answers[OF a] by blast
  let ?s = "length (net_log st)"
  have "\<exists>st'. net_try n NetResolve ?s st1 (\<lambda>st2. net_try n (NetConnect ?s) ?s st2
      (\<lambda>st3. net_try n (NetSend ?s (bytes_of (cstr request))) ?s st3 (send_body n ?s body m))) = (st', Some resp)"
    by (intro net_try_answers[OF a]) (rule b)
  with s show ?thesis by (simp add: send_http_request_def Let_def)
qed

section \<open>Appended calls\<close>

lemma only_log_sendD: "send_http_request n request body m st = (st', r) \<Longrightarrow> only_log st st'"
  using only_log_send by (metis fst_conv)

lemma only_log_health: "only_log st (fst (http_health_check n mok st))"
  by (auto simp: http_health_check_def dest: only_log_sendD split: option.splits prod.splits)

lemma open_socks_kept:
  assumes "s \<in> open_socks l" and "\<forall>r. (NetClose s, r) \<notin> set m"
  shows "s \<in> open_socks (l @ m)"
  using assms(2)
proof (induction m rule: rev_induct)
  case Nil
  then show ?case using assms(1) by simp
next
  case (snoc e m)
  obtain c r where e: "e = (c, r)" by (cases e)
  have IH: "s \<in> open_socks (l @ m)" using snoc by auto
  have "open_socks (l @ m @ [e]) = open_socks ((l @ m) @ [e])" by simp
  also have "s \<in> \<dots>" unfolding e using IH snoc.prems e by (cases c; cases r) (auto simp del: append_assoc)
  finally show ?case .
qed

section \<open>Properties\<close>

text \<open>
  C9: no sequence of calls to the HTTP client leaks a socket or uses one that is closed, on a
  network whose calls fail at will: between calls at most the socket of the streaming session is
  open, and after \<open>http_cleanup\<close> none is.  No call faults.  Sessions are not opened while one is
  active.
\<close>

theorem http_no_socket_leak:
  assumes "not_nested n cs static_http"
  shows "\<exists>st. run_http n cs static_http = Inr st \<and> net_log_legal (net_log st) \<and>
    open_socks (net_log st) = set_option (streaming_socket st) \<and>
    net_log_legal (net_log (http_cleanup n st)) \<and> open_socks (net_log (http_cleanup n st)) = {}"
proof -
  from run_http_inv[OF http_inv_static assms] obtain st where
    st: "run_http n cs static_http = Inr st" "http_inv st" by blast
  with http_cleanup_ok[OF st(2), of n] show ?thesis by (auto simp: http_inv_defs socks_inv_def)
qed

theorem http_no_socket_leak_witness:
  "\<exists>st. run_http \<lparr>net_ret = (\<lambda>l c. if length l mod 5 = 4 then None else Some 3), net_data = (\<lambda>l s. [])\<rparr>
      [HttpInit, HttpHealth True, SessionInit (Some ''t''), SessionChunk (Some [1]), SessionFinish, HttpCleanup] static_http
      = Inr st \<and> open_socks (net_log (http_cleanup \<lparr>net_ret = (\<lambda>l c. if length l mod 5 = 4 then None else Some 3),
        net_data = (\<lambda>l s. [])\<rparr> st)) = {}"
proof -
  let ?n = "\<lparr>net_ret = (\<lambda>l c. if length l mod 5 = 4 then None else Some 3), net_data = (\<lambda>l s. [])\<rparr>"
  let ?cs = "[HttpInit, HttpHealth True, SessionInit (Some ''t''), SessionChunk (Some [1]), SessionFinish, HttpCleanup]"
  have "\<not> streaming_session_active (fst (http_health_check ?n True (fst (http_init static_http))))"
  proof -
    from only_log_health[of "fst (http_init static_http)" ?n True] show ?thesis
      by (auto simp: only_log_def http_init_def static_http_def)
  qed
  then have "not_nested ?n ?cs static_http" by simp
  from http_no_socket_leak[OF this] show ?thesis by blast
qed

text \<open>
  C36: opening a streaming session while one is active leaks the socket of the first: it stays
  open, and the only variable that held it is overwritten.
\<close>

theorem nested_session_leaks:
  assumes "http_inv st" and "streaming_socket st = Some s" and "net_ret n (net_log st) NetSocket \<noteq> None"
  shows "s \<in> open_socks (net_log (fst (http_init_streaming_session n (Some token) st))) \<and>
    streaming_socket (fst (http_init_streaming_session n (Some token) st)) \<noteq> Some s"
proof -
  let ?s = "length (net_log st)"
  have o: "s \<in> open_socks (net_log st)" and ne: "s \<noteq> ?s"
    using assms(1,2) by (auto simp: http_inv_defs socks_inv_def)
  have i: "http_initialized st" using assms(1,2) by (auto simp: http_inv_defs)
  let ?st' = "fst (http_init_streaming_session n (Some token) st)"
  have "(\<exists>m. net_log ?st' = net_log st @ m \<and> (\<forall>r. (NetClose s, r) \<notin> set m)) \<and>
      (streaming_socket ?st' = None \<or> streaming_socket ?st' = Some ?s)"
    using assms(3) i ne
    by (auto simp: http_init_streaming_session_def session_try_def net_do_def net_close_def Let_def split: option.splits)
  with open_socks_kept[OF o] ne show ?thesis by auto
qed

theorem nested_session_leaks_witness:
  "\<exists>st. http_inv st \<and> streaming_socket st = Some 0 \<and>
    0 \<in> open_socks (net_log (fst (http_init_streaming_session
      \<lparr>net_ret = (\<lambda>l c. Some 0), net_data = (\<lambda>l s. [])\<rparr> (Some ''t'') st)))"
proof -
  let ?st = "static_http\<lparr>http_initialized := True, streaming_socket := Some 0, streaming_session_active := True,
    net_log := [] @ [(NetSocket, Some 0)]\<rparr>"
  have inv: "http_inv ?st"
    unfolding http_inv_defs socks_inv_def
    using open_socks_simps(1)[of "[]" 0] net_log_legal_simps(2)[of "[]" "(NetSocket, Some 0)"] by simp
  from nested_session_leaks[OF this, of 0 "\<lparr>net_ret = (\<lambda>l c. Some 0), net_data = (\<lambda>l s. [])\<rparr>" "''t''"] inv
  show ?thesis by (intro exI[of _ ?st]) simp
qed

text \<open>
  C22: against a server that answers with a JSON object that has a token, \<open>http_get_jwt_token\<close>
  returns that token, whatever precedes and follows it, and stays inside the caller's array.
\<close>

theorem token_fetched:
  assumes "answers n (pre @ TOKEN_KEY @ token @ CHR 0x22 # rest)"
    and "no_nul (pre @ TOKEN_KEY @ token @ CHR 0x22 # rest)"
    and "length (pre @ TOKEN_KEY @ token @ CHR 0x22 # rest) < MAX_HTTP_RESPONSE_LENGTH"
    and "strstr (pre @ TOKEN_KEY) TOKEN_KEY = Some TOKEN_KEY" and "CHR 0x22 \<notin> set token"
    and "length token < m" and "length buf = m" and "http_initialized st"
  shows "\<exists>st' t. http_get_jwt_token n True buf m st = Inr (st', t, True) \<and> cstr t = token \<and> length t = m"
proof -
  let ?resp = "pre @ TOKEN_KEY @ token @ CHR 0x22 # rest"
  obtain req where req: "create_http_request True ''POST'' ''/api/v1/auth/token'' (Some token_headers) 0 = Some req"
    by (simp add: create_http_request_def)
  obtain st' where send: "send_http_request n req None MAX_HTTP_RESPONSE_LENGTH st = (st', Some ?resp)"
    using send_http_request_answers[OF assms(1-3)] by blast
  have "find_field ?resp TOKEN_KEY (length TOKEN_KEY) = Some (token @ CHR 0x22 # rest, length token)"
    by (rule find_field_value) (use assms(4,5) in \<open>simp_all add: TOKEN_KEY_def\<close>)
  moreover have "length TOKEN_KEY = 9" by (simp add: TOKEN_KEY_def)
  ultimately have f: "find_field ?resp TOKEN_KEY 9 = Some (token @ CHR 0x22 # rest, length token)" by metis
  have "length token < length buf" using assms(6,7) by simp
  from copy_field_token[OF f assms(2) this] obtain t where
    "copy_field buf (token @ CHR 0x22 # rest) (length token) = Inr t" "cstr t = token" "length t = m"
    using assms(7) by auto
  with req send f assms(6,8) show ?thesis by (simp add: http_get_jwt_token_def)
qed

theorem token_fetched_witness:
  "\<exists>st' t. http_get_jwt_token
      \<lparr>net_ret = (\<lambda>l c. Some 0), net_data = (\<lambda>l s. bytes_of (''{'' @ TOKEN_KEY @ ''abc'' @ CHR 0x22 # ''}''))\<rparr> True
      (replicate 8 NUL) 8 (static_http\<lparr>http_initialized := True\<rparr>) = Inr (st', t, True) \<and>
    cstr t = ''abc'' \<and> length t = 8"
  by (rule token_fetched[where pre = "''{''" and rest = "''}''"])
    (simp_all add: answers_def TOKEN_KEY_def MAX_HTTP_RESPONSE_LENGTH_def)

text \<open>
  C35: \<open>http_stream_audio_realtime\<close> reports success for every response the server sends, also
  one that says \<open>"success":false\<close>: \<open>http_parse_audio_response\<close> returns true on every string
  and the field it fills is not looked at.
\<close>

theorem upload_ignores_success:
  assumes "answers n resp" and "no_nul resp" and "length resp < MAX_HTTP_RESPONSE_LENGTH"
    and "http_initialized st" and "d \<noteq> []"
  shows "\<exists>st'. http_stream_audio_realtime n True old (Some token) (Some d) st = Inr (st', True)"
proof -
  obtain req where req: "create_http_request True ''POST'' ''/api/v1/audio/stream''
      (Some (snprintf_str 512 (auth_header token))) (length d) = Some req"
    by (simp add: create_http_request_def)
  obtain st' where send: "send_http_request n req (Some d) MAX_HTTP_RESPONSE_LENGTH st = (st', Some resp)"
    using send_http_request_answers[OF assms(1-3)] by blast
  from parse_response_ok[OF assms(2), of old] req send assms(4,5) show ?thesis
    by (auto simp: http_stream_audio_realtime_def)
qed

theorem upload_ignores_success_witness:
  "\<exists>st'. http_stream_audio_realtime
      \<lparr>net_ret = (\<lambda>l c. Some 0), net_data = (\<lambda>l s. bytes_of (''{'' @ SUCCESS_KEY @ ''false}''))\<rparr> True
      zero_response (Some ''t'') (Some [1]) (static_http\<lparr>http_initialized := True\<rparr>) = Inr (st', True)"
  by (rule upload_ignores_success[where resp = "''{'' @ SUCCESS_KEY @ ''false}''"])
    (simp_all add: answers_def SUCCESS_KEY_def MAX_HTTP_RESPONSE_LENGTH_def)




end
