(* ===== verification/Chunked_Coding.thy ===== *)
theory Chunked_Coding
  imports Http_Client
begin

text \<open>
  What the streaming session of http_client.c puts on the wire, against a decoder of the
  chunked transfer coding (RFC 9112, without trailers and extensions) written from the RFC.
\<close>

section \<open>The decoder\<close>

definition hex_val :: "char \<Rightarrow> nat option" where
  "hex_val c = find (\<lambda>i. digit_char i = c) [0..<16]"

fun hex_acc :: "nat \<Rightarrow> string \<Rightarrow> nat option" where
  "hex_acc a [] = Some a"
| "hex_acc a (c # cs) = (case hex_val c of None \<Rightarrow> None | Some v \<Rightarrow> hex_acc (a * 16 + v) cs)"

definition parse_hex :: "string \<Rightarrow> nat option" where
  "parse_hex s = (if s = [] then None else hex_acc 0 s)"

abbreviation crlf :: "byte list" where "crlf \<equiv> bytes_of CRLF"

text \<open>The first argument bounds the number of chunks; each takes at least one byte.\<close>

fun dechunk_fuel :: "nat \<Rightarrow> byte list \<Rightarrow> byte list list option" where
  "dechunk_fuel 0 w = None"
| "dechunk_fuel (Suc k) w =
     (let line = takeWhile (\<lambda>b. b \<noteq> 13) w; rest = dropWhile (\<lambda>b. b \<noteq> 13) w in
      if take 2 rest \<noteq> crlf then None
      else
        (case parse_hex (chars_of line) of
           None \<Rightarrow> None
         | Some m \<Rightarrow>
             (let data = drop 2 rest in
              if m = 0 then (if data = crlf then Some [] else None)
              else if length data < m + 2 \<or> take 2 (drop m data) \<noteq> crlf then None
              else map_option (Cons (take m data)) (dechunk_fuel k (drop (m + 2) data)))))"

definition dechunk :: "byte list \<Rightarrow> byte list list option" where
  "dechunk w = dechunk_fuel (Suc (length w)) w"

section \<open>The encoder the session amounts to\<close>

definition chunk_bytes :: "byte list \<Rightarrow> byte list" where
  "chunk_bytes d = bytes_of (hex_str (length d)) @ crlf @ d @ crlf"

definition chunked :: "byte list list \<Rightarrow> byte list" where
  "chunked ds = concat (map chunk_bytes ds) @ bytes_of (''0'' @ CRLF @ CRLF)"

lemma crlf_eq: "crlf = [13, 10]"
  by (simp add: CRLF_def byte_of_def)

lemma digit_char_inverse: "d < 16 \<Longrightarrow> hex_val (digit_char d) = Some d"
proof -
  assume "d < 16"
  then have "d \<in> set [0..<16]" by simp
  moreover have "\<forall>d \<in> set [0..<16]. hex_val (digit_char d) = Some d" by code_simp
  ultimately show ?thesis by blast
qed

lemma digit_char_not_cr: "d < 16 \<Longrightarrow> byte_of (digit_char d) \<noteq> 13"
proof -
  assume "d < 16"
  then have "d \<in> set [0..<16]" by simp
  moreover have "\<forall>d \<in> set [0..<16]. byte_of (digit_char d) \<noteq> 13" by code_simp
  ultimately show ?thesis by blast
qed

lemma hex_acc_digits:
  "\<forall>d \<in> set ds. d < 16 \<Longrightarrow> hex_acc a (map digit_char ds) = Some (foldl (\<lambda>a d. a * 16 + d) a ds)"
  by (induction ds arbitrary: a) (simp_all add: digit_char_inverse)

lemma parse_hex_str: "parse_hex (hex_str n) = Some n"
proof -
  have "\<forall>d \<in> set (digits 16 n). d < 16" using digits_less[of 16] by simp
  from hex_acc_digits[OF this, of 0] digits_value[of 16 n] show ?thesis
    by (simp add: parse_hex_def hex_str_def)
qed

lemma hex_line:
  assumes "r \<noteq> []" and "hd r = 13"
  shows "takeWhile (\<lambda>b. b \<noteq> 13) (bytes_of (hex_str n) @ r) = bytes_of (hex_str n)"
    and "dropWhile (\<lambda>b. b \<noteq> 13) (bytes_of (hex_str n) @ r) = r"
proof -
  have d: "b \<noteq> 13" if "b \<in> set (bytes_of (hex_str n))" for b
    using that digits_less[of 16 _ n] digit_char_not_cr by (auto simp: hex_str_def)
  from assms obtain r' where r: "r = 13 # r'" by (cases r) auto
  show "takeWhile (\<lambda>b. b \<noteq> 13) (bytes_of (hex_str n) @ r) = bytes_of (hex_str n)"
    using d by (subst takeWhile_append2) (auto simp: r)
  show "dropWhile (\<lambda>b. b \<noteq> 13) (bytes_of (hex_str n) @ r) = r"
    using d by (subst dropWhile_append2) (auto simp: r)
qed

lemma chars_of_hex: "chars_of (bytes_of (hex_str n)) = hex_str n"
  by simp

lemma dechunk_last: "dechunk_fuel (Suc k) (bytes_of (''0'' @ CRLF @ CRLF)) = Some []"
proof -
  have h: "hex_str 0 = ''0''" by (simp add: hex_str_def digit_char_def)
  have eq: "bytes_of (''0'' @ CRLF @ CRLF) = bytes_of (hex_str 0) @ [13, 10, 13, 10]"
    by (simp add: h CRLF_def byte_of_def)
  have w: "takeWhile (\<lambda>b. b \<noteq> 13) (bytes_of (hex_str 0) @ [13, 10, 13, 10]) = bytes_of (hex_str 0)"
    "dropWhile (\<lambda>b. b \<noteq> 13) (bytes_of (hex_str 0) @ [13, 10, 13, 10]) = [13, 10, 13, 10]"
    by (rule hex_line; simp)+
  show ?thesis
    unfolding eq dechunk_fuel.simps Let_def w chars_of_hex parse_hex_str by (simp add: crlf_eq)
qed

lemma dechunk_one:
  assumes "d \<noteq> []"
  shows "dechunk_fuel (Suc k) (chunk_bytes d @ w) = map_option (Cons d) (dechunk_fuel k w)"
proof -
  have "chunk_bytes d @ w = bytes_of (hex_str (length d)) @ (13 # 10 # d @ crlf @ w)"
    by (simp add: chunk_bytes_def crlf_eq)
  then show ?thesis
    using hex_line[of "13 # 10 # d @ crlf @ w" "length d"] parse_hex_str[of "length d"] assms
    by (simp add: crlf_eq chars_of_hex del: map_map)
qed

lemma dechunk_fuel_chunked:
  "\<forall>d \<in> set ds. d \<noteq> [] \<Longrightarrow> length ds < k \<Longrightarrow> dechunk_fuel k (chunked ds) = Some ds"
proof (induction ds arbitrary: k)
  case Nil
  then obtain k' where "k = Suc k'" by (cases k) auto
  with dechunk_last show ?case by (simp only: chunked_def list.map concat.simps append_Nil)
next
  case (Cons d ds)
  then obtain k' where k: "k = Suc k'" by (cases k) auto
  have "chunked (d # ds) = chunk_bytes d @ chunked ds" by (simp add: chunked_def)
  with Cons k show ?case by (simp add: dechunk_one del: dechunk_fuel.simps)
qed

lemma length_chunked: "length ds < length (chunked ds)"
proof (induction ds)
  case Nil
  then show ?case by (simp add: chunked_def)
next
  case (Cons d ds)
  then show ?case by (simp add: chunked_def chunk_bytes_def crlf_eq)
qed

interpretation chunks: codec chunked dechunk "\<lambda>ds. \<forall>d \<in> set ds. d \<noteq> []"
  by unfold_locales (simp add: dechunk_def dechunk_fuel_chunked length_chunked less_SucI del: dechunk_fuel.simps)

section \<open>What the session sends\<close>

lemma wire_append: "wire s (l @ m) = wire s l @ wire s m"
  by (induction l rule: wire.induct) auto

lemma wire_snoc [simp]:
  "wire s (l @ [(NetSend t d, Some k)]) = wire s l @ (if s = t then take k d else [])"
  "wire s (l @ [(NetSend t d, None)]) = wire s l"
  "wire s (l @ [(NetSocket, r)]) = wire s l"
  "wire s (l @ [(NetResolve, r)]) = wire s l"
  "wire s (l @ [(NetConnect t, r)]) = wire s l"
  "wire s (l @ [(NetRecv t m, r)]) = wire s l"
  "wire s (l @ [(NetClose t, r)]) = wire s l"
  by (simp_all add: wire_append)

lemma open_socks_bound: "s \<in> open_socks l \<Longrightarrow> s < length l"
proof (induction l rule: rev_induct)
  case Nil
  then show ?case by simp
next
  case (snoc e l)
  obtain c r where e: "e = (c, r)" by (cases e)
  with snoc show ?case by (cases c; cases r) (auto simp: less_SucI)
qed

text \<open>Nothing was sent on a socket that does not exist yet.\<close>

lemma wire_fresh: "net_log_legal l \<Longrightarrow> length l \<le> s \<Longrightarrow> wire s l = []"
proof (induction l rule: rev_induct)
  case Nil
  then show ?case by simp
next
  case (snoc e l)
  obtain c r where e: "e = (c, r)" by (cases e)
  with snoc show ?case by (cases c; cases r) (auto dest: open_socks_bound)
qed

text \<open>A network on which every call succeeds and every block is taken whole.\<close>

definition reliable :: "net \<Rightarrow> bool" where
  "reliable n \<longleftrightarrow> (\<forall>l. (\<forall>s d. net_ret n l (NetSend s d) = Some (length d)) \<and>
     (\<forall>s. net_ret n l (NetConnect s) \<noteq> None) \<and> net_ret n l NetSocket \<noteq> None \<and> net_ret n l NetResolve \<noteq> None)"

text \<open>The caller's loop over its chunks.\<close>

fun stream_chunks :: "net \<Rightarrow> byte list list \<Rightarrow> http \<Rightarrow> http \<times> bool" where
  "stream_chunks n [] st = (st, True)"
| "stream_chunks n (d # ds) st =
     (case http_stream_audio_chunk n (Some d) st of
        (st', True) \<Rightarrow> stream_chunks n ds st' | (st', False) \<Rightarrow> (st', False))"

definition chunk_ok :: "byte list \<Rightarrow> bool" where
  "chunk_ok d \<longleftrightarrow> d \<noteq> [] \<and> length d < 2 ^ 64"

lemma chunk_header_fits: "n < 2 ^ 64 \<Longrightarrow> snprintf_str 32 (hex_str n @ CRLF) = hex_str n @ CRLF"
  using length_digits_le[of 16 n 15] by (simp add: snprintf_str_def hex_str_def CRLF_def)

definition session_open :: "nat \<Rightarrow> http \<Rightarrow> bool" where
  "session_open s st \<longleftrightarrow> streaming_socket st = Some s \<and> streaming_session_active st"

lemma stream_chunk_wire:
  assumes "reliable n" and "session_open s st" and "chunk_ok d"
  shows "\<exists>st'. http_stream_audio_chunk n (Some d) st = (st', True) \<and> session_open s st' \<and>
    wire s (net_log st') = wire s (net_log st) @ chunk_bytes d"
  using assms chunk_header_fits[of "length d"]
  by (simp add: http_stream_audio_chunk_def session_open_def send_or_def net_do_def Let_def reliable_def
      chunk_ok_def chunk_bytes_def wire_append)

lemma stream_chunks_wire:
  "reliable n \<Longrightarrow> session_open s st \<Longrightarrow> \<forall>d \<in> set ds. chunk_ok d \<Longrightarrow>
   \<exists>st'. stream_chunks n ds st = (st', True) \<and> session_open s st' \<and>
     wire s (net_log st') = wire s (net_log st) @ concat (map chunk_bytes ds)"
proof (induction ds arbitrary: st)
  case Nil
  then show ?case by simp
next
  case (Cons d ds)
  from stream_chunk_wire[OF Cons.prems(1,2), of d] Cons.prems(3) obtain st1 where
    s1: "http_stream_audio_chunk n (Some d) st = (st1, True)" "session_open s st1"
    "wire s (net_log st1) = wire s (net_log st) @ chunk_bytes d" by auto
  from Cons.IH[OF Cons.prems(1) s1(2)] Cons.prems(3) s1 show ?case by auto
qed

lemma session_init_wire:
  assumes "reliable n" and "http_inv st" and "http_initialized st" and "\<not> streaming_session_active st"
  shows "\<exists>st'. http_init_streaming_session n (Some token) st = (st', True) \<and>
    session_open (length (net_log st)) st' \<and>
    wire (length (net_log st)) (net_log st') = bytes_of (session_request token)"
proof -
  from assms(1) obtain a b c where r: "net_ret n (net_log st) NetSocket = Some a"
    "net_ret n (net_log st @ [(NetSocket, Some a)]) NetResolve = Some b"
    "net_ret n ((net_log st @ [(NetSocket, Some a)]) @ [(NetResolve, Some b)]) (NetConnect (length (net_log st))) = Some c"
    unfolding reliable_def by (metis not_Some_eq)
  have "wire (length (net_log st)) (net_log st) = []"
    using assms(2) by (simp add: wire_fresh http_inv_defs socks_inv_def)
  with assms(1,3) r show ?thesis
    by (simp add: http_init_streaming_session_def session_try_def net_do_def Let_def reliable_def
        session_open_def wire_append)
qed

lemma session_finish_wire:
  assumes "reliable n" and "session_open s st"
  shows "\<exists>st'. http_finish_streaming_session n st = (st', True) \<and>
    wire s (net_log st') = wire s (net_log st) @ bytes_of (''0'' @ CRLF @ CRLF)"
  using assms
  by (simp add: http_finish_streaming_session_def session_open_def net_do_def net_close_def Let_def reliable_def
      wire_append)

section \<open>What a request sends\<close>

lemma receive_response_wire [simp]:
  "wire s (net_log (fst (receive_response n s m st))) = wire s (net_log st)"
  by (auto simp: receive_response_def net_try_def net_do_def net_close_def Let_def wire_append split: option.split)

lemma request_wire:
  assumes "reliable n" and "http_inv st" and "d \<noteq> []"
  shows "wire (length (net_log st)) (net_log (fst (send_http_request n req (Some d) m st))) = bytes_of (cstr req) @ d"
proof -
  let ?s = "length (net_log st)"
  from assms(1) obtain a b c where r: "net_ret n (net_log st) NetSocket = Some a"
    "net_ret n (net_log st @ [(NetSocket, Some a)]) NetResolve = Some b"
    "net_ret n ((net_log st @ [(NetSocket, Some a)]) @ [(NetResolve, Some b)]) (NetConnect ?s) = Some c"
    unfolding reliable_def by (metis not_Some_eq)
  have "wire ?s (net_log st) = []"
    using assms(2) by (simp add: wire_fresh http_inv_defs socks_inv_def)
  with assms(1,3) r show ?thesis
    by (simp add: send_http_request_def send_body_def net_try_def net_do_def Let_def reliable_def wire_append)
qed

section \<open>Properties\<close>

text \<open>
  C10: on a network that takes what it is given, a streaming session sends the request followed
  by a body that a decoder of the chunked transfer coding turns back into exactly the chunks the
  caller passed, in order, and every call of the session succeeds.
\<close>

theorem session_is_chunked:
  assumes "reliable n" and "http_inv st" and "http_initialized st" and "\<not> streaming_session_active st"
    and "\<forall>d \<in> set ds. d \<noteq> [] \<and> length d < 2 ^ 64"
  shows "\<exists>st1 st2 st3 body. http_init_streaming_session n (Some token) st = (st1, True) \<and>
    stream_chunks n ds st1 = (st2, True) \<and> http_finish_streaming_session n st2 = (st3, True) \<and>
    wire (length (net_log st)) (net_log st3) = bytes_of (session_request token) @ body \<and>
    dechunk body = Some ds"
proof -
  let ?s = "length (net_log st)"
  from session_init_wire[OF assms(1-4), of token] obtain st1 where
    s1: "http_init_streaming_session n (Some token) st = (st1, True)" "session_open ?s st1"
    "wire ?s (net_log st1) = bytes_of (session_request token)" by blast
  have "\<forall>d \<in> set ds. chunk_ok d" using assms(5) by (simp add: chunk_ok_def)
  from stream_chunks_wire[OF assms(1) s1(2) this] obtain st2 where
    s2: "stream_chunks n ds st1 = (st2, True)" "session_open ?s st2"
    "wire ?s (net_log st2) = wire ?s (net_log st1) @ concat (map chunk_bytes ds)" by blast
  from session_finish_wire[OF assms(1) s2(2)] obtain st3 where
    s3: "http_finish_streaming_session n st2 = (st3, True)"
    "wire ?s (net_log st3) = wire ?s (net_log st2) @ bytes_of (''0'' @ CRLF @ CRLF)" by blast
  have "wire ?s (net_log st3) = bytes_of (session_request token) @ chunked ds"
    unfolding s3(2) s2(3) s1(3) chunked_def append.assoc ..
  moreover have "dechunk (chunked ds) = Some ds" by (rule chunks.dec_enc) (use assms(5) in auto)
  ultimately show ?thesis using s1(1) s2(1) s3(1) by blast
qed

theorem session_is_chunked_witness:
  "\<exists>st1 st2 st3 body.
    http_init_streaming_session
      \<lparr>net_ret = (\<lambda>l c. case c of NetSend s d \<Rightarrow> Some (length d) | _ \<Rightarrow> Some 0), net_data = (\<lambda>l s. [])\<rparr>
      (Some ''tok'') (static_http\<lparr>http_initialized := True\<rparr>) = (st1, True) \<and>
    stream_chunks
      \<lparr>net_ret = (\<lambda>l c. case c of NetSend s d \<Rightarrow> Some (length d) | _ \<Rightarrow> Some 0), net_data = (\<lambda>l s. [])\<rparr>
      [[1, 2, 3], [13, 10]] st1 = (st2, True) \<and>
    http_finish_streaming_session
      \<lparr>net_ret = (\<lambda>l c. case c of NetSend s d \<Rightarrow> Some (length d) | _ \<Rightarrow> Some 0), net_data = (\<lambda>l s. [])\<rparr>
      st2 = (st3, True) \<and>
    wire (length (net_log (static_http\<lparr>http_initialized := True\<rparr>))) (net_log st3) =
      bytes_of (session_request ''tok'') @ body \<and> dechunk body = Some [[1, 2, 3], [13, 10]]"
  by (rule session_is_chunked)
    (use http_inv_static in \<open>simp_all add: reliable_def http_inv_def\<close>, simp add: static_http_def)

end
