(* ===== verification/Message_Queue.thy ===== *)
theory Message_Queue
  imports Interfaces Config
begin

text \<open>
  message_queue.c: the ring of \<open>MAX_QUEUE_SIZE\<close> slots between the threads that produce
  outgoing messages and the WebSocket callback that sends them.  Every function of the file
  takes \<open>queue_mutex\<close> for its whole body, so each is one atomic operation on the state.
  The outcome of a \<open>malloc\<close> is an argument of the operation that makes it.
\<close>

section \<open>State\<close>

record slot =
  message :: string
  msg_length :: nat
  is_binary :: bool
  large_binary_data :: "nat option"
  large_binary_size :: nat

record queue =
  message_queue :: "slot list"
  queue_head :: nat
  queue_tail :: nat
  qheap :: c_heap

text \<open>The static variables before \<open>main\<close>: all zero.\<close>

definition zero_slot :: slot where
  "zero_slot = \<lparr>message = replicate MAX_MESSAGE_LENGTH NUL, msg_length = 0, is_binary = False,
     large_binary_data = None, large_binary_size = 0\<rparr>"

definition static_queue :: queue where
  "static_queue = \<lparr>message_queue = replicate MAX_QUEUE_SIZE zero_slot, queue_head = 0,
     queue_tail = 0, qheap = empty_heap\<rparr>"

section \<open>Operations\<close>

definition init_message_queue :: "queue \<Rightarrow> queue" where
  "init_message_queue q = q\<lparr>queue_head := 0, queue_tail := 0\<rparr>"

text \<open>The loop of \<open>cleanup_message_queue\<close> over the slots.\<close>

fun free_slots :: "slot list \<Rightarrow> c_heap \<Rightarrow> (slot list \<times> c_heap) res" where
  "free_slots [] h = Inr ([], h)"
| "free_slots (s # ss) h =
     bind_res (case large_binary_data s of
         None \<Rightarrow> Inr (s, h)
       | Some p \<Rightarrow> bind_res (free_blk p h) (\<lambda>h'. Inr (s\<lparr>large_binary_data := None\<rparr>, h')))
       (\<lambda>(s', h'). bind_res (free_slots ss h') (\<lambda>(ss', h''). Inr (s' # ss', h'')))"

definition cleanup_message_queue :: "queue \<Rightarrow> queue res" where
  "cleanup_message_queue q =
     bind_res (free_slots (message_queue q) (qheap q))
       (\<lambda>(ss, h). Inr (q\<lparr>message_queue := ss, qheap := h\<rparr>))"

definition next_tail :: "queue \<Rightarrow> nat" where
  "next_tail q = (queue_tail q + 1) mod MAX_QUEUE_SIZE"

definition set_slot :: "nat \<Rightarrow> slot \<Rightarrow> queue \<Rightarrow> queue" where
  "set_slot i s q = q\<lparr>message_queue := (message_queue q)[i := s]\<rparr>"

text \<open>The array of a slot after \<open>strncpy\<close> of at most 65535 characters and the explicit terminator.\<close>

definition copy_text :: "string \<Rightarrow> string \<Rightarrow> string res" where
  "copy_text msg buf =
     bind_res (strncpy_at buf 0 msg (MAX_MESSAGE_LENGTH - 1))
       (\<lambda>b. store_at b (MAX_MESSAGE_LENGTH - 1) NUL)"

definition add_message_to_queue :: "string \<Rightarrow> queue \<Rightarrow> (queue \<times> bool) res" where
  "add_message_to_queue msg q =
     (if next_tail q = queue_head q then Inr (q, False)
      else
        bind_res (index_at (message_queue q) (queue_tail q)) (\<lambda>s.
        bind_res (copy_text msg (message s)) (\<lambda>b.
        bind_res (strlen_arr b) (\<lambda>n.
        Inr ((set_slot (queue_tail q) (s\<lparr>message := b, msg_length := n\<rparr>) q)
               \<lparr>queue_tail := next_tail q\<rparr>, True)))))"

text \<open>
  \<open>dst\<close> is the caller's \<open>char message[MAX_MESSAGE_LENGTH]\<close>; the result holds its new
  contents and the length, or \<open>None\<close> where the C function returns 0.
\<close>

definition get_message_from_queue :: "string \<Rightarrow> queue \<Rightarrow> (queue \<times> (string \<times> nat) option) res" where
  "get_message_from_queue dst q =
     (if queue_head q = queue_tail q then Inr (q, None)
      else
        bind_res (index_at (message_queue q) (queue_head q)) (\<lambda>s.
        bind_res (strcpy_arr dst (message s)) (\<lambda>dst'.
        Inr (q\<lparr>queue_head := (queue_head q + 1) mod MAX_QUEUE_SIZE\<rparr>,
             Some (dst', msg_length s)))))"

definition add_binary_message_to_queue :: "bool \<Rightarrow> byte list \<Rightarrow> queue \<Rightarrow> (queue \<times> bool) res" where
  "add_binary_message_to_queue mok d q =
     (if next_tail q = queue_head q then Inr (q, False)
      else
        bind_res (index_at (message_queue q) (queue_tail q)) (\<lambda>s.
        if length d \<le> MAX_MESSAGE_LENGTH then
          bind_res (memcpy_at (message s) 0 (chars_of d)) (\<lambda>b.
          Inr ((set_slot (queue_tail q)
                 (s\<lparr>message := b, msg_length := length d, is_binary := True,
                    large_binary_data := None, large_binary_size := 0\<rparr>) q)
                 \<lparr>queue_tail := next_tail q\<rparr>, True))
        else if \<not> mok then
          Inr (set_slot (queue_tail q) (s\<lparr>large_binary_data := None\<rparr>) q, False)
        else
          (let (p, h) = malloc_copy d (qheap q) in
           Inr ((set_slot (queue_tail q)
                  (s\<lparr>large_binary_data := Some p, large_binary_size := length d,
                     msg_length := 0, is_binary := True\<rparr>) q)
                  \<lparr>queue_tail := next_tail q, qheap := h\<rparr>, True))))"

text \<open>The result is the address and size of the block handed to the caller.\<close>

definition get_binary_message_from_queue :: "bool \<Rightarrow> queue \<Rightarrow> (queue \<times> (nat \<times> nat) option) res" where
  "get_binary_message_from_queue mok q =
     (if queue_head q = queue_tail q then Inr (q, None)
      else
        bind_res (index_at (message_queue q) (queue_head q)) (\<lambda>s.
        if \<not> is_binary s then Inr (q, None)
        else
          (let adv = (\<lambda>q'. q'\<lparr>queue_head := (queue_head q + 1) mod MAX_QUEUE_SIZE\<rparr>) in
           case large_binary_data s of
             Some p \<Rightarrow>
               Inr (adv (set_slot (queue_head q) (s\<lparr>large_binary_data := None\<rparr>) q),
                    Some (p, large_binary_size s))
           | None \<Rightarrow>
               if \<not> mok then Inr (q, None)
               else
                 bind_res (read_at (message s) 0 (msg_length s)) (\<lambda>d.
                 (let (p, h) = malloc_copy (bytes_of d) (qheap q) in
                  Inr (adv (q\<lparr>qheap := h\<rparr>), Some (p, msg_length s)))))))"

section \<open>The sequence of messages a state stands for\<close>

datatype item = Text string | Binary "byte list"

text \<open>The slots in use, oldest first.\<close>

definition live_range :: "nat \<Rightarrow> nat \<Rightarrow> nat list" where
  "live_range h t = (if h \<le> t then [h..<t] else [h..<MAX_QUEUE_SIZE] @ [0..<t])"

definition live_indices :: "queue \<Rightarrow> nat list" where
  "live_indices q = live_range (queue_head q) (queue_tail q)"

definition item_of :: "c_heap \<Rightarrow> slot \<Rightarrow> item" where
  "item_of h s =
     (if is_binary s
      then Binary (case large_binary_data s of
             None \<Rightarrow> bytes_of (take (msg_length s) (message s))
           | Some p \<Rightarrow> (case mem h p of None \<Rightarrow> [] | Some d \<Rightarrow> d))
      else Text (take (msg_length s) (message s)))"

definition queue_items :: "queue \<Rightarrow> item list" where
  "queue_items q = map (\<lambda>i. item_of (qheap q) (message_queue q ! i)) (live_indices q)"

section \<open>The invariant\<close>

text \<open>
  Every array has its size; a live slot has a length that its array or its block covers, a
  live text slot holds a terminated string of that length; a slot outside the live range
  holds no block; no two slots hold the same block.
\<close>

definition slot_ok :: "c_heap \<Rightarrow> slot \<Rightarrow> bool" where
  "slot_ok h s \<longleftrightarrow>
     (case large_binary_data s of
        Some p \<Rightarrow> is_binary s \<and> (\<exists>d. mem h p = Some d \<and> length d = large_binary_size s)
      | None \<Rightarrow> msg_length s \<le> MAX_MESSAGE_LENGTH \<and>
          (\<not> is_binary s \<longrightarrow> NUL \<in> set (message s) \<and> msg_length s = length (cstr (message s))))"

definition queue_inv :: "queue \<Rightarrow> bool" where
  "queue_inv q \<longleftrightarrow>
     length (message_queue q) = MAX_QUEUE_SIZE \<and> queue_head q < MAX_QUEUE_SIZE \<and>
     queue_tail q < MAX_QUEUE_SIZE \<and> heap_ok (qheap q) \<and>
     (\<forall>i < MAX_QUEUE_SIZE. length (message (message_queue q ! i)) = MAX_MESSAGE_LENGTH) \<and>
     (\<forall>i \<in> set (live_indices q). slot_ok (qheap q) (message_queue q ! i)) \<and>
     (\<forall>i < MAX_QUEUE_SIZE. i \<notin> set (live_indices q) \<longrightarrow>
        large_binary_data (message_queue q ! i) = None) \<and>
     (\<forall>i < MAX_QUEUE_SIZE. \<forall>j < MAX_QUEUE_SIZE. \<forall>p.
        large_binary_data (message_queue q ! i) = Some p \<longrightarrow>
        large_binary_data (message_queue q ! j) = Some p \<longrightarrow> i = j)"

text \<open>The blocks the slots own.\<close>

definition owned_blocks :: "queue \<Rightarrow> nat set" where
  "owned_blocks q = {p. \<exists>s \<in> set (message_queue q). large_binary_data s = Some p}"

definition leak_free :: "queue \<Rightarrow> bool" where
  "leak_free q \<longleftrightarrow> dom (mem (qheap q)) = owned_blocks q"

text \<open>No slot carries the binary flag: what a program that only queues text keeps.\<close>

definition text_only :: "queue \<Rightarrow> bool" where
  "text_only q \<longleftrightarrow> (\<forall>i < MAX_QUEUE_SIZE. \<not> is_binary (message_queue q ! i))"

section \<open>The live range\<close>

lemma live_range_bound: "h < MAX_QUEUE_SIZE \<Longrightarrow> t < MAX_QUEUE_SIZE \<Longrightarrow> i \<in> set (live_range h t) \<Longrightarrow> i < MAX_QUEUE_SIZE"
  by (auto simp: live_range_def split: if_splits)

lemma tail_not_live: "t \<notin> set (live_range h t)"
  by (auto simp: live_range_def)

lemma distinct_live_range: "distinct (live_range h t)"
  by (auto simp: live_range_def)

lemma live_range_empty [simp]: "live_range h t = [] \<longleftrightarrow> h = t \<or> (t < h \<and> MAX_QUEUE_SIZE \<le> h \<and> t = 0)"
  by (auto simp: live_range_def)

lemma length_live_range:
  "h < MAX_QUEUE_SIZE \<Longrightarrow> t < MAX_QUEUE_SIZE \<Longrightarrow>
   length (live_range h t) = (t + MAX_QUEUE_SIZE - h) mod MAX_QUEUE_SIZE"
  by (auto simp: live_range_def MAX_QUEUE_SIZE_def mod_if)

lemma live_range_enq:
  assumes "h < MAX_QUEUE_SIZE" and "t < MAX_QUEUE_SIZE" and "(t + 1) mod MAX_QUEUE_SIZE \<noteq> h"
  shows "live_range h ((t + 1) mod MAX_QUEUE_SIZE) = live_range h t @ [t]"
proof (cases "t + 1 = MAX_QUEUE_SIZE")
  case True
  with assms have "h \<noteq> 0" and "h \<le> t" by auto
  with True show ?thesis by (simp add: live_range_def flip: True)
next
  case False
  with assms have "(t + 1) mod MAX_QUEUE_SIZE = t + 1" by simp
  with assms show ?thesis by (auto simp: live_range_def)
qed

lemma live_range_deq:
  assumes "h < MAX_QUEUE_SIZE" and "t < MAX_QUEUE_SIZE" and "h \<noteq> t"
  shows "live_range h t = h # live_range ((h + 1) mod MAX_QUEUE_SIZE) t"
proof (cases "h + 1 = MAX_QUEUE_SIZE")
  case True
  with assms show ?thesis by (simp add: live_range_def flip: True)
next
  case False
  with assms have "(h + 1) mod MAX_QUEUE_SIZE = h + 1" by simp
  with assms show ?thesis by (auto simp: live_range_def upt_conv_Cons)
qed

lemma full_iff_length:
  assumes "h < MAX_QUEUE_SIZE" and "t < MAX_QUEUE_SIZE"
  shows "(t + 1) mod MAX_QUEUE_SIZE = h \<longleftrightarrow> length (live_range h t) = MAX_QUEUE_SIZE - 1"
  using assms by (auto simp: length_live_range MAX_QUEUE_SIZE_def mod_if)

section \<open>Preservation, in general\<close>

definition heap_extends :: "c_heap \<Rightarrow> c_heap \<Rightarrow> bool" where
  "heap_extends h h' \<longleftrightarrow> (\<forall>p d. mem h p = Some d \<longrightarrow> mem h' p = Some d)"

lemma heap_extends_refl [simp]: "heap_extends h h"
  by (simp add: heap_extends_def)

lemma heap_extends_malloc: "heap_ok h \<Longrightarrow> heap_extends h (snd (malloc_copy d h))"
  using heap_ok_fresh[of h] by (auto simp: heap_extends_def malloc_copy_def)

lemma slot_ok_extends: "slot_ok h s \<Longrightarrow> heap_extends h h' \<Longrightarrow> slot_ok h' s"
  by (auto simp: slot_ok_def heap_extends_def split: option.splits)

lemma item_of_extends: "slot_ok h s \<Longrightarrow> heap_extends h h' \<Longrightarrow> item_of h' s = item_of h s"
  by (auto simp: slot_ok_def item_of_def heap_extends_def split: option.splits)

lemma queue_invD:
  assumes "queue_inv q"
  shows "length (message_queue q) = MAX_QUEUE_SIZE" "queue_head q < MAX_QUEUE_SIZE"
    "queue_tail q < MAX_QUEUE_SIZE" "heap_ok (qheap q)"
    "i < MAX_QUEUE_SIZE \<Longrightarrow> length (message (message_queue q ! i)) = MAX_MESSAGE_LENGTH"
    "i \<in> set (live_indices q) \<Longrightarrow> slot_ok (qheap q) (message_queue q ! i)"
    "i < MAX_QUEUE_SIZE \<Longrightarrow> i \<notin> set (live_indices q) \<Longrightarrow> large_binary_data (message_queue q ! i) = None"
  using assms by (auto simp: queue_inv_def)

lemma queue_inv_unique:
  "queue_inv q \<Longrightarrow> i < MAX_QUEUE_SIZE \<Longrightarrow> j < MAX_QUEUE_SIZE \<Longrightarrow>
   large_binary_data (message_queue q ! i) = Some p \<Longrightarrow>
   large_binary_data (message_queue q ! j) = Some p \<Longrightarrow> i = j"
  unfolding queue_inv_def by blast

lemma large_allocated:
  assumes "queue_inv q" and "i < MAX_QUEUE_SIZE" and "large_binary_data (message_queue q ! i) = Some p"
  shows "mem (qheap q) p \<noteq> None"
proof -
  have "i \<in> set (live_indices q)" using assms queue_invD(7)[OF assms(1,2)] by force
  from queue_invD(6)[OF assms(1) this] assms(3) show ?thesis by (auto simp: slot_ok_def)
qed

text \<open>Writing the slot at the tail and advancing: one more item at the end.\<close>

lemma enq_step:
  assumes inv: "queue_inv q" and nf: "next_tail q \<noteq> queue_head q"
    and q': "message_queue q' = (message_queue q)[queue_tail q := s]"
      "queue_head q' = queue_head q" "queue_tail q' = next_tail q"
    and h': "heap_extends (qheap q) (qheap q')" "heap_ok (qheap q')"
    and s: "length (message s) = MAX_MESSAGE_LENGTH" "slot_ok (qheap q') s"
      "\<And>p. large_binary_data s = Some p \<Longrightarrow> mem (qheap q) p = None"
  shows "queue_inv q'" and "queue_items q' = queue_items q @ [item_of (qheap q') s]"
proof -
  let ?t = "queue_tail q"
  note D = queue_invD[OF inv]
  have live: "live_indices q' = live_indices q @ [?t]"
    using live_range_enq[OF D(2,3)] nf q' by (simp add: live_indices_def next_tail_def)
  have tnl: "?t \<notin> set (live_indices q)" by (simp add: live_indices_def tail_not_live)
  have nth: "message_queue q' ! i = (if i = ?t then s else message_queue q ! i)"
    if "i < MAX_QUEUE_SIZE" for i using that q' D(1) by simp
  have bound: "i < MAX_QUEUE_SIZE" if "i \<in> set (live_indices q)" for i
    using that live_range_bound[OF D(2,3)] by (simp add: live_indices_def)
  have inj: "i = j" if "i < MAX_QUEUE_SIZE" "j < MAX_QUEUE_SIZE"
    "large_binary_data (message_queue q' ! i) = Some p"
    "large_binary_data (message_queue q' ! j) = Some p" for i j p
    using that s(3) large_allocated[OF inv, of i p] large_allocated[OF inv, of j p]
      queue_inv_unique[OF inv, of i j p]
    by (cases "i = ?t"; cases "j = ?t") (auto simp: nth)
  show "queue_inv q'"
    unfolding queue_inv_def
  proof (intro conjI allI impI ballI)
    show "queue_tail q' < MAX_QUEUE_SIZE" using q' by (simp add: next_tail_def)
    show "\<And>i. i \<in> set (live_indices q') \<Longrightarrow> slot_ok (qheap q') (message_queue q' ! i)"
      using live tnl D(3,6) s(2) h'(1) bound by (auto simp: nth intro: slot_ok_extends[OF _ h'(1)])
  next
    show "\<And>i. i < MAX_QUEUE_SIZE \<Longrightarrow> length (message (message_queue q' ! i)) = MAX_MESSAGE_LENGTH"
      by (simp add: nth D(5) s(1))
  next
    show "\<And>i. i < MAX_QUEUE_SIZE \<Longrightarrow> i \<notin> set (live_indices q') \<Longrightarrow>
        large_binary_data (message_queue q' ! i) = None"
      using live D(7) by (auto simp: nth)
  qed (use q' D(1,2) h'(2) inj in auto)
  have "map (\<lambda>i. item_of (qheap q') (message_queue q' ! i)) (live_indices q) = queue_items q"
    unfolding queue_items_def
    by (rule map_cong[OF refl]) (use tnl bound D(6) in \<open>auto simp: nth intro: item_of_extends[OF _ h'(1)]\<close>)
  with live show "queue_items q' = queue_items q @ [item_of (qheap q') s]"
    using D(3) by (simp add: queue_items_def[of q'] nth)
qed

text \<open>Advancing the head: the first item is gone, the others stay.\<close>

lemma deq_step:
  assumes inv: "queue_inv q" and ne: "queue_head q \<noteq> queue_tail q"
    and s: "s = message_queue q ! queue_head q"
    and q': "message_queue q' = (message_queue q)[queue_head q := s\<lparr>large_binary_data := None\<rparr>]"
      "queue_head q' = (queue_head q + 1) mod MAX_QUEUE_SIZE" "queue_tail q' = queue_tail q"
    and h': "heap_extends (qheap q) (qheap q')" "heap_ok (qheap q')"
  shows "queue_inv q'" and "queue_items q = item_of (qheap q) s # queue_items q'"
proof -
  let ?h = "queue_head q"
  note D = queue_invD[OF inv]
  have live: "live_indices q = ?h # live_indices q'"
    using live_range_deq[OF D(2,3) ne] q' by (simp add: live_indices_def)
  have hnl: "?h \<notin> set (live_indices q')"
    using distinct_live_range live by (metis distinct.simps(2) live_indices_def)
  have nth: "message_queue q' ! i = (if i = ?h then s\<lparr>large_binary_data := None\<rparr> else message_queue q ! i)"
    if "i < MAX_QUEUE_SIZE" for i using that q' D(1) by simp
  have bound: "i < MAX_QUEUE_SIZE" if "i \<in> set (live_indices q')" for i
    using that live live_range_bound[OF D(2,3)] by (simp add: live_indices_def)
  have inj: "i = j" if "i < MAX_QUEUE_SIZE" "j < MAX_QUEUE_SIZE"
    "large_binary_data (message_queue q' ! i) = Some p"
    "large_binary_data (message_queue q' ! j) = Some p" for i j p
    using that queue_inv_unique[OF inv, of i j p]
    by (cases "i = ?h"; cases "j = ?h") (auto simp: nth)
  have same: "\<And>i. i \<in> set (live_indices q') \<Longrightarrow> message_queue q' ! i = message_queue q ! i"
    using hnl bound nth by metis
  show "queue_inv q'"
    unfolding queue_inv_def
  proof (intro conjI allI impI ballI)
    show "\<And>i. i \<in> set (live_indices q') \<Longrightarrow> slot_ok (qheap q') (message_queue q' ! i)"
      using live D(6) h'(1) same by (auto intro: slot_ok_extends[OF _ h'(1)])
    show "\<And>i. i < MAX_QUEUE_SIZE \<Longrightarrow> i \<notin> set (live_indices q') \<Longrightarrow>
        large_binary_data (message_queue q' ! i) = None"
      using live D(7) by (auto simp: nth)
  next
    show "\<And>i. i < MAX_QUEUE_SIZE \<Longrightarrow> length (message (message_queue q' ! i)) = MAX_MESSAGE_LENGTH"
      by (simp add: nth D(2,5) s)
  qed (use q' D(1,3) h'(2) inj in auto)
  have "map (\<lambda>i. item_of (qheap q) (message_queue q ! i)) (live_indices q') = queue_items q'"
    unfolding queue_items_def
    by (rule map_cong[OF refl]) (use live D(6) same in \<open>auto intro: item_of_extends[OF _ h'(1), symmetric]\<close>)
  with live s show "queue_items q = item_of (qheap q) s # queue_items q'"
    by (simp add: queue_items_def[of q])
qed

section \<open>What each operation does\<close>

lemma live_nonempty: "queue_inv q \<Longrightarrow> queue_head q \<noteq> queue_tail q \<Longrightarrow> queue_head q \<in> set (live_indices q)"
  using live_range_deq[of "queue_head q" "queue_tail q"] queue_invD(2,3)[of q]
  by (simp add: live_indices_def)

lemma head_slot_ok: "queue_inv q \<Longrightarrow> queue_head q \<noteq> queue_tail q \<Longrightarrow>
   slot_ok (qheap q) (message_queue q ! queue_head q)"
  using queue_invD(6) live_nonempty by blast

lemma queue_empty_iff: "queue_inv q \<Longrightarrow> queue_head q = queue_tail q \<longleftrightarrow> queue_items q = []"
  using queue_invD(2,3)[of q] by (auto simp: queue_items_def live_indices_def)

lemma queue_full_iff:
  "queue_inv q \<Longrightarrow> next_tail q = queue_head q \<longleftrightarrow> length (queue_items q) = MAX_QUEUE_SIZE - 1"
  using full_iff_length queue_invD(2,3)[of q]
  by (simp add: next_tail_def queue_items_def live_indices_def)

lemma tail_slot_free: "queue_inv q \<Longrightarrow> large_binary_data (message_queue q ! queue_tail q) = None"
  using queue_invD(3,7)[of q] by (simp add: live_indices_def tail_not_live)

text \<open>The text a slot receives: cut at 65535 characters.\<close>

definition queued_text :: "string \<Rightarrow> string" where
  "queued_text msg = take (MAX_MESSAGE_LENGTH - 1) (cstr msg)"

lemma no_nul_queued_text [simp]: "no_nul (queued_text msg)"
  by (simp add: queued_text_def no_nul_take)

lemma length_queued_text: "length (queued_text msg) < MAX_MESSAGE_LENGTH"
  by (simp add: queued_text_def MAX_MESSAGE_LENGTH_def)

lemma queued_text_id: "no_nul msg \<Longrightarrow> length msg < MAX_MESSAGE_LENGTH \<Longrightarrow> queued_text msg = msg"
  by (simp add: queued_text_def)

lemma copy_text_eq:
  assumes "length buf = MAX_MESSAGE_LENGTH"
  shows "copy_text msg buf = Inr (strncpy_block msg (MAX_MESSAGE_LENGTH - 1) @ [NUL])"
proof -
  let ?m = "MAX_MESSAGE_LENGTH - 1"
  obtain c where c: "drop ?m buf = [c]"
    using assms by (metis Cons_nth_drop_Suc MAX_MESSAGE_LENGTH_pos(1) Suc_pred' diff_less
        drop_all le_refl zero_less_one)
  have "strncpy_at buf 0 msg ?m = Inr (strncpy_block msg ?m @ [c])"
    using assms by (simp add: strncpy_at_def memcpy_at_0 c[unfolded One_nat_def])
  then show ?thesis
    using list_update_length[of "strncpy_block msg ?m" c "[]" NUL]
    by (simp add: copy_text_def store_at_def)
qed

lemma cstr_copy_text: "cstr (strncpy_block msg n @ [NUL]) = take n (cstr msg)"
proof -
  have "cstr (strncpy_block msg n @ [NUL]) = cstr (take n (cstr msg))"
    by (simp add: strncpy_block_def)
  then show ?thesis by (simp add: no_nul_take)
qed

definition item_for :: "bool \<Rightarrow> string \<Rightarrow> item" where
  "item_for bin m = (if bin then Binary (bytes_of m) else Text m)"

lemma add_message_ok:
  assumes inv: "queue_inv q" and nf: "next_tail q \<noteq> queue_head q"
  shows "\<exists>q'. add_message_to_queue msg q = Inr (q', True) \<and> queue_inv q' \<and>
    queue_items q' = queue_items q @ [item_for (is_binary (message_queue q ! queue_tail q)) (queued_text msg)] \<and>
    qheap q' = qheap q \<and> map large_binary_data (message_queue q') = map large_binary_data (message_queue q) \<and>
    map is_binary (message_queue q') = map is_binary (message_queue q)"
proof -
  note D = queue_invD[OF inv]
  let ?t = "queue_tail q" and ?s = "message_queue q ! queue_tail q"
  let ?b = "strncpy_block msg (MAX_MESSAGE_LENGTH - 1) @ [NUL]"
  let ?s' = "?s\<lparr>message := ?b, msg_length := length (cstr ?b)\<rparr>"
  let ?q' = "(set_slot ?t ?s' q)\<lparr>queue_tail := next_tail q\<rparr>"
  have eq: "add_message_to_queue msg q = Inr (?q', True)"
    using nf D(1,3,5) by (simp add: add_message_to_queue_def mem_simps copy_text_eq)
  have free: "large_binary_data ?s = None" by (rule tail_slot_free[OF inv])
  have len: "length (message ?s') = MAX_MESSAGE_LENGTH" by simp
  have ok: "slot_ok (qheap q) ?s'"
    using free length_cstr_less[of ?b] by (simp add: slot_ok_def)
  have q': "message_queue ?q' = (message_queue q)[?t := ?s']" "queue_head ?q' = queue_head q"
    "queue_tail ?q' = next_tail q" "qheap ?q' = qheap q"
    by (simp_all add: set_slot_def)
  note step = enq_step[OF inv nf q'(1-3), unfolded q'(4), OF heap_extends_refl D(4) len ok]
  have cs: "cstr ?b = queued_text msg" by (simp only: cstr_copy_text queued_text_def)
  have tk: "take (length (queued_text msg)) ?b = queued_text msg"
    using take_cstr[of ?b] unfolding cs .
  have it: "item_of (qheap q) ?s' = item_for (is_binary ?s) (queued_text msg)"
    using free cs tk by (simp add: item_of_def item_for_def)
  have maps: "map large_binary_data (message_queue ?q') = map large_binary_data (message_queue q)"
    "map is_binary (message_queue ?q') = map is_binary (message_queue q)"
    by (simp_all only: q'(1)) (rule map_update_same, simp)+
  show ?thesis
    using eq step it q'(4) maps free by (intro exI[of _ ?q']) simp
qed

lemma head_item:
  assumes "queue_inv q" and "queue_items q = it # rest"
  shows "queue_head q \<noteq> queue_tail q" and "it = item_of (qheap q) (message_queue q ! queue_head q)"
proof -
  show ne: "queue_head q \<noteq> queue_tail q" using assms queue_empty_iff by force
  have "live_indices q = queue_head q # tl (live_indices q)"
    using live_range_deq[OF queue_invD(2,3)[OF assms(1)] ne] by (simp add: live_indices_def)
  then show "it = item_of (qheap q) (message_queue q ! queue_head q)"
    using assms(2) by (metis list.inject list.simps(9) queue_items_def)
qed

lemma slot_large_None [simp]: "large_binary_data s = None \<Longrightarrow> s\<lparr>large_binary_data := None\<rparr> = s"
  by (cases s) simp

text \<open>Taking a text message: the caller's array starts with it.\<close>

lemma get_message_ok:
  assumes inv: "queue_inv q" and it: "queue_items q = Text m # rest"
    and dst: "length dst = MAX_MESSAGE_LENGTH"
  shows "\<exists>q' dst'. get_message_from_queue dst q = Inr (q', Some (dst', length m)) \<and>
    take (length m) dst' = m \<and> length dst' = MAX_MESSAGE_LENGTH \<and> length m < MAX_MESSAGE_LENGTH \<and>
    queue_inv q' \<and> queue_items q' = rest \<and> qheap q' = qheap q \<and> message_queue q' = message_queue q"
proof -
  note D = queue_invD[OF inv]
  let ?s = "message_queue q ! queue_head q"
  let ?q' = "q\<lparr>queue_head := (queue_head q + 1) mod MAX_QUEUE_SIZE\<rparr>"
  note H = head_item[OF inv it]
  have nb: "\<not> is_binary ?s" and m: "m = take (msg_length ?s) (message ?s)"
    using H(2) by (auto simp: item_of_def split: if_splits)
  have ok: "large_binary_data ?s = None" "NUL \<in> set (message ?s)" "msg_length ?s = length (cstr (message ?s))"
    using head_slot_ok[OF inv H(1)] nb by (auto simp: slot_ok_def split: option.splits)
  have mc: "m = cstr (message ?s)" using m ok(3) by (simp add: take_cstr)
  have lm: "length m < MAX_MESSAGE_LENGTH"
    using length_cstr_less[OF ok(2)] D(5)[OF D(2)] mc by simp
  let ?dst = "(m @ [NUL]) @ drop (length (m @ [NUL])) dst"
  have sc: "strcpy_arr dst (message ?s) = Inr ?dst"
    using ok(2) lm dst mc by (simp add: strcpy_arr_def memcpy_at_0)
  have eq: "get_message_from_queue dst q = Inr (?q', Some (?dst, length m))"
    using H(1) D(1,2) sc ok(3) mc by (simp add: get_message_from_queue_def mem_simps)
  have q': "message_queue ?q' = (message_queue q)[queue_head q := ?s\<lparr>large_binary_data := None\<rparr>]"
    "queue_head ?q' = (queue_head q + 1) mod MAX_QUEUE_SIZE" "queue_tail ?q' = queue_tail q"
    "qheap ?q' = qheap q"
    using ok(1) by simp_all
  note step = deq_step[OF inv H(1) refl q'(1-3), unfolded q'(4), OF heap_extends_refl D(4)]
  have "queue_items ?q' = rest" using step(2) it by simp
  then show ?thesis
    using eq step(1) lm dst by (intro exI[of _ ?q'] exI[of _ ?dst]) simp
qed

text \<open>Asking for a binary message when the first one is text, or there is none, changes nothing.\<close>

lemma get_binary_text:
  assumes inv: "queue_inv q" and it: "queue_items q = Text m # rest"
  shows "get_binary_message_from_queue mok q = Inr (q, None)"
proof -
  note D = queue_invD[OF inv] and H = head_item[OF inv it]
  have "\<not> is_binary (message_queue q ! queue_head q)"
    using H(2) by (auto simp: item_of_def split: if_splits)
  with H(1) D(1,2) show ?thesis by (simp add: get_binary_message_from_queue_def mem_simps)
qed

lemma get_empty:
  assumes "queue_inv q" and "queue_items q = []"
  shows "get_binary_message_from_queue mok q = Inr (q, None)"
    and "get_message_from_queue dst q = Inr (q, None)"
  using assms queue_empty_iff[of q]
  by (simp_all add: get_binary_message_from_queue_def get_message_from_queue_def)

section \<open>Binary messages and who owns their blocks\<close>

lemma owned_index:
  "queue_inv q \<Longrightarrow> p \<in> owned_blocks q \<longleftrightarrow> (\<exists>i < MAX_QUEUE_SIZE. large_binary_data (message_queue q ! i) = Some p)"
  using queue_invD(1)[of q] by (auto simp: owned_blocks_def in_set_conv_nth Bex_def)

lemma owned_allocated: "queue_inv q \<Longrightarrow> p \<in> owned_blocks q \<Longrightarrow> p \<in> dom (mem (qheap q))"
  using large_allocated by (auto simp: owned_index)

lemma owned_maps_eq:
  "map large_binary_data (message_queue q') = map large_binary_data (message_queue q) \<Longrightarrow>
   owned_blocks q' = owned_blocks q"
proof -
  assume "map large_binary_data (message_queue q') = map large_binary_data (message_queue q)"
  then have "large_binary_data ` set (message_queue q') = large_binary_data ` set (message_queue q)"
    by (metis set_map)
  moreover have "owned_blocks r = {p. Some p \<in> large_binary_data ` set (message_queue r)}" for r
    by (auto simp: owned_blocks_def image_iff) metis+
  ultimately show ?thesis by simp
qed

lemma owned_blocks_gain:
  assumes inv: "queue_inv q" "queue_inv q'" and t: "t < MAX_QUEUE_SIZE"
    and old: "large_binary_data (message_queue q ! t) = None"
    and nth: "\<And>i. i < MAX_QUEUE_SIZE \<Longrightarrow> large_binary_data (message_queue q' ! i) =
      (if i = t then Some p else large_binary_data (message_queue q ! i))"
  shows "owned_blocks q' = insert p (owned_blocks q)"
proof (rule set_eqI)
  fix x
  have "x \<in> owned_blocks q' \<longleftrightarrow> (\<exists>i < MAX_QUEUE_SIZE. (if i = t then x = p
      else large_binary_data (message_queue q ! i) = Some x))"
    using owned_index[OF inv(2), of x] nth by (auto split: if_splits)
  also have "\<dots> \<longleftrightarrow> x = p \<or> x \<in> owned_blocks q"
    using t old owned_index[OF inv(1), of x] by (auto split: if_splits) (metis option.distinct(1))
  finally show "x \<in> owned_blocks q' \<longleftrightarrow> x \<in> insert p (owned_blocks q)" by simp
qed

lemma owned_blocks_lose:
  assumes inv: "queue_inv q" "queue_inv q'" and h: "t < MAX_QUEUE_SIZE"
    and old: "large_binary_data (message_queue q ! t) = Some p"
    and nth: "\<And>i. i < MAX_QUEUE_SIZE \<Longrightarrow> large_binary_data (message_queue q' ! i) =
      (if i = t then None else large_binary_data (message_queue q ! i))"
  shows "owned_blocks q' = owned_blocks q - {p}"
proof (rule set_eqI)
  fix x
  have "x \<in> owned_blocks q' \<longleftrightarrow>
      (\<exists>i < MAX_QUEUE_SIZE. i \<noteq> t \<and> large_binary_data (message_queue q ! i) = Some x)"
  proof -
    have "large_binary_data (message_queue q' ! i) = Some x \<longleftrightarrow>
        i \<noteq> t \<and> large_binary_data (message_queue q ! i) = Some x" if "i < MAX_QUEUE_SIZE" for i
      using that by (simp add: nth)
    with owned_index[OF inv(2), of x] show ?thesis by blast
  qed
  also have "\<dots> \<longleftrightarrow> x \<in> owned_blocks q \<and> x \<noteq> p"
  proof -
    have "i = t" if "i < MAX_QUEUE_SIZE" "large_binary_data (message_queue q ! i) = Some p" for i
      using queue_inv_unique[OF inv(1) that(1) h that(2) old] .
    with owned_index[OF inv(1), of x] old show ?thesis by (metis option.inject)
  qed
  finally show "x \<in> owned_blocks q' \<longleftrightarrow> x \<in> owned_blocks q - {p}" by simp
qed

lemma add_binary_small_ok:
  assumes inv: "queue_inv q" and nf: "next_tail q \<noteq> queue_head q"
    and small: "length d \<le> MAX_MESSAGE_LENGTH"
  shows "\<exists>q'. add_binary_message_to_queue mok d q = Inr (q', True) \<and> queue_inv q' \<and>
    queue_items q' = queue_items q @ [Binary d] \<and> qheap q' = qheap q \<and>
    owned_blocks q' = owned_blocks q"
proof -
  note D = queue_invD[OF inv]
  let ?s = "message_queue q ! queue_tail q"
  let ?b = "chars_of d @ drop (length d) (message ?s)"
  let ?s' = "?s\<lparr>message := ?b, msg_length := length d, is_binary := True,
     large_binary_data := None, large_binary_size := 0\<rparr>"
  let ?q' = "(set_slot (queue_tail q) ?s' q)\<lparr>queue_tail := next_tail q\<rparr>"
  have eq: "add_binary_message_to_queue mok d q = Inr (?q', True)"
    using nf D(1,3) D(5)[OF D(3)] small
    by (simp add: add_binary_message_to_queue_def index_at_ok memcpy_at_0)
  have q': "message_queue ?q' = (message_queue q)[queue_tail q := ?s']" "queue_head ?q' = queue_head q"
    "queue_tail ?q' = next_tail q" "qheap ?q' = qheap q"
    by (simp_all add: set_slot_def)
  have len: "length (message ?s') = MAX_MESSAGE_LENGTH" using D(5)[OF D(3)] small by simp
  have ok: "slot_ok (qheap q) ?s'" using small by (simp add: slot_ok_def)
  have "item_of (qheap q) ?s' = Binary d" by (simp add: item_of_def)
  moreover note enq_step[OF inv nf q'(1-3), unfolded q'(4), OF heap_extends_refl D(4) len ok]
  moreover have "map large_binary_data (message_queue ?q') = map large_binary_data (message_queue q)"
    unfolding q'(1) by (rule map_update_same) (simp add: tail_slot_free[OF inv])
  ultimately show ?thesis
    using eq q'(4) owned_maps_eq[of ?q' q] by (intro exI[of _ ?q']) simp
qed

lemma add_binary_large_ok:
  assumes inv: "queue_inv q" and nf: "next_tail q \<noteq> queue_head q"
    and large: "MAX_MESSAGE_LENGTH < length d"
  shows "\<exists>q' p. add_binary_message_to_queue True d q = Inr (q', True) \<and> queue_inv q' \<and>
    queue_items q' = queue_items q @ [Binary d] \<and>
    dom (mem (qheap q')) = insert p (dom (mem (qheap q))) \<and> owned_blocks q' = insert p (owned_blocks q)"
proof -
  note D = queue_invD[OF inv]
  let ?s = "message_queue q ! queue_tail q" and ?p = "brk (qheap q)"
  let ?h = "snd (malloc_copy d (qheap q))"
  let ?s' = "?s\<lparr>large_binary_data := Some ?p, large_binary_size := length d,
     msg_length := 0, is_binary := True\<rparr>"
  let ?q' = "(set_slot (queue_tail q) ?s' q)\<lparr>queue_tail := next_tail q, qheap := ?h\<rparr>"
  have eq: "add_binary_message_to_queue True d q = Inr (?q', True)"
    using nf D(1,3) large
    by (simp add: add_binary_message_to_queue_def index_at_ok malloc_copy_def)
  have q': "message_queue ?q' = (message_queue q)[queue_tail q := ?s']" "queue_head ?q' = queue_head q"
    "queue_tail ?q' = next_tail q" "qheap ?q' = ?h"
    by (simp_all add: set_slot_def)
  have len: "length (message ?s') = MAX_MESSAGE_LENGTH" using D(5)[OF D(3)] by simp
  have ok: "slot_ok ?h ?s'" by (simp add: slot_ok_def malloc_copy_def)
  have it: "item_of ?h ?s' = Binary d" by (simp add: item_of_def malloc_copy_def)
  note fresh = heap_ok_fresh[OF D(4)]
  have new: "\<And>p. large_binary_data ?s' = Some p \<Longrightarrow> mem (qheap q) p = None" using fresh by simp
  note step = enq_step[OF inv nf q'(1-3), unfolded q'(4), OF heap_extends_malloc[OF D(4)]
      heap_ok_malloc[OF D(4)] len ok new]
  have nth: "large_binary_data (message_queue ?q' ! i) = (if i = queue_tail q then Some ?p
      else large_binary_data (message_queue q ! i))" if "i < MAX_QUEUE_SIZE" for i
    using that D(1) q'(1) by simp
  have "owned_blocks ?q' = insert ?p (owned_blocks q)"
    by (rule owned_blocks_gain[OF inv step(1) D(3) tail_slot_free[OF inv] nth])
  moreover have "dom (mem ?h) = insert ?p (dom (mem (qheap q)))" by (simp add: malloc_copy_def)
  ultimately show ?thesis
    using eq step it q'(4) by (intro exI[of _ ?q'] exI[of _ ?p]) simp
qed

lemma get_binary_ok:
  assumes inv: "queue_inv q" and it: "queue_items q = Binary d # rest"
  shows "\<exists>q' p. get_binary_message_from_queue True q = Inr (q', Some (p, length d)) \<and>
    mem (qheap q') p = Some d \<and> queue_inv q' \<and> queue_items q' = rest \<and> p \<notin> owned_blocks q' \<and>
    insert p (owned_blocks q') \<union> (dom (mem (qheap q)) - owned_blocks q) = dom (mem (qheap q'))"
proof -
  note D = queue_invD[OF inv]
  note H = head_item[OF inv it]
  let ?s = "message_queue q ! queue_head q" and ?hd = "(queue_head q + 1) mod MAX_QUEUE_SIZE"
  let ?s' = "?s\<lparr>large_binary_data := None\<rparr>"
  have bin: "is_binary ?s" using H(2) by (auto simp: item_of_def split: if_splits)
  note ok = head_slot_ok[OF inv H(1)]
  show ?thesis
  proof (cases "large_binary_data ?s")
    case (Some p)
    with ok H(2) bin have p: "mem (qheap q) p = Some d" "length d = large_binary_size ?s"
      by (auto simp: slot_ok_def item_of_def)
    let ?q' = "(set_slot (queue_head q) ?s' q)\<lparr>queue_head := ?hd\<rparr>"
    have eq: "get_binary_message_from_queue True q = Inr (?q', Some (p, length d))"
      using H(1) D(1,2) Some bin p(2) by (simp add: get_binary_message_from_queue_def index_at_ok)
    have q': "message_queue ?q' = (message_queue q)[queue_head q := ?s']" "queue_head ?q' = ?hd"
      "queue_tail ?q' = queue_tail q" "qheap ?q' = qheap q"
      by (simp_all add: set_slot_def)
    note step = deq_step[OF inv H(1) refl q'(1-3), unfolded q'(4), OF heap_extends_refl D(4)]
    have nth: "large_binary_data (message_queue ?q' ! i) = (if i = queue_head q then None
        else large_binary_data (message_queue q ! i))" if "i < MAX_QUEUE_SIZE" for i
      using that D(1) q'(1) by simp
    have own: "owned_blocks ?q' = owned_blocks q - {p}"
      by (rule owned_blocks_lose[OF inv step(1) D(2) Some nth])
    have "p \<in> owned_blocks q" using Some D(2) owned_index[OF inv] by blast
    then have "insert p (owned_blocks ?q') \<union> (dom (mem (qheap q)) - owned_blocks q) = dom (mem (qheap ?q'))"
      using own q'(4) owned_allocated[OF inv] by auto
    with eq step it own p q'(4) show ?thesis by (intro exI[of _ ?q'] exI[of _ p]) simp
  next
    case None
    with ok H(2) bin have d: "d = bytes_of (take (msg_length ?s) (message ?s))"
      "msg_length ?s \<le> MAX_MESSAGE_LENGTH"
      by (auto simp: slot_ok_def item_of_def)
    let ?p = "brk (qheap q)" and ?h = "snd (malloc_copy d (qheap q))"
    let ?q' = "q\<lparr>qheap := ?h, queue_head := ?hd\<rparr>"
    have ld: "length d = msg_length ?s" using d D(5)[OF D(2)] by simp
    have eq: "get_binary_message_from_queue True q = Inr (?q', Some (?p, length d))"
      using H(1) D(1,2) None bin D(5)[OF D(2)] d ld
      by (simp add: get_binary_message_from_queue_def index_at_ok read_at_ok malloc_copy_def)
    have q': "message_queue ?q' = (message_queue q)[queue_head q := ?s']" "queue_head ?q' = ?hd"
      "queue_tail ?q' = queue_tail q" "qheap ?q' = ?h"
      using None by simp_all
    note step = deq_step[OF inv H(1) refl q'(1-3), unfolded q'(4), OF heap_extends_malloc[OF D(4)]
        heap_ok_malloc[OF D(4)]]
    have own: "owned_blocks ?q' = owned_blocks q" by (simp add: owned_blocks_def)
    have "?p \<notin> dom (mem (qheap q))" using heap_ok_fresh[OF D(4)] by auto
    with own owned_allocated[OF inv] have "?p \<notin> owned_blocks ?q'" by blast
    moreover have "dom (mem ?h) = insert ?p (dom (mem (qheap q)))" by (simp add: malloc_copy_def)
    ultimately show ?thesis
      using eq step it own q'(4) owned_allocated[OF inv]
      by (intro exI[of _ ?q'] exI[of _ ?p]) (auto simp: malloc_copy_def)
  qed
qed

text \<open>Freeing a block that no slot owns.\<close>

lemma free_unowned:
  assumes inv: "queue_inv q" and p: "mem (qheap q) p = Some d" "p \<notin> owned_blocks q"
    and h': "free_blk p (qheap q) = Inr h'"
  shows "queue_inv (q\<lparr>qheap := h'\<rparr>)" and "queue_items (q\<lparr>qheap := h'\<rparr>) = queue_items q"
    and "dom (mem h') = dom (mem (qheap q)) - {p}"
proof -
  note D = queue_invD[OF inv]
  have mh: "mem h' = (mem (qheap q))(p := None)" using p h' by (auto simp: free_blk_def)
  have lt: "i < MAX_QUEUE_SIZE" if "i \<in> set (live_indices q)" for i
    using that live_range_bound[OF D(2,3)] by (simp add: live_indices_def)
  have ne: "large_binary_data (message_queue q ! i) \<noteq> Some p" if "i \<in> set (live_indices q)" for i
    using p(2) owned_index[OF inv] lt[OF that] by blast
  have li: "live_indices (q\<lparr>qheap := h'\<rparr>) = live_indices q" by (simp add: live_indices_def)
  have "slot_ok h' (message_queue q ! i)" if "i \<in> set (live_indices q)" for i
    using D(6)[OF that] ne[OF that] mh by (auto simp: slot_ok_def split: option.splits)
  then show "queue_inv (q\<lparr>qheap := h'\<rparr>)"
    using inv heap_ok_free[OF D(4) h'] by (simp add: queue_inv_def li)
  show "queue_items (q\<lparr>qheap := h'\<rparr>) = queue_items q"
    unfolding queue_items_def li
    by (rule map_cong[OF refl]) (use ne mh in \<open>auto simp: item_of_def split: option.splits\<close>)
  show "dom (mem h') = dom (mem (qheap q)) - {p}" using mh by auto
qed

section \<open>Initialisation and cleanup\<close>

lemma live_static [simp]: "live_indices static_queue = []"
  by (simp add: live_indices_def static_queue_def)

lemma nth_static [simp]: "i < MAX_QUEUE_SIZE \<Longrightarrow> message_queue static_queue ! i = zero_slot"
  by (simp add: static_queue_def)

lemma init_static [simp]: "init_message_queue static_queue = static_queue"
  by (simp add: init_message_queue_def static_queue_def)

lemma queue_inv_static: "queue_inv static_queue"
  unfolding queue_inv_def by (simp add: zero_slot_def) (simp add: static_queue_def)

lemma items_static [simp]: "queue_items static_queue = []"
  by (simp add: queue_items_def)

lemma leak_free_static: "leak_free static_queue"
  by (simp add: leak_free_def owned_blocks_def static_queue_def zero_slot_def empty_heap_def)

lemma text_only_static: "text_only static_queue"
  by (simp add: text_only_def zero_slot_def)

text \<open>Freeing the blocks of a list of slots, when no two of them share one.\<close>

fun unshared :: "slot list \<Rightarrow> bool" where
  "unshared [] = True"
| "unshared (s # ss) \<longleftrightarrow>
     (\<forall>p. large_binary_data s = Some p \<longrightarrow> Some p \<notin> large_binary_data ` set ss) \<and> unshared ss"

lemma unsharedI:
  "(\<And>i j p. i < length ss \<Longrightarrow> j < length ss \<Longrightarrow> large_binary_data (ss ! i) = Some p \<Longrightarrow>
     large_binary_data (ss ! j) = Some p \<Longrightarrow> i = j) \<Longrightarrow> unshared ss"
proof (induction ss)
  case Nil
  show ?case by simp
next
  case (Cons s ss)
  have "unshared ss"
    by (rule Cons.IH) (use Cons.prems[of "Suc _" "Suc _"] in auto)
  moreover have "Some p \<notin> large_binary_data ` set ss" if "large_binary_data s = Some p" for p
  proof
    assume "Some p \<in> large_binary_data ` set ss"
    then obtain j where "j < length ss" "large_binary_data (ss ! j) = Some p"
      by (auto simp: in_set_conv_nth image_iff)
    with that Cons.prems[of 0 "Suc j" p] show False by simp
  qed
  ultimately show ?case by simp
qed

definition slot_blocks :: "slot list \<Rightarrow> nat set" where
  "slot_blocks ss = {p. \<exists>s \<in> set ss. large_binary_data s = Some p}"

lemma slot_blocks_Nil [simp]: "slot_blocks [] = {}"
  by (simp add: slot_blocks_def)

lemma slot_blocks_Cons:
  "slot_blocks (s # ss) = (case large_binary_data s of None \<Rightarrow> {} | Some p \<Rightarrow> {p}) \<union> slot_blocks ss"
  by (auto simp: slot_blocks_def split: option.splits)

lemma unshared_Cons:
  "unshared (s # ss) \<Longrightarrow> large_binary_data s = Some p \<Longrightarrow> p \<notin> slot_blocks ss"
  by (auto simp: slot_blocks_def image_iff)

lemma free_slots_ok:
  "unshared ss \<Longrightarrow> slot_blocks ss \<subseteq> dom (mem h) \<Longrightarrow>
   \<exists>ss' h'. free_slots ss h = Inr (ss', h') \<and> slot_blocks ss' = {} \<and> length ss' = length ss \<and>
     dom (mem h') = dom (mem h) - slot_blocks ss"
proof (induction ss arbitrary: h)
  case Nil
  then show ?case by simp
next
  case (Cons s ss)
  have us: "unshared ss" using Cons.prems(1) by simp
  show ?case
  proof (cases "large_binary_data s")
    case None
    have "slot_blocks ss \<subseteq> dom (mem h)" using Cons.prems(2) by (simp add: slot_blocks_Cons None)
    from Cons.IH[OF us this] None show ?thesis by (auto simp: slot_blocks_Cons)
  next
    case (Some p)
    let ?h = "h\<lparr>mem := (mem h)(p := None)\<rparr>"
    have p: "p \<in> dom (mem h)" "slot_blocks ss \<subseteq> dom (mem h)"
      using Cons.prems(2) by (auto simp: slot_blocks_Cons Some)
    have "p \<notin> slot_blocks ss" by (rule unshared_Cons[OF Cons.prems(1) Some])
    with p have "slot_blocks ss \<subseteq> dom (mem ?h)" by auto
    from Cons.IH[OF us this] obtain ss' h' where IH: "free_slots ss ?h = Inr (ss', h')"
      "slot_blocks ss' = {}" "length ss' = length ss" "dom (mem h') = dom (mem ?h) - slot_blocks ss"
      by blast
    from p(1) have "free_blk p h = Inr ?h" by (auto simp: free_blk_def)
    with IH Some show ?thesis by (auto simp: slot_blocks_Cons)
  qed
qed

lemma cleanup_ok:
  assumes inv: "queue_inv q"
  shows "\<exists>q'. cleanup_message_queue q = Inr q' \<and> owned_blocks q' = {} \<and>
    dom (mem (qheap q')) = dom (mem (qheap q)) - owned_blocks q"
proof -
  have own: "owned_blocks r = slot_blocks (message_queue r)" for r
    by (simp add: owned_blocks_def slot_blocks_def)
  have "unshared (message_queue q)"
    by (rule unsharedI) (use queue_invD(1)[OF inv] queue_inv_unique[OF inv] in auto)
  moreover have "slot_blocks (message_queue q) \<subseteq> dom (mem (qheap q))"
    using owned_allocated[OF inv] by (auto simp flip: own)
  ultimately obtain ss h where "free_slots (message_queue q) (qheap q) = Inr (ss, h)"
    "slot_blocks ss = {}" "dom (mem h) = dom (mem (qheap q)) - slot_blocks (message_queue q)"
    using free_slots_ok by blast
  then show ?thesis by (simp add: cleanup_message_queue_def own)
qed

section \<open>The queue is a bounded queue\<close>

text \<open>
  The two ways the program uses it: for text, where no slot has ever held binary data, and
  for binary messages.  Taking an item is what the WebSocket callback does with it: the
  text is what \<open>memcpy\<close> takes from the array, and the block of a binary message is freed.
\<close>

definition take_text :: "queue \<Rightarrow> (queue \<times> string option) res" where
  "take_text q =
     bind_res (get_message_from_queue (replicate MAX_MESSAGE_LENGTH NUL) q) (\<lambda>(q', r).
     Inr (q', map_option (\<lambda>(b, n). take n b) r))"

definition take_binary :: "queue \<Rightarrow> (queue \<times> byte list option) res" where
  "take_binary q =
     bind_res (get_binary_message_from_queue True q) (\<lambda>(q', r).
       case r of
         None \<Rightarrow> Inr (q', None)
       | Some (p, n) \<Rightarrow>
           bind_res (load_blk p (qheap q')) (\<lambda>d.
           bind_res (free_blk p (qheap q')) (\<lambda>h.
           Inr (q'\<lparr>qheap := h\<rparr>, Some (take n d)))))"

definition text_of :: "item \<Rightarrow> string" where
  "text_of x = (case x of Text m \<Rightarrow> m | Binary d \<Rightarrow> chars_of d)"

definition data_of :: "item \<Rightarrow> byte list" where
  "data_of x = (case x of Text m \<Rightarrow> bytes_of m | Binary d \<Rightarrow> d)"

definition is_data :: "item \<Rightarrow> bool" where
  "is_data x = (case x of Text m \<Rightarrow> False | Binary d \<Rightarrow> True)"

definition queued_texts :: "queue \<Rightarrow> string list" where
  "queued_texts q = map text_of (queue_items q)"

definition queued_data :: "queue \<Rightarrow> byte list list" where
  "queued_data q = map data_of (queue_items q)"

definition text_queue :: "queue \<Rightarrow> bool" where
  "text_queue q \<longleftrightarrow> queue_inv q \<and> text_only q \<and> leak_free q"

definition binary_queue :: "queue \<Rightarrow> bool" where
  "binary_queue q \<longleftrightarrow> queue_inv q \<and> (\<forall>x \<in> set (queue_items q). is_data x) \<and> leak_free q"

definition short_text :: "string \<Rightarrow> bool" where
  "short_text m \<longleftrightarrow> no_nul m \<and> length m < MAX_MESSAGE_LENGTH"

definition queue_capacity :: nat where
  "queue_capacity = MAX_QUEUE_SIZE - 1"

lemma queue_not_full:
  "queue_inv q \<Longrightarrow> length (queue_items q) < queue_capacity \<Longrightarrow> next_tail q \<noteq> queue_head q"
  by (simp add: queue_full_iff queue_capacity_def)

lemma queue_items_bound:
  assumes "queue_inv q"
  shows "length (queue_items q) \<le> queue_capacity"
proof -
  have "length (live_range h t) \<le> MAX_QUEUE_SIZE - 1" if "h < MAX_QUEUE_SIZE" "t < MAX_QUEUE_SIZE" for h t
    using that by (auto simp: live_range_def)
  then show ?thesis
    using queue_invD(2,3)[OF assms] by (simp add: queue_items_def live_indices_def queue_capacity_def)
qed

lemma text_only_items:
  assumes "queue_inv q" and "text_only q" and "x \<in> set (queue_items q)"
  shows "\<exists>m. x = Text m"
  using assms live_range_bound[OF queue_invD(2,3)[OF assms(1)]]
  by (auto simp: queue_items_def live_indices_def text_only_def item_of_def)

lemma text_only_map:
  assumes "map is_binary (message_queue q') = map is_binary (message_queue q)"
    and "queue_inv q" and "queue_inv q'" and "text_only q"
  shows "text_only q'"
  unfolding text_only_def
proof (intro allI impI)
  fix i assume "i < MAX_QUEUE_SIZE"
  then have "is_binary (message_queue q' ! i) = is_binary (message_queue q ! i)"
    using assms(1) queue_invD(1)[OF assms(2)] queue_invD(1)[OF assms(3)] by (metis nth_map)
  with assms(4) \<open>i < MAX_QUEUE_SIZE\<close> show "\<not> is_binary (message_queue q' ! i)" by (simp add: text_only_def)
qed

lemma add_text_ok:
  assumes q: "text_queue q" and room: "length (queue_items q) < queue_capacity"
  shows "\<exists>q'. add_message_to_queue msg q = Inr (q', True) \<and> text_queue q' \<and>
    queue_items q' = queue_items q @ [Text (queued_text msg)]"
proof -
  have inv: "queue_inv q" "text_only q" "leak_free q" using q by (simp_all add: text_queue_def)
  from add_message_ok[OF inv(1) queue_not_full[OF inv(1) room], of msg] obtain q' where
    q': "add_message_to_queue msg q = Inr (q', True)" "queue_inv q'"
    "queue_items q' = queue_items q @ [item_for (is_binary (message_queue q ! queue_tail q)) (queued_text msg)]"
    "qheap q' = qheap q" "map large_binary_data (message_queue q') = map large_binary_data (message_queue q)"
    "map is_binary (message_queue q') = map is_binary (message_queue q)"
    by blast
  have "\<not> is_binary (message_queue q ! queue_tail q)"
    using inv(2) queue_invD(3)[OF inv(1)] by (simp add: text_only_def)
  moreover have "leak_free q'"
    using inv(3) owned_maps_eq[OF q'(5)] q'(4) by (simp add: leak_free_def)
  moreover have "text_only q'" using text_only_map[OF q'(6) inv(1) q'(2) inv(2)] .
  ultimately show ?thesis using q' by (simp add: text_queue_def item_for_def)
qed

lemma add_text_full:
  assumes "queue_inv q" and "queue_capacity \<le> length (queue_items q)"
  shows "add_message_to_queue msg q = Inr (q, False)"
  using assms queue_items_bound[OF assms(1)] queue_full_iff[OF assms(1)]
  by (simp add: add_message_to_queue_def queue_capacity_def)

lemma get_text_ok:
  assumes q: "text_queue q" and it: "queue_items q = x # rest" and dst: "length dst = MAX_MESSAGE_LENGTH"
  shows "\<exists>q' dst' m. x = Text m \<and> get_message_from_queue dst q = Inr (q', Some (dst', length m)) \<and>
    take (length m) dst' = m \<and> length m < MAX_MESSAGE_LENGTH \<and> length dst' = MAX_MESSAGE_LENGTH \<and>
    text_queue q' \<and> queue_items q' = rest"
proof -
  have inv: "queue_inv q" "text_only q" "leak_free q" using q by (simp_all add: text_queue_def)
  obtain m where m: "x = Text m" using text_only_items[OF inv(1,2)] it by (metis list.set_intros(1))
  from get_message_ok[OF inv(1) it[unfolded m] dst] obtain q' dst' where
    q': "get_message_from_queue dst q = Inr (q', Some (dst', length m))" "take (length m) dst' = m"
    "length m < MAX_MESSAGE_LENGTH" "length dst' = MAX_MESSAGE_LENGTH" "queue_inv q'" "queue_items q' = rest"
    "qheap q' = qheap q" "message_queue q' = message_queue q" by blast
  have "text_only q'" "leak_free q'"
    using inv(2,3) q'(7,8) by (simp_all add: text_only_def leak_free_def owned_blocks_def)
  with q' m show ?thesis by (auto simp: text_queue_def)
qed

interpretation texts: bounded_queue add_message_to_queue take_text queued_texts text_queue short_text queue_capacity
proof unfold_locales
  show "\<exists>q'. add_message_to_queue m q = Inr (q', True) \<and> text_queue q' \<and> queued_texts q' = queued_texts q @ [m]"
    if "text_queue q" "short_text m" "length (queued_texts q) < queue_capacity" for q m
    using add_text_ok[OF that(1), of m] that(2,3)
    by (auto simp: queued_texts_def text_of_def short_text_def queued_text_id)
  show "add_message_to_queue m q = Inr (q, False)"
    if "text_queue q" "queue_capacity \<le> length (queued_texts q)" for q m
    using that add_text_full by (simp add: queued_texts_def text_queue_def)
  show "take_text q = Inr (q, None)" if "text_queue q" "queued_texts q = []" for q
    using that get_empty(2)[of q] by (simp add: queued_texts_def text_queue_def take_text_def)
  show "\<exists>q'. take_text q = Inr (q', Some m) \<and> text_queue q' \<and> queued_texts q' = ms"
    if "text_queue q" "queued_texts q = m # ms" for q m ms
  proof -
    from that(2) obtain x rest where it: "queue_items q = x # rest" "m = text_of x" "ms = map text_of rest"
      by (auto simp: queued_texts_def)
    from get_text_ok[OF that(1) it(1), of "replicate MAX_MESSAGE_LENGTH NUL"] it(2,3) show ?thesis
      by (auto simp: take_text_def queued_texts_def text_of_def)
  qed
qed

lemma add_binary_full:
  assumes "queue_inv q" and "queue_capacity \<le> length (queue_items q)"
  shows "add_binary_message_to_queue mok d q = Inr (q, False)"
  using assms queue_items_bound[OF assms(1)] queue_full_iff[OF assms(1)]
  by (simp add: add_binary_message_to_queue_def queue_capacity_def)

lemma add_binary_ok:
  assumes q: "binary_queue q" and room: "length (queue_items q) < queue_capacity"
  shows "\<exists>q'. add_binary_message_to_queue True d q = Inr (q', True) \<and> binary_queue q' \<and>
    queue_items q' = queue_items q @ [Binary d]"
proof -
  have inv: "queue_inv q" "\<forall>x \<in> set (queue_items q). is_data x" "leak_free q"
    using q by (simp_all add: binary_queue_def)
  note nf = queue_not_full[OF inv(1) room]
  show ?thesis
  proof (cases "length d \<le> MAX_MESSAGE_LENGTH")
    case True
    from add_binary_small_ok[OF inv(1) nf True, of True] inv(2,3) show ?thesis
      by (auto simp: binary_queue_def leak_free_def is_data_def)
  next
    case False
    then have "MAX_MESSAGE_LENGTH < length d" by simp
    from add_binary_large_ok[OF inv(1) nf this] inv(2,3) show ?thesis
      by (auto simp: binary_queue_def leak_free_def is_data_def)
  qed
qed

lemma take_binary_ok:
  assumes q: "binary_queue q" and it: "queue_items q = x # rest"
  shows "\<exists>q' d. x = Binary d \<and> take_binary q = Inr (q', Some d) \<and> binary_queue q' \<and> queue_items q' = rest"
proof -
  have inv: "queue_inv q" "\<forall>x \<in> set (queue_items q). is_data x" "leak_free q"
    using q by (simp_all add: binary_queue_def)
  obtain d where d: "x = Binary d" using inv(2) it by (cases x) (auto simp: is_data_def)
  from get_binary_ok[OF inv(1) it[unfolded d]] obtain q1 p where
    q1: "get_binary_message_from_queue True q = Inr (q1, Some (p, length d))" "mem (qheap q1) p = Some d"
    "queue_inv q1" "queue_items q1 = rest" "p \<notin> owned_blocks q1"
    "insert p (owned_blocks q1) \<union> (dom (mem (qheap q)) - owned_blocks q) = dom (mem (qheap q1))" by blast
  obtain h where f: "free_blk p (qheap q1) = Inr h" using q1(2) by (simp add: free_blk_ok)
  note h = f free_unowned[OF q1(3,2,5) f]
  have "owned_blocks (q1\<lparr>qheap := h\<rparr>) = owned_blocks q1" by (simp add: owned_blocks_def)
  then have "leak_free (q1\<lparr>qheap := h\<rparr>)"
    using h(4) q1(5,6) inv(3) by (auto simp: leak_free_def)
  with h q1 d inv(2) it show ?thesis
    by (simp add: take_binary_def load_blk_ok binary_queue_def)
qed

interpretation datas: bounded_queue "add_binary_message_to_queue True" take_binary queued_data binary_queue
    "\<lambda>d. True" queue_capacity
proof unfold_locales
  show "\<exists>q'. add_binary_message_to_queue True d q = Inr (q', True) \<and> binary_queue q' \<and>
      queued_data q' = queued_data q @ [d]"
    if "binary_queue q" "length (queued_data q) < queue_capacity" for q d
    using add_binary_ok[OF that(1), of d] that(2) by (auto simp: queued_data_def data_of_def)
  show "add_binary_message_to_queue True d q = Inr (q, False)"
    if "binary_queue q" "queue_capacity \<le> length (queued_data q)" for q d
    using that add_binary_full by (simp add: queued_data_def binary_queue_def)
  show "take_binary q = Inr (q, None)" if "binary_queue q" "queued_data q = []" for q
    using that get_empty(1)[of q] by (simp add: queued_data_def binary_queue_def take_binary_def)
  show "\<exists>q'. take_binary q = Inr (q', Some d) \<and> binary_queue q' \<and> queued_data q' = ds"
    if "binary_queue q" "queued_data q = d # ds" for q d ds
  proof -
    from that(2) obtain x rest where it: "queue_items q = x # rest" "d = data_of x" "ds = map data_of rest"
      by (auto simp: queued_data_def)
    from take_binary_ok[OF that(1) it(1)] it(2,3) show ?thesis
      by (auto simp: queued_data_def data_of_def)
  qed
qed

section \<open>Properties\<close>

text \<open>
  C5: every sequence of queueing and taking texts runs without a fault and does what a list of
  at most 9 elements does: texts come out in the order in which they were accepted, each once
  and unchanged, and a text is refused exactly when nine are waiting.
\<close>

theorem text_queue_refines:
  assumes "\<forall>m. Put m \<in> set ops \<longrightarrow> no_nul m \<and> length m < MAX_MESSAGE_LENGTH"
  shows "\<exists>q acc out. run_queue add_message_to_queue take_text ops static_queue = Inr (q, acc, out) \<and>
    spec_queue 9 ops [] = (queued_texts q, acc, out) \<and> acc = out @ queued_texts q \<and> length (queued_texts q) \<le> 9"
proof -
  have q: "text_queue static_queue"
    by (simp add: text_queue_def queue_inv_static text_only_static leak_free_static)
  have p: "puts_ok short_text ops" using assms by (simp add: puts_ok_def short_text_def)
  have cap: "queue_capacity = 9" by (simp add: queue_capacity_def MAX_QUEUE_SIZE_def)
  from texts.run_refines[OF q p] obtain q' acc out where
    r: "run_queue add_message_to_queue take_text ops static_queue = Inr (q', acc, out)"
    "spec_queue 9 ops [] = (queued_texts q', acc, out)"
    unfolding cap by (auto simp: queued_texts_def)
  from spec_queue_fifo[OF r(2)] spec_queue_bound[OF r(2)] r show ?thesis by auto
qed

theorem text_queue_refines_witness:
  "\<exists>q acc out. run_queue add_message_to_queue take_text [Put ''a'', Put ''bc'', Take, Take, Take] static_queue
      = Inr (q, acc, out) \<and>
    spec_queue 9 [Put ''a'', Put ''bc'', Take, Take, Take] [] = (queued_texts q, acc, out) \<and>
    acc = out @ queued_texts q \<and> length (queued_texts q) \<le> 9"
  by (rule text_queue_refines) (auto simp: MAX_MESSAGE_LENGTH_def)

text \<open>
  C6: every sequence of queueing and taking binary messages, small ones kept in a slot and large
  ones in a block of their own, runs without a fault, delivers every message byte for byte in
  order, and at each point the allocated blocks are exactly those the queue still owns.
\<close>

theorem binary_queue_refines:
  "\<exists>q acc out. run_queue (add_binary_message_to_queue True) take_binary ops static_queue = Inr (q, acc, out) \<and>
    spec_queue 9 ops [] = (queued_data q, acc, out) \<and> dom (mem (qheap q)) = owned_blocks q"
proof -
  have q: "binary_queue static_queue"
    by (simp add: binary_queue_def queue_inv_static leak_free_static)
  have cap: "queue_capacity = 9" by (simp add: queue_capacity_def MAX_QUEUE_SIZE_def)
  have p: "puts_ok (\<lambda>d. True) ops" by (simp add: puts_ok_def)
  from datas.run_refines[OF q p] show ?thesis
    unfolding cap by (auto simp: queued_data_def binary_queue_def leak_free_def)
qed

text \<open>
  C40: \<open>cleanup_message_queue\<close> frees every block the slots own once, and nothing else.
\<close>

theorem queue_cleanup_frees:
  assumes "queue_inv q"
  shows "\<exists>q'. cleanup_message_queue q = Inr q' \<and> owned_blocks q' = {} \<and>
    dom (mem (qheap q')) = dom (mem (qheap q)) - owned_blocks q"
  using assms by (rule cleanup_ok)

theorem queue_cleanup_frees_witness:
  "\<exists>q'. cleanup_message_queue static_queue = Inr q' \<and> owned_blocks q' = {} \<and>
    dom (mem (qheap q')) = dom (mem (qheap static_queue)) - owned_blocks static_queue"
  by (rule queue_cleanup_frees) (rule queue_inv_static)



end
