(* ===== verification/Websocket_Client.thy ===== *)
theory Websocket_Client
  imports Message_Queue Audio_Device Http_Client
begin

text \<open>
  websocket_client.c: the callback libwebsockets runs for each event of the connection, with
  the queue it empties, the playback it feeds and the text frames it shows.

  libwebsockets is a parameter: an event comes with what the library hands to the callback
  and with the results of the calls the callback makes (\<open>malloc\<close>, \<open>lws_write\<close>,
  \<open>lws_add_http_header_by_name\<close>).  What the callback asks of the library and what it
  prints about a frame is recorded in \<open>events\<close>.
\<close>

section \<open>State\<close>

datatype lws_event =
    AddHeader string
  | WriteBinary "byte list"
  | WriteText "byte list"
  | WritePing "byte list"
  | CallbackOnWritable
  | ShowTranscription string string
  | ShowServer string
  | ServiceContext nat
  | ContextDestroy

text \<open>
  The globals of websocket_client.c, \<open>input_thread_running\<close> of input_handler.c, and the states
  of the three components the callbacks and the main program use.
\<close>

record client =
  websocket_connection :: bool
  websocket_context :: bool
  should_exit :: bool
  incoming_buffer :: string
  incoming_buffer_len :: nat
  input_thread_running :: bool
  mq :: queue
  audio_sys :: audio
  http_sys :: http
  events :: "lws_event list"

definition INCOMING_BUFFER_SIZE :: nat where
  "INCOMING_BUFFER_SIZE = 1024 * 256"

definition static_client :: client where
  "static_client = \<lparr>websocket_connection = False, websocket_context = False, should_exit = False,
     incoming_buffer = replicate INCOMING_BUFFER_SIZE NUL, incoming_buffer_len = 0,
     input_thread_running = False, mq = static_queue, audio_sys = static_audio,
     http_sys = static_http, events = []\<rparr>"

definition emit :: "lws_event list \<Rightarrow> client \<Rightarrow> client" where
  "emit es c = c\<lparr>events := events c @ es\<rparr>"

section \<open>Events\<close>

text \<open>
  \<open>AppendHandshakeHeader failed\<close>: whether adding the header fails.
  \<open>ClientWriteable mb mf\<close>: the \<open>malloc\<close>s of the queue's copy and of the frame buffer.
  \<open>ClientReceive binary d dev ms raw mok\<close>: the frame; whether there is an output device; the
  \<open>malloc\<close>s of the ring buffer and of the chunk's copy.
\<close>

datatype callback_reason =
    AppendHandshakeHeader bool
  | ClientEstablished
  | ClientWriteable bool bool
  | ClientReceive bool "byte list" bool bool "byte list option" bool
  | ClientReceivePong
  | Closed
  | ClientConnectionError
  | OtherReason

section \<open>Sending\<close>

definition bearer_header :: "string \<Rightarrow> string" where
  "bearer_header token = snprintf_str 1024 (''Bearer '' @ token)"

text \<open>\<open>if (queue_head != queue_tail) lws_callback_on_writable(wsi);\<close>\<close>

definition request_if_more :: "client \<Rightarrow> client" where
  "request_if_more c = (if queue_head (mq c) \<noteq> queue_tail (mq c) then emit [CallbackOnWritable] c else c)"

definition send_queued :: "bool \<Rightarrow> bool \<Rightarrow> client \<Rightarrow> client res" where
  "send_queued mb mf c =
     bind_res (get_binary_message_from_queue mb (mq c)) (\<lambda>(q, r).
     case r of
       Some (p, n) \<Rightarrow>
         bind_res (if mf then bind_res (load_blk p (qheap q)) (\<lambda>d.
                            bind_res (read_at d 0 n) (\<lambda>b. Inr [WriteBinary b]))
                   else Inr []) (\<lambda>es.
         bind_res (free_blk p (qheap q)) (\<lambda>h.
         Inr (request_if_more (emit es (c\<lparr>mq := q\<lparr>qheap := h\<rparr>\<rparr>)))))
     | None \<Rightarrow>
         bind_res (get_message_from_queue (replicate MAX_MESSAGE_LENGTH NUL) q) (\<lambda>(q', t).
         case t of
           None \<Rightarrow> Inr (c\<lparr>mq := q'\<rparr>)
         | Some (buf, n) \<Rightarrow>
             bind_res (guard_res (n \<le> MAX_MESSAGE_LENGTH) OutOfBounds) (\<lambda>_.
             bind_res (read_at buf 0 n) (\<lambda>m.
             Inr (request_if_more (emit [WriteText (bytes_of m)] (c\<lparr>mq := q'\<rparr>)))))))"

section \<open>Receiving\<close>

definition TYPE_KEY :: string where "TYPE_KEY = ''\"type\":\"transcription\"''"

text \<open>What is printed about a text frame, from the string in the buffer.\<close>

definition show_frame :: "string \<Rightarrow> lws_event list res" where
  "show_frame s =
     (if strstr s TYPE_KEY \<noteq> None then
        (if strstr s TEXT_KEY \<noteq> None \<and> strstr s SESSION_KEY \<noteq> None then
           (case (find_field s TEXT_KEY 8, find_field s SESSION_KEY 14) of
              (Some (text_start, text_len), Some (session_start, session_len)) \<Rightarrow>
                if session_len < 64 \<and> text_len < 1024 then
                  bind_res (strncpy_at (replicate 64 NUL) 0 session_start session_len) (\<lambda>i.
                  bind_res (strncpy_at (replicate 1024 NUL) 0 text_start text_len) (\<lambda>t.
                  Inr [ShowTranscription (cstr i) (cstr t)]))
                else Inr []
            | _ \<Rightarrow> Inr [])
         else Inr [ShowServer s])
      else Inr [ShowServer s])"

definition append_incoming :: "byte list \<Rightarrow> client \<Rightarrow> client res" where
  "append_incoming d c =
     (if incoming_buffer_len c + length d < INCOMING_BUFFER_SIZE then
        bind_res (memcpy_at (incoming_buffer c) (incoming_buffer_len c) (chars_of d)) (\<lambda>b.
        bind_res (store_at b (incoming_buffer_len c + length d) NUL) (\<lambda>b'.
        Inr (c\<lparr>incoming_buffer := b', incoming_buffer_len := incoming_buffer_len c + length d\<rparr>)))
      else
        bind_res (store_at (incoming_buffer c) 0 NUL) (\<lambda>b'.
        Inr (c\<lparr>incoming_buffer := b', incoming_buffer_len := 0\<rparr>)))"

definition receive_text :: "byte list \<Rightarrow> client \<Rightarrow> client res" where
  "receive_text d c =
     bind_res (append_incoming d c) (\<lambda>c1.
     bind_res (guard_res (NUL \<in> set (incoming_buffer c1)) OutOfBounds) (\<lambda>_.
     bind_res (show_frame (cstr (incoming_buffer c1))) (\<lambda>es.
     bind_res (store_at (incoming_buffer c1) 0 NUL) (\<lambda>b.
     Inr (emit es (c1\<lparr>incoming_buffer := b, incoming_buffer_len := 0\<rparr>))))))"

text \<open>
  The second component of the result is \<open>Wait\<close> when the callback is inside
  \<open>pthread_cond_wait\<close>: the state is the one the other threads then see, and the next attempt
  is the same event again, which finds the playback started.
\<close>

definition receive_audio ::
    "pa_env \<Rightarrow> bool \<Rightarrow> bool \<Rightarrow> byte list option \<Rightarrow> bool \<Rightarrow> byte list \<Rightarrow> client \<Rightarrow>
     (client \<times> nat attempt) res" where
  "receive_audio pa dev ms raw mok d c =
     bind_res (if is_streaming_audio_active (audio_sys c) then Inr (audio_sys c, True)
               else start_streaming_audio_playback pa dev ms raw (audio_sys c)) (\<lambda>(a, ok).
     if \<not> ok then Inr (c\<lparr>audio_sys := a\<rparr>, Done 0)
     else
       bind_res (play_audio_chunk mok (Some d) a) (\<lambda>r.
       case r of
         Wait \<Rightarrow> Inr (c\<lparr>audio_sys := a\<rparr>, Wait)
       | Done (a', ok') \<Rightarrow> Inr (c\<lparr>audio_sys := a'\<rparr>, Done 0)))"

section \<open>The callback\<close>

text \<open>The value after \<open>Done\<close> is the one returned to libwebsockets.\<close>

definition websocket_callback :: "pa_env \<Rightarrow> callback_reason \<Rightarrow> client \<Rightarrow> (client \<times> nat attempt) res" where
  "websocket_callback pa reason c =
     (case reason of
        AppendHandshakeHeader failed \<Rightarrow>
          (let c' = emit [AddHeader (bearer_header (cstr (current_jwt_token (http_sys c))))] c
           in Inr (c', Done (if failed then 1 else 0)))
      | ClientEstablished \<Rightarrow>
          Inr (emit [CallbackOnWritable] (c\<lparr>websocket_connection := True\<rparr>), Done 0)
      | ClientWriteable mb mf \<Rightarrow> bind_res (send_queued mb mf c) (\<lambda>c'. Inr (c', Done 0))
      | ClientReceive binary d dev ms raw mok \<Rightarrow>
          if binary then receive_audio pa dev ms raw mok d c
          else bind_res (receive_text d c) (\<lambda>c'. Inr (c', Done 0))
      | ClientReceivePong \<Rightarrow> Inr (c, Done 0)
      | Closed \<Rightarrow>
          (let c1 = c\<lparr>websocket_connection := False\<rparr>;
               c2 = (if is_streaming_audio_active (audio_sys c1)
                     then c1\<lparr>audio_sys := fst (stop_streaming_audio_playback pa (audio_sys c1))\<rparr> else c1)
           in Inr (c2\<lparr>should_exit := True\<rparr>, Done 0))
      | ClientConnectionError \<Rightarrow>
          Inr (c\<lparr>websocket_connection := False, should_exit := True\<rparr>, Done 0)
      | OtherReason \<Rightarrow> Inr (c, Done 0))"

section \<open>The other functions\<close>

text \<open>\<open>now\<close>: the value of \<open>time\<close>; \<open>fails\<close>: \<open>lws_write\<close> returns a negative value.\<close>

definition send_ping :: "int \<Rightarrow> bool \<Rightarrow> client \<Rightarrow> client res" where
  "send_ping now fails c =
     (if \<not> websocket_connection c \<or> should_exit c then Inr c
      else
        (let ping_message = snprintf_str 64 (''ping-'' @ int_str now) in
         bind_res (guard_res (length ping_message \<le> 64) OutOfBounds) (\<lambda>_.
         (let c' = emit [WritePing (bytes_of ping_message)] c
          in Inr (if fails then c'\<lparr>should_exit := True\<rparr> else c')))))"

definition signal_handler :: "client \<Rightarrow> client" where
  "signal_handler c = c\<lparr>should_exit := True\<rparr>"

definition init_websocket_client :: "bool \<Rightarrow> client \<Rightarrow> client \<times> bool" where
  "init_websocket_client created c = (c\<lparr>websocket_context := created\<rparr>, created)"

definition cleanup_websocket_client :: "client \<Rightarrow> client" where
  "cleanup_websocket_client c =
     (if websocket_context c then (emit [ContextDestroy] c)\<lparr>websocket_context := False\<rparr> else c)"

definition connect_to_server :: "bool \<Rightarrow> client \<Rightarrow> bool" where
  "connect_to_server started c = started"

definition disconnect_from_server :: "client \<Rightarrow> client" where
  "disconnect_from_server c =
     (if websocket_connection c
      then (emit [CallbackOnWritable] c)\<lparr>websocket_connection := False\<rparr> else c)"

section \<open>Fields under \<open>emit\<close>\<close>

lemma emit_fields [simp]:
  "mq (emit es c) = mq c" "audio_sys (emit es c) = audio_sys c" "http_sys (emit es c) = http_sys c"
  "websocket_connection (emit es c) = websocket_connection c"
  "websocket_context (emit es c) = websocket_context c" "should_exit (emit es c) = should_exit c"
  "incoming_buffer (emit es c) = incoming_buffer c"
  "incoming_buffer_len (emit es c) = incoming_buffer_len c"
  "input_thread_running (emit es c) = input_thread_running c"
  "events (emit es c) = events c @ es"
  by (simp_all add: emit_def)

lemma request_if_more_fields [simp]:
  "mq (request_if_more c) = mq c" "audio_sys (request_if_more c) = audio_sys c"
  "http_sys (request_if_more c) = http_sys c"
  "websocket_connection (request_if_more c) = websocket_connection c"
  "websocket_context (request_if_more c) = websocket_context c"
  "should_exit (request_if_more c) = should_exit c"
  "incoming_buffer (request_if_more c) = incoming_buffer c"
  "incoming_buffer_len (request_if_more c) = incoming_buffer_len c"
  by (simp_all add: request_if_more_def)

section \<open>Text frames\<close>

definition incoming_ok :: "client \<Rightarrow> bool" where
  "incoming_ok c \<longleftrightarrow> length (incoming_buffer c) = INCOMING_BUFFER_SIZE \<and> incoming_buffer_len c = 0 \<and>
     incoming_buffer c ! 0 = NUL"

lemma INCOMING_BUFFER_SIZE_pos [simp]: "0 < INCOMING_BUFFER_SIZE"
  by (simp add: INCOMING_BUFFER_SIZE_def)

lemma strncpy_field_ok:
  assumes "len < n" and "len \<le> length start" and "no_nul start"
  shows "\<exists>d. strncpy_at (replicate n NUL) 0 start len = Inr d \<and> cstr d = take len start"
proof -
  have "strncpy_block start len = take len start" using assms by (simp add: strncpy_block_def)
  then have "strncpy_at (replicate n NUL) 0 start len = Inr (take len start @ replicate (n - len) NUL)"
    using assms by (simp add: strncpy_at_def memcpy_at_0 drop_replicate)
  then show ?thesis using assms(3) by (simp add: no_nul_take)
qed

lemma show_frame_fields:
  assumes s: "no_nul s" and t: "strstr s TYPE_KEY \<noteq> None"
    and f: "find_field s TEXT_KEY 8 = Some (ts, tn)" "find_field s SESSION_KEY 14 = Some (ss, sn)"
    and len: "tn < 1024" "sn < 64"
  shows "show_frame s = Inr [ShowTranscription (take sn ss) (take tn ts)]"
proof -
  from find_fieldE[OF f(1)] obtain r1 p1 q1 where r1: "strstr s TEXT_KEY = Some r1" "ts = drop 8 r1"
    "ts = p1 @ CHR 0x22 # q1" "tn = length p1" .
  from find_fieldE[OF f(2)] obtain r2 p2 q2 where r2: "strstr s SESSION_KEY = Some r2" "ss = drop 14 r2"
    "ss = p2 @ CHR 0x22 # q2" "sn = length p2" .
  have "no_nul ts" "no_nul ss" using strstr_no_nul[OF r1(1) s] strstr_no_nul[OF r2(1) s] r1(2) r2(2)
    by (simp_all add: no_nul_drop)
  moreover have "tn \<le> length ts" "sn \<le> length ss" using r1(3,4) r2(3,4) by simp_all
  ultimately obtain t i where "strncpy_at (replicate 1024 NUL) 0 ts tn = Inr t" "cstr t = take tn ts"
    "strncpy_at (replicate 64 NUL) 0 ss sn = Inr i" "cstr i = take sn ss"
    using strncpy_field_ok[of tn 1024 ts] strncpy_field_ok[of sn 64 ss] len by auto
  with t r1(1) r2(1) f len show ?thesis by (simp add: show_frame_def)
qed

lemma show_frame_ok:
  assumes "no_nul s"
  shows "\<exists>es. show_frame s = Inr es \<and> length es \<le> 1"
proof (cases "\<exists>ts tn ss sn. strstr s TYPE_KEY \<noteq> None \<and> find_field s TEXT_KEY 8 = Some (ts, tn) \<and>
    find_field s SESSION_KEY 14 = Some (ss, sn) \<and> tn < 1024 \<and> sn < 64")
  case True
  with show_frame_fields[OF assms] show ?thesis by fastforce
next
  case False
  then show ?thesis by (auto simp: show_frame_def split: option.splits)
qed

lemma cstr_cons_NUL: "cstr (NUL # s) = []"
  by (simp add: cstr_def)

text \<open>The string a frame puts in the empty buffer; an oversized frame leaves the empty string.\<close>

definition frame_text :: "byte list \<Rightarrow> string" where
  "frame_text d = (if length d < INCOMING_BUFFER_SIZE then cstr (chars_of d) else [])"

lemma no_nul_frame_text [simp]: "no_nul (frame_text d)"
  by (simp add: frame_text_def)

lemma append_incoming_ok:
  assumes "incoming_ok c"
  shows "\<exists>b n. append_incoming d c = Inr (c\<lparr>incoming_buffer := b, incoming_buffer_len := n\<rparr>) \<and>
    length b = INCOMING_BUFFER_SIZE \<and> NUL \<in> set b \<and> cstr b = frame_text d"
proof (cases "length d < INCOMING_BUFFER_SIZE")
  case True
  let ?b = "incoming_buffer c"
  have l: "length ?b = INCOMING_BUFFER_SIZE" "incoming_buffer_len c = 0" using assms by (simp_all add: incoming_ok_def)
  let ?r = "drop (length d) ?b"
  obtain x t where x: "?r = x # t" using True l by (cases ?r) auto
  have m: "memcpy_at ?b 0 (chars_of d) = Inr (chars_of d @ ?r)" using True l by (simp add: memcpy_at_0)
  have lr: "length (chars_of d @ ?r) = INCOMING_BUFFER_SIZE" using True l by simp
  have "store_at (chars_of d @ ?r) (length d) NUL = Inr ((chars_of d @ ?r)[length d := NUL])"
    using lr True by (simp add: store_at_def)
  moreover have "(chars_of d @ ?r)[length d := NUL] = chars_of d @ NUL # t"
    using x by (simp add: list_update_append)
  moreover have "length (chars_of d @ NUL # t) = INCOMING_BUFFER_SIZE" using lr x by simp
  ultimately show ?thesis using m l True
    by (intro exI[of _ "chars_of d @ NUL # t"] exI[of _ "length d"])
      (simp add: append_incoming_def frame_text_def)
next
  case False
  obtain x t where "incoming_buffer c = x # t"
    using assms INCOMING_BUFFER_SIZE_pos by (cases "incoming_buffer c") (auto simp: incoming_ok_def)
  with False assms show ?thesis
    by (intro exI[of _ "NUL # t"] exI[of _ 0])
      (auto simp: append_incoming_def store_at_def incoming_ok_def frame_text_def cstr_cons_NUL)
qed

text \<open>Each frame is handled on its own, and leaves the buffer empty.\<close>

lemma receive_text_ok:
  assumes "incoming_ok c"
  shows "\<exists>b es. receive_text d c = Inr (emit es (c\<lparr>incoming_buffer := b, incoming_buffer_len := 0\<rparr>)) \<and>
    show_frame (frame_text d) = Inr es \<and>
    incoming_ok (emit es (c\<lparr>incoming_buffer := b, incoming_buffer_len := 0\<rparr>))"
proof -
  from append_incoming_ok[OF assms, of d] obtain b n where
    b: "append_incoming d c = Inr (c\<lparr>incoming_buffer := b, incoming_buffer_len := n\<rparr>)"
    "length b = INCOMING_BUFFER_SIZE" "NUL \<in> set b" "cstr b = frame_text d" by blast
  obtain es where es: "show_frame (frame_text d) = Inr es" using show_frame_ok[OF no_nul_frame_text] by blast
  have "0 < length b" using b(2) by simp
  then have "store_at b 0 NUL = Inr (b[0 := NUL])" "b[0 := NUL] ! 0 = NUL"
    by (simp_all add: store_at_def)
  with b es show ?thesis
    by (intro exI[of _ "b[0 := NUL]"] exI[of _ es]) (simp add: receive_text_def incoming_ok_def)
qed

section \<open>Sending from the queue\<close>

lemma send_queued_empty:
  assumes "text_queue (mq c)" and "queued_texts (mq c) = []"
  shows "send_queued mb mf c = Inr c"
  using assms get_empty[of "mq c"] by (simp add: send_queued_def queued_texts_def text_queue_def)

lemma send_queued_text:
  assumes q: "text_queue (mq c)" and it: "queued_texts (mq c) = m # ms"
  shows "\<exists>q'. send_queued mb mf c =
      Inr (emit (WriteText (bytes_of m) # (if ms = [] then [] else [CallbackOnWritable])) (c\<lparr>mq := q'\<rparr>)) \<and>
    text_queue q' \<and> queued_texts q' = ms"
proof -
  from it obtain x rest where x: "queue_items (mq c) = x # rest" "m = text_of x" "ms = map text_of rest"
    by (auto simp: queued_texts_def)
  have inv: "queue_inv (mq c)" using q by (simp add: text_queue_def)
  from get_text_ok[OF q x(1), of "replicate MAX_MESSAGE_LENGTH NUL"] obtain q' b n where
    q': "x = Text n" "get_message_from_queue (replicate MAX_MESSAGE_LENGTH NUL) (mq c) = Inr (q', Some (b, length n))"
    "take (length n) b = n" "length n < MAX_MESSAGE_LENGTH" "length b = MAX_MESSAGE_LENGTH"
    "text_queue q'" "queue_items q' = rest" by auto
  have mn: "m = n" using x(2) q'(1) by (simp add: text_of_def)
  have bin: "get_binary_message_from_queue mb (mq c) = Inr (mq c, None)"
    using get_binary_text[OF inv] x(1) q'(1) by simp
  have more: "queue_head q' \<noteq> queue_tail q' \<longleftrightarrow> ms \<noteq> []"
    using queue_empty_iff[of q'] q'(6,7) x(3) by (simp add: text_queue_def)
  have "send_queued mb mf c = Inr (request_if_more (emit [WriteText (bytes_of m)] (c\<lparr>mq := q'\<rparr>)))"
    using q' mn by (simp add: send_queued_def bin read_at_ok)
  moreover have "request_if_more (emit [WriteText (bytes_of m)] (c\<lparr>mq := q'\<rparr>)) =
      emit (WriteText (bytes_of m) # (if ms = [] then [] else [CallbackOnWritable])) (c\<lparr>mq := q'\<rparr>)"
    using more by (simp add: request_if_more_def emit_def)
  moreover have "queued_texts q' = ms" using q'(7) x(3) by (simp add: queued_texts_def)
  ultimately show ?thesis using q'(6) by auto
qed

section \<open>The invariant of the client\<close>

definition client_inv :: "client \<Rightarrow> bool" where
  "client_inv c \<longleftrightarrow>
     incoming_ok c \<and> text_queue (mq c) \<and> audio_ready (audio_sys c) \<and> http_inv (http_sys c)"

text \<open>What the environment owes an event: an output device, and a block of the size asked for.\<close>

fun reason_ok :: "callback_reason \<Rightarrow> bool" where
  "reason_ok (ClientReceive binary d dev ms raw mok) \<longleftrightarrow> dev \<and> ring_block_ok raw"
| "reason_ok _ \<longleftrightarrow> True"

lemma send_queued_inv:
  assumes "client_inv c"
  shows "\<exists>c'. send_queued mb mf c = Inr c' \<and> client_inv c'"
proof (cases "queued_texts (mq c)")
  case Nil
  with assms send_queued_empty show ?thesis by (auto simp: client_inv_def)
next
  case (Cons m ms)
  from assms have "text_queue (mq c)" by (simp add: client_inv_def)
  from send_queued_text[OF this Cons, of mb mf] obtain q' es where
    q': "send_queued mb mf c = Inr (emit es (c\<lparr>mq := q'\<rparr>))" "text_queue q'"
    by blast
  have "incoming_ok (emit es (c\<lparr>mq := q'\<rparr>))" using assms by (simp add: client_inv_def incoming_ok_def)
  with q' assms show ?thesis by (simp add: client_inv_def)
qed

lemma receive_text_inv:
  assumes "client_inv c"
  shows "\<exists>c'. receive_text d c = Inr c' \<and> client_inv c'"
proof -
  have "incoming_ok c" using assms by (simp add: client_inv_def)
  from receive_text_ok[OF this, of d] assms show ?thesis by (auto simp: client_inv_def)
qed

lemma client_inv_audio: "client_inv c \<Longrightarrow> audio_ready a \<Longrightarrow> client_inv (c\<lparr>audio_sys := a\<rparr>)"
  by (simp add: client_inv_def incoming_ok_def)

lemma client_inv_fields [simp]:
  "client_inv (c\<lparr>websocket_connection := x\<rparr>) = client_inv c"
  "client_inv (c\<lparr>websocket_context := x\<rparr>) = client_inv c"
  "client_inv (c\<lparr>should_exit := x\<rparr>) = client_inv c"
  "client_inv (c\<lparr>input_thread_running := x\<rparr>) = client_inv c"
  "client_inv (emit es c) = client_inv c"
  by (simp_all add: client_inv_def incoming_ok_def)

lemma receive_audio_inv:
  assumes c: "client_inv c" and raw: "ring_block_ok raw"
  shows "\<exists>c' r. receive_audio pa True ms raw mok d c = Inr (c', r) \<and> client_inv c'"
proof -
  have r: "audio_ready (audio_sys c)" using c by (simp add: client_inv_def)
  obtain a ok where a: "(if is_streaming_audio_active (audio_sys c) then Inr (audio_sys c, True)
      else start_streaming_audio_playback pa True ms raw (audio_sys c)) = Inr (a, ok)" "audio_ready a"
    using start_streaming_ready[OF r raw, of pa ms] r
    by (cases "is_streaming_audio_active (audio_sys c)") auto
  show ?thesis
  proof (cases ok)
    case False
    with a c show ?thesis by (simp add: receive_audio_def client_inv_audio)
  next
    case True
    from play_audio_chunk_ready[OF a(2), of mok "Some d"] a True c show ?thesis
      by (auto simp: receive_audio_def client_inv_audio)
  qed
qed

lemma websocket_callback_inv:
  assumes c: "client_inv c" and ok: "reason_ok reason"
  shows "\<exists>c' r. websocket_callback pa reason c = Inr (c', r) \<and> client_inv c'"
proof (cases reason)
  case (ClientWriteable mb mf)
  from send_queued_inv[OF c, of mb mf] ClientWriteable show ?thesis
    by (auto simp: websocket_callback_def)
next
  case (ClientReceive binary d dev ms raw mok)
  with receive_audio_inv[OF c, of raw pa ms mok d] receive_text_inv[OF c, of d] ok show ?thesis
    by (cases binary) (auto simp: websocket_callback_def)
next
  case Closed
  have "audio_ready (fst (stop_streaming_audio_playback pa (audio_sys c)))"
    using c stop_streaming_ready by (simp add: client_inv_def)
  with Closed c show ?thesis
    by (simp add: websocket_callback_def Let_def client_inv_audio)
qed (use c in \<open>simp_all add: websocket_callback_def Let_def\<close>)

section \<open>Properties\<close>



text \<open>The states after some writable events, and the texts that were written.\<close>

fun writable_events :: "nat \<Rightarrow> client \<Rightarrow> client res" where
  "writable_events 0 c = Inr c"
| "writable_events (Suc k) c = bind_res (send_queued True True c) (writable_events k)"

definition written_texts :: "lws_event list \<Rightarrow> byte list list" where
  "written_texts es = concat (map (\<lambda>e. case e of WriteText d \<Rightarrow> [d] | _ \<Rightarrow> []) es)"

lemma written_texts_append [simp]: "written_texts (a @ b) = written_texts a @ written_texts b"
  by (simp add: written_texts_def)

lemma written_texts_one [simp]:
  "written_texts (WriteText d # (if b then [] else [CallbackOnWritable])) = [d]"
  by (simp add: written_texts_def)

lemma writable_drain:
  assumes "text_queue (mq c)"
  shows "\<exists>c'. writable_events (length (queued_texts (mq c))) c = Inr c' \<and> queued_texts (mq c') = [] \<and>
    text_queue (mq c') \<and> written_texts (events c') = written_texts (events c) @ map bytes_of (queued_texts (mq c))"
  using assms
proof (induction "queued_texts (mq c)" arbitrary: c)
  case Nil
  then show ?case by simp
next
  case (Cons m ms)
  from send_queued_text[OF Cons.prems Cons.hyps(2)[symmetric], of True True] obtain q' where
    q': "send_queued True True c =
      Inr (emit (WriteText (bytes_of m) # (if ms = [] then [] else [CallbackOnWritable])) (c\<lparr>mq := q'\<rparr>))"
    "text_queue q'" "queued_texts q' = ms" by blast
  let ?c1 = "emit (WriteText (bytes_of m) # (if ms = [] then [] else [CallbackOnWritable])) (c\<lparr>mq := q'\<rparr>)"
  have "ms = queued_texts (mq ?c1)" "text_queue (mq ?c1)" using q' by simp_all
  from Cons.hyps(1)[OF this] obtain c' where
    "writable_events (length ms) ?c1 = Inr c'" "queued_texts (mq c') = []" "text_queue (mq c')"
    "written_texts (events c') = written_texts (events c) @ [bytes_of m] @ map bytes_of ms"
    using q'(3) by auto
  moreover have "queued_texts (mq c) = m # ms" using Cons.hyps(2) by simp
  ultimately show ?case using q'(1) by simp
qed



text \<open>A value without quotes does not make its opening quote the start of the text key.\<close>

lemma quoted_not_text_key:
  assumes "CHR 0x22 \<notin> set sid"
  shows "take 7 (sid @ CHR 0x22 # CHR '','' # r) \<noteq> ''text\":\"''"
proof
  let ?s = "sid @ CHR 0x22 # CHR '','' # r"
  assume "take 7 ?s = ''text\":\"''"
  then have s: "?s = ''text\":\"'' @ drop 7 ?s" by (metis append_take_drop_id)
  have "takeWhile (\<lambda>x. x \<noteq> CHR 0x22) ?s = sid" using assms by (subst takeWhile_append2) auto
  moreover have "takeWhile (\<lambda>x. x \<noteq> CHR 0x22) ?s = ''text''" by (subst s) simp
  ultimately have "sid = ''text''" by simp
  with s show False by simp
qed



text \<open>
  C34: the buffer for incoming text never carries anything from one frame to the next: what is
  shown for a frame depends on that frame alone, so a message that arrives in two frames is
  shown as two fragments, although the buffer is introduced as accumulating the data.
\<close>

theorem frames_not_joined:
  assumes "incoming_ok c"
  shows "\<exists>c1 c2 es1 es2. receive_text d1 c = Inr c1 \<and> receive_text d2 c1 = Inr c2 \<and>
    show_frame (frame_text d1) = Inr es1 \<and> show_frame (frame_text d2) = Inr es2 \<and>
    events c2 = events c @ es1 @ es2 \<and> incoming_buffer_len c2 = 0"
proof -
  from receive_text_ok[OF assms, of d1] obtain c1 es1 where
    c1: "receive_text d1 c = Inr c1" "show_frame (frame_text d1) = Inr es1" "incoming_ok c1" "events c1 = events c @ es1"
    by fastforce
  from receive_text_ok[OF c1(3), of d2] obtain c2 es2 where
    "receive_text d2 c1 = Inr c2" "show_frame (frame_text d2) = Inr es2" "incoming_ok c2" "events c2 = events c1 @ es2"
    by fastforce
  with c1 show ?thesis by (simp add: incoming_ok_def)
qed

theorem frames_not_joined_witness:
  "\<exists>c1 c2 es1 es2. receive_text (bytes_of (''{'' @ TYPE_KEY)) static_client = Inr c1 \<and>
    receive_text (bytes_of ''}'') c1 = Inr c2 \<and> show_frame (frame_text (bytes_of (''{'' @ TYPE_KEY))) = Inr es1 \<and>
    show_frame (frame_text (bytes_of ''}'')) = Inr es2 \<and>
    events c2 = events static_client @ es1 @ es2 \<and> incoming_buffer_len c2 = 0"
  by (rule frames_not_joined)
    (use INCOMING_BUFFER_SIZE_pos in \<open>simp add: incoming_ok_def static_client_def\<close>)


end
