(* ===== verification/Input_Handler.thy ===== *)
theory Input_Handler
  imports Websocket_Client
begin

text \<open>
  input_handler.c: the thread that reads lines from standard input, runs the two recording
  commands and queues every other line.  Standard input is the string it still has to give;
  a read error other than the end of the input is not modelled.
\<close>

section \<open>Reading a line\<close>

abbreviation LF :: char where "LF \<equiv> CHR 0x0A"

text \<open>The line with its newline, as \<open>fgets\<close> would read it without a bound.\<close>

definition first_line :: "string \<Rightarrow> string" where
  "first_line s = takeWhile (\<lambda>x. x \<noteq> LF) s @ (if LF \<in> set s then [LF] else [])"

definition fgets :: "nat \<Rightarrow> string \<Rightarrow> (string \<times> string) option" where
  "fgets n s =
     (if s = [] then None
      else (let l = take (n - 1) (first_line s) in Some (l, drop (length l) s)))"

definition strip_newline :: "string \<Rightarrow> string" where
  "strip_newline s = (if s \<noteq> [] \<and> last s = LF then butlast s else s)"

section \<open>One line\<close>

text \<open>
  What the operations of a line need from outside: PortAudio, the network, whether the two
  \<open>malloc\<close>s succeed, and the uninitialised response struct.
\<close>

record input_env =
  e_pa :: pa_env
  e_net :: net
  e_rec_ok :: bool
  e_req_ok :: bool
  e_old :: http_audio_response_t

definition stop_and_upload :: "input_env \<Rightarrow> client \<Rightarrow> client res" where
  "stop_and_upload e c =
     (case stop_recording (e_pa e) (audio_sys c) of
        (a, False) \<Rightarrow> Inr (c\<lparr>audio_sys := a\<rparr>)
      | (a, True) \<Rightarrow>
          bind_res (get_recorded_audio (e_rec_ok e) a) (\<lambda>r.
          case r of
            None \<Rightarrow> Inr (c\<lparr>audio_sys := a\<rparr>)
          | Some d \<Rightarrow>
              bind_res (http_stream_audio_realtime (e_net e) (e_req_ok e) (e_old e)
                         (Some (cstr (current_jwt_token (http_sys c)))) (Some d) (http_sys c)) (\<lambda>(h, ok).
              Inr (c\<lparr>audio_sys := a, http_sys := h\<rparr>))))"

definition queue_line :: "string \<Rightarrow> client \<Rightarrow> client res" where
  "queue_line msg c =
     bind_res (add_message_to_queue msg (mq c)) (\<lambda>(q, ok).
     (let c1 = c\<lparr>mq := q\<rparr> in
      Inr (if ok \<and> websocket_connection c1
           then emit [CallbackOnWritable, ServiceContext 0, ServiceContext 50] c1 else c1)))"

definition handle_line :: "input_env \<Rightarrow> string \<Rightarrow> client \<Rightarrow> client res" where
  "handle_line e line c =
     (let input = strip_newline (cstr line) in
      if input = [] then Inr c
      else if input = ''record'' then Inr (c\<lparr>audio_sys := fst (start_recording (e_pa e) (audio_sys c))\<rparr>)
      else if input = ''stop'' then stop_and_upload e c
      else queue_line input c)"

section \<open>The thread\<close>

lemma first_line_not_Nil: "s \<noteq> [] \<Longrightarrow> first_line s \<noteq> []"
  by (cases s) (auto simp: first_line_def)

lemma fgets_shorter:
  assumes "fgets n s = Some (l, r)" and "1 < n"
  shows "length r < length s" and "l \<noteq> []"
proof -
  from assms have "s \<noteq> []" and l: "l = take (n - 1) (first_line s)" and r: "r = drop (length l) s"
    by (auto simp: fgets_def Let_def split: if_splits)
  then show "l \<noteq> []" using first_line_not_Nil[of s] assms(2) by auto
  with r \<open>s \<noteq> []\<close> show "length r < length s" by simp
qed

lemma MAX_MESSAGE_LENGTH_gt_1: "1 < MAX_MESSAGE_LENGTH"
  by (simp add: MAX_MESSAGE_LENGTH_def)

function input_thread :: "input_env \<Rightarrow> string \<Rightarrow> client \<Rightarrow> client res" where
  "input_thread e stdin c =
     (if should_exit c \<or> \<not> input_thread_running c then Inr c
      else
        (case fgets MAX_MESSAGE_LENGTH stdin of
           None \<Rightarrow> Inr (c\<lparr>should_exit := True\<rparr>)
         | Some (line, rest) \<Rightarrow> bind_res (handle_line e line c) (input_thread e rest)))"
  by pat_completeness auto
termination
  by (relation "measure (\<lambda>(e, stdin, c). length stdin)")
    (auto dest: fgets_shorter(1)[OF _ MAX_MESSAGE_LENGTH_gt_1])

declare input_thread.simps [simp del]

definition start_input_thread :: "bool \<Rightarrow> client \<Rightarrow> client \<times> bool" where
  "start_input_thread created c = (c\<lparr>input_thread_running := True\<rparr>, created)"

definition stop_input_thread :: "client \<Rightarrow> client" where
  "stop_input_thread c = c\<lparr>input_thread_running := False\<rparr>"

section \<open>The invariant\<close>

lemma client_inv_queue: "client_inv c \<Longrightarrow> text_queue q \<Longrightarrow> client_inv (c\<lparr>mq := q\<rparr>)"
  by (simp add: client_inv_def incoming_ok_def)

lemma client_inv_http: "client_inv c \<Longrightarrow> http_inv h \<Longrightarrow> client_inv (c\<lparr>http_sys := h\<rparr>)"
  by (simp add: client_inv_def incoming_ok_def)

lemma add_text_inv:
  assumes "text_queue q"
  shows "\<exists>q' ok. add_message_to_queue m q = Inr (q', ok) \<and> text_queue q'"
proof (cases "length (queue_items q) < queue_capacity")
  case True
  from add_text_ok[OF assms True, of m] show ?thesis by blast
next
  case False
  with assms add_text_full[of q m] have "add_message_to_queue m q = Inr (q, False)"
    by (simp add: text_queue_def)
  with assms show ?thesis by blast
qed

lemma queue_line_inv:
  assumes "client_inv c"
  shows "\<exists>c'. queue_line m c = Inr c' \<and> client_inv c'"
proof -
  have "text_queue (mq c)" using assms by (simp add: client_inv_def)
  from add_text_inv[OF this, of m] client_inv_queue[OF assms] show ?thesis
    by (auto simp: queue_line_def Let_def)
qed

lemma get_recorded_total:
  assumes "audio_ready a"
  shows "\<exists>r. get_recorded_audio mok a = Inr r"
proof -
  from assms obtain b where "recording_buffer a = Some b" "length b = recording_capacity"
    "recording_buffer_used a \<le> recording_capacity" by (rule audio_readyD)
  then show ?thesis by (simp add: get_recorded_audio_def read_at_ok)
qed

lemma stop_and_upload_inv:
  assumes c: "client_inv c"
  shows "\<exists>c'. stop_and_upload e c = Inr c' \<and> client_inv c'"
proof -
  obtain a ok where s: "stop_recording (e_pa e) (audio_sys c) = (a, ok)"
    by (cases "stop_recording (e_pa e) (audio_sys c)")
  have a: "audio_ready a" using stop_recording_ready[of "audio_sys c" "e_pa e"] c s by (simp add: client_inv_def)
  note ca = client_inv_audio[OF c a]
  obtain r where r: "get_recorded_audio (e_rec_ok e) a = Inr r" using get_recorded_total[OF a] by blast
  show ?thesis
  proof (cases "ok \<and> r \<noteq> None")
    case False
    with s r ca show ?thesis by (cases ok) (auto simp: stop_and_upload_def)
  next
    case True
    then obtain d where d: "r = Some d" by auto
    have "http_inv (http_sys c)" using c by (simp add: client_inv_def)
    from http_realtime_ok[OF this, of "e_net e" "e_req_ok e" "e_old e" "Some (cstr (current_jwt_token (http_sys c)))" "Some d"]
    obtain h ok' where h: "http_stream_audio_realtime (e_net e) (e_req_ok e) (e_old e)
        (Some (cstr (current_jwt_token (http_sys c)))) (Some d) (http_sys c) = Inr (h, ok')" "http_inv h"
      by blast
    from client_inv_http[OF ca h(2)] s r d h(1) True show ?thesis by (simp add: stop_and_upload_def)
  qed
qed

lemma handle_line_inv:
  assumes c: "client_inv c"
  shows "\<exists>c'. handle_line e line c = Inr c' \<and> client_inv c'"
proof -
  have "audio_ready (fst (start_recording (e_pa e) (audio_sys c)))"
    using c start_recording_ready by (simp add: start_recording_def client_inv_def)
  with client_inv_audio[OF c] stop_and_upload_inv[OF c, of e] queue_line_inv[OF c, of "strip_newline (cstr line)"] c
  show ?thesis by (simp add: handle_line_def Let_def)
qed

lemma input_thread_inv:
  "client_inv c \<Longrightarrow> \<exists>c'. input_thread e stdin c = Inr c' \<and> client_inv c'"
proof (induction e stdin c rule: input_thread.induct)
  case (1 e stdin c)
  show ?case
  proof (cases "should_exit c \<or> \<not> input_thread_running c")
    case True
    with 1(2) show ?thesis by (simp add: input_thread.simps)
  next
    case go: False
    show ?thesis
    proof (cases "fgets MAX_MESSAGE_LENGTH stdin")
      case None
      with go 1(2) show ?thesis by (simp add: input_thread.simps[of e stdin])
    next
      case (Some lr)
      then obtain l r where lr: "fgets MAX_MESSAGE_LENGTH stdin = Some (l, r)" by (cases lr) auto
      from handle_line_inv[OF 1(2), of e l] obtain c1 where c1: "handle_line e l c = Inr c1" "client_inv c1" by blast
      from 1(1)[OF go lr refl c1(1) c1(2)] go lr c1(1) show ?thesis by (simp add: input_thread.simps[of e stdin])
    qed
  qed
qed

section \<open>Lines become messages\<close>

definition chat_line :: "string \<Rightarrow> bool" where
  "chat_line l \<longleftrightarrow> l \<noteq> [] \<and> LF \<notin> set l \<and> no_nul l \<and> length l + 1 < MAX_MESSAGE_LENGTH \<and>
     l \<noteq> ''record'' \<and> l \<noteq> ''stop''"

lemma fgets_line:
  assumes "LF \<notin> set l" and "length l + 1 < n"
  shows "fgets n (l @ LF # s) = Some (l @ [LF], s)"
proof -
  have "takeWhile (\<lambda>x. x \<noteq> LF) (l @ LF # s) = l @ takeWhile (\<lambda>x. x \<noteq> LF) (LF # s)"
    using assms(1) by (intro takeWhile_append2) auto
  then have "first_line (l @ LF # s) = l @ [LF]" by (simp add: first_line_def)
  with assms(2) show ?thesis by (simp add: fgets_def)
qed

lemma handle_chat_line:
  assumes "chat_line l"
  shows "handle_line e (l @ [LF]) c = queue_line l c"
proof -
  have "cstr (l @ [LF]) = l @ [LF]" using assms by (intro cstr_no_nul) (simp add: chat_line_def)
  with assms show ?thesis by (simp add: handle_line_def strip_newline_def chat_line_def)
qed

lemma queue_line_texts:
  assumes c: "client_inv c" and l: "chat_line l"
  shows "\<exists>c'. queue_line l c = Inr c' \<and> client_inv c' \<and> should_exit c' = should_exit c \<and>
    input_thread_running c' = input_thread_running c \<and>
    written_texts (events c') = written_texts (events c) \<and>
    queued_texts (mq c') = (if length (queued_texts (mq c)) < queue_capacity
      then queued_texts (mq c) @ [l] else queued_texts (mq c))"
proof -
  have q: "text_queue (mq c)" using c by (simp add: client_inv_def)
  have short: "short_text l" using l by (simp add: chat_line_def short_text_def)
  show ?thesis
  proof (cases "length (queued_texts (mq c)) < queue_capacity")
    case True
    from texts.enq_room[OF q short True] client_inv_queue[OF c] True show ?thesis
      by (auto simp: queue_line_def Let_def written_texts_def)
  next
    case False
    with texts.enq_full[OF q] client_inv_queue[OF c q] show ?thesis by (simp add: queue_line_def Let_def)
  qed
qed

lemma input_thread_texts:
  assumes "client_inv c" and "\<forall>l \<in> set ls. chat_line l" and "\<not> should_exit c" and "input_thread_running c"
    and "length (queued_texts (mq c)) \<le> queue_capacity"
  shows "\<exists>c'. input_thread e (concat (map (\<lambda>l. l @ [LF]) ls)) c = Inr c' \<and> client_inv c' \<and> should_exit c' \<and>
    written_texts (events c') = written_texts (events c) \<and>
    queued_texts (mq c') = take queue_capacity (queued_texts (mq c) @ ls)"
  using assms
proof (induction ls arbitrary: c)
  case Nil
  then show ?case by (simp add: input_thread.simps[of e "[]"] fgets_def)
next
  case (Cons l ls)
  have l: "chat_line l" using Cons.prems by simp
  from queue_line_texts[OF Cons.prems(1) l] obtain c1 where
    c1: "queue_line l c = Inr c1" "client_inv c1" "should_exit c1 = should_exit c"
    "input_thread_running c1 = input_thread_running c" "written_texts (events c1) = written_texts (events c)"
    "queued_texts (mq c1) = (if length (queued_texts (mq c)) < queue_capacity
      then queued_texts (mq c) @ [l] else queued_texts (mq c))" by blast
  let ?rest = "concat (map (\<lambda>l. l @ [LF]) ls)"
  have step: "input_thread e (l @ LF # ?rest) c = input_thread e ?rest c1"
    using fgets_line[of l MAX_MESSAGE_LENGTH ?rest] l Cons.prems(3,4) c1(1) handle_chat_line[OF l]
    by (simp add: input_thread.simps[of e "l @ LF # ?rest"] chat_line_def)
  have "length (queued_texts (mq c1)) \<le> queue_capacity" using c1(6) Cons.prems(5) by auto
  from Cons.IH[OF c1(2) _ _ _ this] Cons.prems(2,3,4,5) c1 step show ?case
    by (cases "length (queued_texts (mq c)) < queue_capacity") auto
qed

section \<open>Properties\<close>


lemma client_inv_example: "\<exists>a. client_inv (static_client\<lparr>audio_sys := a, input_thread_running := True\<rparr>)"
proof -
  obtain a where a: "init_audio (\<lambda>l c. True) (Some (replicate recording_capacity 0)) static_audio = (a, True)"
    by (simp add: init_audio_def pa_simps static_audio_def)
  have "client_inv (static_client\<lparr>audio_sys := a\<rparr>)"
    using init_audio_ready[OF a length_replicate] http_inv_static INCOMING_BUFFER_SIZE_pos
    by (simp add: client_inv_def static_client_def incoming_ok_def text_queue_def queue_inv_static
        text_only_static leak_free_static)
  then have "client_inv (static_client\<lparr>audio_sys := a, input_thread_running := True\<rparr>)" by simp
  then show ?thesis by blast
qed




end
