(* ===== verification/Main_Program.thy ===== *)
theory Main_Program
  imports Input_Handler
begin

text \<open>
  main.c of doll-replica-c: starting the components in order, undoing what was started when
  one fails, the running program as an interleaving of its threads, and the shutdown.
\<close>

section \<open>Undoing\<close>

definition free_queue :: "client \<Rightarrow> client res" where
  "free_queue c = bind_res (cleanup_message_queue (mq c)) (\<lambda>q. Inr (c\<lparr>mq := q\<rparr>))"

definition free_audio :: "pa_env \<Rightarrow> client \<Rightarrow> client" where
  "free_audio pa c = c\<lparr>audio_sys := cleanup_audio pa (audio_sys c)\<rparr>"

definition free_http :: "net \<Rightarrow> client \<Rightarrow> client" where
  "free_http n c = c\<lparr>http_sys := http_cleanup n (http_sys c)\<rparr>"

text \<open>The cleanup sequences of the error exits of \<open>main\<close>, from the shortest to the longest.\<close>

definition abort_audio :: "pa_env \<Rightarrow> client \<Rightarrow> client res" where
  "abort_audio pa c = free_queue (free_audio pa c)"

definition abort_http :: "pa_env \<Rightarrow> net \<Rightarrow> client \<Rightarrow> client res" where
  "abort_http pa n c = abort_audio pa (free_http n c)"

definition abort_websocket :: "pa_env \<Rightarrow> net \<Rightarrow> client \<Rightarrow> client res" where
  "abort_websocket pa n c = abort_http pa n (cleanup_websocket_client c)"

section \<open>Starting\<close>

text \<open>
  One call of \<open>lws_service\<close>: the events it hands to the callback.  A callback that waits on
  the ring buffer keeps the call from returning; its next attempt is an event of a later list.
\<close>

fun lws_service :: "pa_env \<Rightarrow> callback_reason list \<Rightarrow> client \<Rightarrow> client res" where
  "lws_service pa [] c = Inr c"
| "lws_service pa (r # rs) c =
     bind_res (websocket_callback pa r c) (\<lambda>(c', a).
     case a of Wait \<Rightarrow> Inr c' | Done rc \<Rightarrow> lws_service pa rs c')"

text \<open>\<open>while (!websocket_connection && connection_attempts < 10 && !should_exit)\<close>.\<close>

fun wait_connect :: "pa_env \<Rightarrow> nat \<Rightarrow> callback_reason list list \<Rightarrow> client \<Rightarrow> client res" where
  "wait_connect pa 0 svs c = Inr c"
| "wait_connect pa (Suc k) svs c =
     (if websocket_connection c \<or> should_exit c then Inr c
      else
        (case svs of
           [] \<Rightarrow> wait_connect pa k [] c
         | s # svs' \<Rightarrow> bind_res (lws_service pa s c) (wait_connect pa k svs')))"

text \<open>What starting the program needs from outside.\<close>

record start_env =
  s_recording :: "byte list option"
  s_request_ok :: bool
  s_context_ok :: bool
  s_connect_ok :: bool
  s_services :: "callback_reason list list"
  s_thread_ok :: bool

text \<open>From a failed start \<open>main\<close> returns 1: the second component is \<open>False\<close>.\<close>

definition fail_with :: "client res \<Rightarrow> (client \<times> bool) res" where
  "fail_with r = bind_res r (\<lambda>c. Inr (c, False))"

definition start_connection :: "pa_env \<Rightarrow> net \<Rightarrow> start_env \<Rightarrow> client \<Rightarrow> (client \<times> bool) res" where
  "start_connection pa n s c =
     (case init_websocket_client (s_context_ok s) c of
        (c1, False) \<Rightarrow> fail_with (abort_http pa n c1)
      | (c1, True) \<Rightarrow>
          if \<not> connect_to_server (s_connect_ok s) c1 then fail_with (abort_websocket pa n c1)
          else
            bind_res (wait_connect pa 10 (s_services s) c1) (\<lambda>c2.
            if \<not> websocket_connection c2 then fail_with (abort_websocket pa n c2)
            else
              (case start_input_thread (s_thread_ok s) c2 of
                 (c3, False) \<Rightarrow> fail_with (abort_websocket pa n c3)
               | (c3, True) \<Rightarrow> Inr (c3, True))))"

definition start_token :: "pa_env \<Rightarrow> net \<Rightarrow> start_env \<Rightarrow> client \<Rightarrow> (client \<times> bool) res" where
  "start_token pa n s c =
     bind_res (http_get_jwt_token n (s_request_ok s) (current_jwt_token (http_sys c)) MAX_JWT_TOKEN_LENGTH
                 (http_sys c)) (\<lambda>(h, t, ok).
     (let c1 = c\<lparr>http_sys := h\<lparr>current_jwt_token := t\<rparr>\<rparr> in
      if \<not> ok then fail_with (abort_http pa n c1) else start_connection pa n s c1))"

definition start_program :: "pa_env \<Rightarrow> net \<Rightarrow> start_env \<Rightarrow> client \<Rightarrow> (client \<times> bool) res" where
  "start_program pa n s c =
     (let c0 = c\<lparr>mq := init_message_queue (mq c)\<rparr> in
      case init_audio pa (s_recording s) (audio_sys c0) of
        (a, False) \<Rightarrow> fail_with (free_queue (c0\<lparr>audio_sys := a\<rparr>))
      | (a, True) \<Rightarrow>
          (let c1 = c0\<lparr>audio_sys := a\<rparr> in
           case http_init (http_sys c1) of
             (h, False) \<Rightarrow> fail_with (abort_audio pa (c1\<lparr>http_sys := h\<rparr>))
           | (h, True) \<Rightarrow> start_token pa n s (c1\<lparr>http_sys := h\<rparr>)))"

section \<open>Running\<close>

text \<open>
  The steps of the running program, in the order in which they take effect: the main thread
  and the input thread, which both run WebSocket events, the signal handler and the two
  PortAudio callbacks.
\<close>

datatype thread_step =
    Event callback_reason
  | Line string
  | EndOfInput
  | Signal
  | Captured "byte list option"
  | PlaybackFrames nat

text \<open>The streaming callback of main.c.\<close>

definition handle_audio_chunk :: "net \<Rightarrow> byte list \<Rightarrow> client \<Rightarrow> client" where
  "handle_audio_chunk n chunk c = c\<lparr>http_sys := fst (http_stream_audio_chunk n (Some chunk) (http_sys c))\<rparr>"

fun client_step :: "input_env \<Rightarrow> thread_step \<Rightarrow> client \<Rightarrow> client res" where
  "client_step e (Event r) c = bind_res (websocket_callback (e_pa e) r c) (\<lambda>(c', a). Inr c')"
| "client_step e (Line l) c = handle_line e l c"
| "client_step e EndOfInput c = Inr (c\<lparr>should_exit := True\<rparr>)"
| "client_step e Signal c = Inr (signal_handler c)"
| "client_step e (Captured inp) c =
     bind_res (recording_callback inp (audio_sys c)) (\<lambda>(a, fwd).
     (let c1 = c\<lparr>audio_sys := a\<rparr> in
      Inr (case fwd of None \<Rightarrow> c1 | Some d \<Rightarrow> handle_audio_chunk (e_net e) d c1)))"
| "client_step e (PlaybackFrames k) c =
     bind_res (streaming_playback_callback True k (audio_sys c)) (\<lambda>r.
     Inr (case r of Wait \<Rightarrow> c | Done (a, out) \<Rightarrow> c\<lparr>audio_sys := a\<rparr>))"

fun run_client :: "input_env \<Rightarrow> thread_step list \<Rightarrow> client \<Rightarrow> client res" where
  "run_client e [] c = Inr c"
| "run_client e (s # ss) c = bind_res (client_step e s c) (run_client e ss)"

section \<open>Stopping\<close>

definition shut_down :: "pa_env \<Rightarrow> net \<Rightarrow> client \<Rightarrow> client res" where
  "shut_down pa n c =
     (let c1 = stop_input_thread c;
          c2 = disconnect_from_server c1;
          c3 = cleanup_websocket_client c2;
          c4 = free_http n c3
      in bind_res (free_queue c4) (\<lambda>c5. Inr (free_audio pa c5)))"

text \<open>The second component is the exit status.\<close>

definition main_program ::
    "start_env \<Rightarrow> input_env \<Rightarrow> thread_step list \<Rightarrow> (client \<times> nat) res" where
  "main_program s e steps =
     bind_res (start_program (e_pa e) (e_net e) s static_client) (\<lambda>(c, ok).
     if \<not> ok then Inr (c, 1)
     else
       bind_res (run_client e steps c) (\<lambda>c1.
       bind_res (shut_down (e_pa e) (e_net e) c1) (\<lambda>c2. Inr (c2, 0))))"

section \<open>What a stopped program has released\<close>

definition released :: "client \<Rightarrow> bool" where
  "released c \<longleftrightarrow>
     dom (mem (qheap (mq c))) = {} \<and>
     net_log_legal (net_log (http_sys c)) \<and> open_socks (net_log (http_sys c)) = {} \<and>
     pa_log_legal (pa_log (audio_sys c)) \<and>
     opened_streams (pa_log (audio_sys c)) \<subseteq> closed_calls (pa_log (audio_sys c)) \<and>
     \<not> audio_initialized (audio_sys c) \<and> \<not> websocket_context c"

lemma free_queue_ok:
  assumes "text_queue (mq c)"
  shows "\<exists>q. free_queue c = Inr (c\<lparr>mq := q\<rparr>) \<and> dom (mem (qheap q)) = {}"
proof -
  have "queue_inv (mq c)" "leak_free (mq c)" using assms by (simp_all add: text_queue_def)
  with cleanup_ok[of "mq c"] show ?thesis by (auto simp: free_queue_def leak_free_def)
qed

lemma http_inv_legal: "http_inv h \<Longrightarrow> net_log_legal (net_log h)"
  by (simp add: http_inv_defs socks_inv_def)

lemma abort_http_released:
  assumes c: "client_inv c" and "\<not> websocket_context c"
  shows "\<exists>c'. abort_http pa n c = Inr c' \<and> released c'"
proof -
  let ?c = "free_audio pa (free_http n c)"
  have "text_queue (mq ?c)" using c by (simp add: free_audio_def free_http_def client_inv_def)
  from free_queue_ok[OF this] obtain q where q: "free_queue ?c = Inr (?c\<lparr>mq := q\<rparr>)" "dom (mem (qheap q)) = {}"
    by blast
  have h: "http_inv (http_sys c)" and a: "audio_ready (audio_sys c)" using c by (simp_all add: client_inv_def)
  from q cleanup_audio_ok[OF a, of pa] http_cleanup_ok[OF h, of n] assms(2) show ?thesis
    by (simp add: abort_http_def abort_audio_def released_def free_audio_def free_http_def
        audio_released_def http_inv_legal)
qed

lemma cleanup_websocket_ok: "client_inv (cleanup_websocket_client c) = client_inv c"
    "\<not> websocket_context (cleanup_websocket_client c)"
  by (simp_all add: cleanup_websocket_client_def)

lemma abort_websocket_released:
  "client_inv c \<Longrightarrow> \<exists>c'. abort_websocket pa n c = Inr c' \<and> released c'"
  unfolding abort_websocket_def by (rule abort_http_released) (simp_all add: cleanup_websocket_ok)

lemma shut_down_released:
  assumes c: "client_inv c"
  shows "\<exists>c'. shut_down pa n c = Inr c' \<and> released c'"
proof -
  let ?c3 = "cleanup_websocket_client (disconnect_from_server (stop_input_thread c))"
  have c3: "client_inv ?c3" "\<not> websocket_context ?c3"
    using c by (simp_all add: cleanup_websocket_ok disconnect_from_server_def stop_input_thread_def)
  let ?c4 = "free_http n ?c3"
  have "text_queue (mq ?c4)" using c3(1) by (simp add: free_http_def client_inv_def)
  from free_queue_ok[OF this] obtain q where q: "free_queue ?c4 = Inr (?c4\<lparr>mq := q\<rparr>)" "dom (mem (qheap q)) = {}"
    by blast
  have h: "http_inv (http_sys ?c3)" and a: "audio_ready (audio_sys ?c3)" using c3(1) by (simp_all add: client_inv_def)
  from q cleanup_audio_ok[OF a, of pa] http_cleanup_ok[OF h, of n] c3(2) show ?thesis
    by (simp add: shut_down_def Let_def released_def free_audio_def free_http_def audio_released_def
        http_inv_legal)
qed

section \<open>Every step keeps the invariant\<close>

fun step_ok :: "thread_step \<Rightarrow> bool" where
  "step_ok (Event r) \<longleftrightarrow> reason_ok r"
| "step_ok _ \<longleftrightarrow> True"

lemma handle_audio_chunk_inv: "client_inv c \<Longrightarrow> client_inv (handle_audio_chunk n d c)"
  by (simp add: handle_audio_chunk_def client_inv_def incoming_ok_def http_stream_chunk_inv)

lemma client_step_inv:
  assumes c: "client_inv c" and ok: "step_ok s"
  shows "\<exists>c'. client_step e s c = Inr c' \<and> client_inv c'"
proof (cases s)
  case (Event r)
  with websocket_callback_inv[OF c, of r "e_pa e"] ok show ?thesis by auto
next
  case (Line l)
  with handle_line_inv[OF c] show ?thesis by simp
next
  case (Captured inp)
  have "audio_ready (audio_sys c)" using c by (simp add: client_inv_def)
  from recording_callback_ready[OF this, of inp] obtain a fwd where
    a: "recording_callback inp (audio_sys c) = Inr (a, fwd)" "audio_ready a" by blast
  from client_inv_audio[OF c a(2)] handle_audio_chunk_inv a(1) Captured show ?thesis
    by (auto simp: Let_def split: option.split)
next
  case (PlaybackFrames k)
  have "audio_ready (audio_sys c)" using c by (simp add: client_inv_def)
  from playback_callback_ready[OF this, of k] client_inv_audio[OF c] c PlaybackFrames show ?thesis by auto
qed (use c in \<open>simp_all add: signal_handler_def\<close>)

lemma run_client_inv:
  "client_inv c \<Longrightarrow> \<forall>s \<in> set ss. step_ok s \<Longrightarrow> \<exists>c'. run_client e ss c = Inr c' \<and> client_inv c'"
proof (induction ss arbitrary: c)
  case Nil
  then show ?case by simp
next
  case (Cons s ss)
  from client_step_inv[OF Cons.prems(1), of s e] Cons.prems(2) obtain c1 where
    "client_step e s c = Inr c1" "client_inv c1" by auto
  with Cons show ?case by simp
qed

lemma lws_service_inv:
  "client_inv c \<Longrightarrow> \<forall>r \<in> set rs. reason_ok r \<Longrightarrow> \<exists>c'. lws_service pa rs c = Inr c' \<and> client_inv c'"
proof (induction rs arbitrary: c)
  case Nil
  then show ?case by simp
next
  case (Cons r rs)
  from websocket_callback_inv[OF Cons.prems(1), of r pa] Cons.prems(2) obtain c1 a where
    c1: "websocket_callback pa r c = Inr (c1, a)" "client_inv c1" by auto
  with Cons show ?case by (cases a) auto
qed

lemma wait_connect_inv:
  "client_inv c \<Longrightarrow> \<forall>rs \<in> set svs. \<forall>r \<in> set rs. reason_ok r \<Longrightarrow>
   \<exists>c'. wait_connect pa k svs c = Inr c' \<and> client_inv c'"
proof (induction k arbitrary: svs c)
  case 0
  then show ?case by simp
next
  case (Suc k)
  show ?case
  proof (cases svs)
    case Nil
    with Suc show ?thesis by simp
  next
    case (Cons s svs')
    from lws_service_inv[OF Suc.prems(1), of s pa] Suc.prems(2) Cons obtain c1 where
      "lws_service pa s c = Inr c1" "client_inv c1" by auto
    with Suc Cons show ?thesis by simp
  qed
qed

section \<open>Starting either runs or releases\<close>

definition start_env_ok :: "start_env \<Rightarrow> bool" where
  "start_env_ok s \<longleftrightarrow>
     (\<forall>b. s_recording s = Some b \<longrightarrow> length b = recording_capacity) \<and>
     (\<forall>rs \<in> set (s_services s). \<forall>r \<in> set rs. reason_ok r)"

definition start_result :: "(client \<times> bool) res \<Rightarrow> bool" where
  "start_result r \<longleftrightarrow> (\<exists>c ok. r = Inr (c, ok) \<and>
     (if ok then client_inv c \<and> websocket_connection c \<and> input_thread_running c else released c))"

lemma start_result_fail: "r = Inr c \<Longrightarrow> released c \<Longrightarrow> start_result (fail_with r)"
  by (auto simp: start_result_def fail_with_def)

lemma start_connection_ok:
  assumes c: "client_inv c" and "\<not> websocket_context c" and s: "start_env_ok s"
  shows "start_result (start_connection pa n s c)"
proof -
  have ab: "start_result (fail_with (abort_websocket pa n c'))" if "client_inv c'" for c'
    using abort_websocket_released[OF that] start_result_fail by blast
  let ?c1 = "c\<lparr>websocket_context := True\<rparr>"
  have c1: "client_inv ?c1" using c by simp
  obtain c2 where c2: "wait_connect pa 10 (s_services s) ?c1 = Inr c2" "client_inv c2"
    using wait_connect_inv[OF c1, of "s_services s"] s unfolding start_env_ok_def by blast
  have no_context: "start_result (fail_with (abort_http pa n (c\<lparr>websocket_context := False\<rparr>)))"
    using abort_http_released[of "c\<lparr>websocket_context := False\<rparr>"] c start_result_fail by fastforce
  show ?thesis
  proof (cases "s_context_ok s \<and> s_connect_ok s \<and> websocket_connection c2")
    case True
    moreover have "start_result (fail_with (abort_websocket pa n (c2\<lparr>input_thread_running := True\<rparr>)))"
      using ab c2(2) by simp
    moreover have "start_result (Inr (c2\<lparr>input_thread_running := True\<rparr>, True))"
      using True c2(2) by (auto simp: start_result_def)
    ultimately show ?thesis using c2(1)
      by (cases "s_thread_ok s")
        (simp_all add: start_connection_def init_websocket_client_def connect_to_server_def start_input_thread_def)
  next
    case False
    with no_context ab[OF c1] ab[OF c2(2)] c2(1) show ?thesis
      by (cases "s_context_ok s"; cases "s_connect_ok s")
        (simp_all add: start_connection_def init_websocket_client_def connect_to_server_def)
  qed
qed

lemma start_token_ok:
  assumes c: "client_inv c" and ctx: "\<not> websocket_context c" and s: "start_env_ok s"
    and len: "length (current_jwt_token (http_sys c)) = MAX_JWT_TOKEN_LENGTH"
  shows "start_result (start_token pa n s c)"
proof -
  have "http_inv (http_sys c)" using c by (simp add: client_inv_def)
  from http_get_jwt_token_ok[OF this len, of n "s_request_ok s"] obtain h t ok where
    h: "http_get_jwt_token n (s_request_ok s) (current_jwt_token (http_sys c)) MAX_JWT_TOKEN_LENGTH (http_sys c)
        = Inr (h, t, ok)" "http_inv h" by blast
  let ?c1 = "c\<lparr>http_sys := h\<lparr>current_jwt_token := t\<rparr>\<rparr>"
  have "http_inv (h\<lparr>current_jwt_token := t\<rparr>)" using h(2) by (simp add: http_inv_def)
  then have c1: "client_inv ?c1" using client_inv_http[OF c] by blast
  have ctx1: "\<not> websocket_context ?c1" using ctx by simp
  have "start_result (fail_with (abort_http pa n ?c1))"
    using abort_http_released[OF c1 ctx1] start_result_fail by blast
  with start_connection_ok[OF c1 ctx1 s] h(1) show ?thesis by (simp add: start_token_def Let_def)
qed

text \<open>A failed \<open>init_audio\<close> has closed what it opened.\<close>

lemma init_audio_failed:
  assumes "init_audio pa raw static_audio = (st, False)"
  shows "pa_log_legal (pa_log st)" and "opened_streams (pa_log st) \<subseteq> closed_calls (pa_log st)"
    and "\<not> audio_initialized st"
proof -
  have "pa_log_legal (pa_log st) \<and> opened_streams (pa_log st) \<subseteq> closed_calls (pa_log st) \<and> \<not> audio_initialized st"
    using assms
    by (auto simp: init_audio_def pa_simps static_audio_def pa_log_legal_def opened_streams_def closed_calls_def
        split: bool.splits option.splits)
  then show "pa_log_legal (pa_log st)" "opened_streams (pa_log st) \<subseteq> closed_calls (pa_log st)"
    "\<not> audio_initialized st" by simp_all
qed

lemma client_inv_start:
  assumes "audio_ready a"
  shows "client_inv (static_client\<lparr>audio_sys := a, http_sys := static_http\<lparr>http_initialized := True\<rparr>\<rparr>)"
proof -
  have "text_queue static_queue" by (simp add: text_queue_def queue_inv_static text_only_static leak_free_static)
  moreover have "http_inv (static_http\<lparr>http_initialized := True\<rparr>)"
    using http_inv_static by (simp add: http_inv_def)
  ultimately show ?thesis
    using assms INCOMING_BUFFER_SIZE_pos by (simp add: client_inv_def static_client_def incoming_ok_def)
qed

lemma start_program_ok:
  assumes s: "start_env_ok s"
  shows "start_result (start_program pa n s static_client)"
proof -
  let ?c0 = "static_client\<lparr>mq := init_message_queue (mq static_client)\<rparr>"
  have c0: "?c0 = static_client" by (simp add: static_client_def)
  obtain a ok where a: "init_audio pa (s_recording s) static_audio = (a, ok)"
    by (cases "init_audio pa (s_recording s) static_audio")
  have aud: "audio_sys static_client = static_audio" by (simp add: static_client_def)
  show ?thesis
  proof (cases ok)
    case True
    then obtain b where b: "s_recording s = Some b"
      using a by (auto simp: init_audio_def static_audio_def pa_simps split: bool.splits option.splits)
    have "audio_ready a"
      by (rule init_audio_ready) (use a b s True in \<open>auto simp: start_env_ok_def\<close>)
    note inv = client_inv_start[OF this]
    let ?c = "static_client\<lparr>audio_sys := a, http_sys := static_http\<lparr>http_initialized := True\<rparr>\<rparr>"
    have eq: "start_program pa n s static_client = start_token pa n s ?c"
      using a True by (simp add: start_program_def c0 aud Let_def http_init_def) (simp add: static_client_def static_http_def)
    show ?thesis unfolding eq
      by (rule start_token_ok[OF inv _ s]) (simp_all add: static_client_def static_http_def)
  next
    case False
    let ?c = "static_client\<lparr>audio_sys := a\<rparr>"
    have "text_queue (mq ?c)"
      by (simp add: static_client_def text_queue_def queue_inv_static text_only_static leak_free_static)
    from free_queue_ok[OF this] obtain q where q: "free_queue ?c = Inr (?c\<lparr>mq := q\<rparr>)" "dom (mem (qheap q)) = {}"
      by blast
    have "released (?c\<lparr>mq := q\<rparr>)"
      using init_audio_failed[of pa "s_recording s" a] a False q(2)
      by (simp add: released_def static_client_def static_http_def)
    from start_result_fail[OF q(1) this] show ?thesis
      using a False by (simp add: start_program_def c0 aud Let_def)
  qed
qed

section \<open>Properties\<close>



text \<open>
  The wait for the connection makes at most the given number of service calls, ten in
  \<open>main\<close>: events of later calls make no difference.
\<close>

lemma connection_attempts_bounded:
  "wait_connect pa k svs c = wait_connect pa k (take k svs) c"
proof (induction k arbitrary: svs c)
  case 0
  show ?case by simp
next
  case (Suc k)
  show ?case
  proof (cases svs)
    case Nil
    then show ?thesis by simp
  next
    case (Cons s svs')
    have "wait_connect pa k svs' = wait_connect pa k (take k svs')" using Suc.IH by blast
    with Cons show ?thesis by simp
  qed
qed

end
