(* ===== verification/Doll_Replica.thy ===== *)
theory Doll_Replica
  imports Websocket_Client
begin

text \<open>
  The second program, doll-replica: it fetches a token, connects, and plays every frame it
  receives through a blocking PortAudio stream.  Socket calls are logged in the \<open>net_log\<close> of
  an \<open>http\<close> state and PortAudio calls in the \<open>pa_log\<close> of an \<open>audio\<close> state, of which nothing
  else is used here.
\<close>

section \<open>State\<close>

record replica =
  r_net :: http
  r_pa :: audio
  ws_jwt_token :: string
  ws_user_data :: "nat option"
  played :: "byte list"
  headers :: "string list"
  ws_context :: bool

definition static_replica :: replica where
  "static_replica = \<lparr>r_net = static_http, r_pa = static_audio, ws_jwt_token = replicate 1024 NUL,
     ws_user_data = None, played = [], headers = [], ws_context = False\<rparr>"

section \<open>The token\<close>

definition replica_request :: string where
  "replica_request = snprintf_str 1024
     (''POST /api/v1/auth/token HTTP/1.1'' @ CRLF @
      ''Host: '' @ SERVER_ADDRESS @ '':'' @ dec_str SERVER_PORT @ CRLF @
      ''X-API-Key: '' @ HTTP_API_KEY @ CRLF @
      ''X-API-Secret: '' @ HTTP_API_SECRET @ CRLF @
      ''Content-Type: application/json'' @ CRLF @
      ''Content-Length: 0'' @ CRLF @
      ''Connection: close'' @ CRLF @ CRLF)"

definition replica_receive :: "net \<Rightarrow> nat \<Rightarrow> http \<Rightarrow> http \<times> string option" where
  "replica_receive n s st =
     (case net_do n (NetRecv s 4095) st of
        (r, st1) \<Rightarrow>
          (let d = recv_bytes n s 4095 st
           in (net_close n s st1, if r = None \<or> d = [] then None else Some (cstr (chars_of d)))))"

definition replica_exchange :: "net \<Rightarrow> http \<Rightarrow> http \<times> string option" where
  "replica_exchange n st =
     (let s = length (net_log st) in
      case net_do n NetSocket st of
        (None, st1) \<Rightarrow> (st1, None)
      | (Some _, st1) \<Rightarrow>
          net_try n NetResolve s st1 (\<lambda>st2.
          net_try n (NetConnect s) s st2 (\<lambda>st3.
          net_try n (NetSend s (bytes_of replica_request)) s st3 (replica_receive n s))))"

definition get_jwt_token :: "net \<Rightarrow> string \<Rightarrow> nat \<Rightarrow> http \<Rightarrow> (http \<times> string \<times> bool) res" where
  "get_jwt_token n jwt_token max_length st =
     (case replica_exchange n st of
        (st', None) \<Rightarrow> Inr (st', jwt_token, False)
      | (st', Some resp) \<Rightarrow>
          (case find_field resp TOKEN_KEY 9 of
             None \<Rightarrow> Inr (st', jwt_token, False)
           | Some (token_start, len) \<Rightarrow>
               if len < max_length
               then bind_res (copy_field jwt_token token_start len) (\<lambda>t. Inr (st', t, True))
               else Inr (st', jwt_token, False)))"

section \<open>Playback\<close>

definition playback_init :: "pa_env \<Rightarrow> audio \<Rightarrow> audio \<times> nat option" where
  "playback_init pa st =
     (case pa_do pa PaInitialize st of
        (False, st1) \<Rightarrow> (st1, None)
      | (True, st1) \<Rightarrow>
          (let h = fresh_handle st1 in
           case pa_do pa (PaOpen h) st1 of
             (False, st2) \<Rightarrow> (pa_run pa PaTerminate st2, None)
           | (True, st2) \<Rightarrow>
               (case pa_do pa (PaStart h) st2 of
                  (False, st3) \<Rightarrow> (pa_run pa PaTerminate (pa_run pa (PaClose h) st3), None)
                | (True, st3) \<Rightarrow> (st3, Some h))))"

definition playback_close :: "pa_env \<Rightarrow> nat option \<Rightarrow> audio \<Rightarrow> audio" where
  "playback_close pa stream st =
     pa_run pa PaTerminate
       (case stream of None \<Rightarrow> st | Some h \<Rightarrow> pa_run pa (PaClose h) (pa_run pa (PaStop h) st))"

text \<open>
  \<open>Pa_WriteStream(stream, data, len / 2)\<close> on a stream of 16-bit mono samples: what the device
  is given, or \<open>None\<close> where nothing is written.
\<close>

definition playback_write :: "nat option \<Rightarrow> byte list \<Rightarrow> byte list option" where
  "playback_write stream d = (if stream = None \<or> d = [] then None else Some (take (length d div 2 * 2) d))"

section \<open>WebSocket\<close>

datatype replica_reason = ReplicaReceive "byte list" | ReplicaHandshake bool | ReplicaOther

definition ws_callback :: "replica_reason \<Rightarrow> replica \<Rightarrow> replica \<times> nat" where
  "ws_callback reason r =
     (case reason of
        ReplicaReceive d \<Rightarrow>
          (case (if ws_user_data r \<noteq> None \<and> d \<noteq> [] then playback_write (ws_user_data r) d else None) of
             None \<Rightarrow> (r, 0)
           | Some out \<Rightarrow> (r\<lparr>played := played r @ out\<rparr>, 0))
      | ReplicaHandshake failed \<Rightarrow>
          (r\<lparr>headers := headers r @ [snprintf_str 1024 (''Bearer '' @ cstr (ws_jwt_token r))]\<rparr>,
           if failed then 1 else 0)
      | ReplicaOther \<Rightarrow> (r, 0))"

definition websocket_connect :: "bool \<Rightarrow> string \<Rightarrow> nat option \<Rightarrow> replica \<Rightarrow> (replica \<times> bool) res" where
  "websocket_connect started jwt_token user_data r =
     bind_res (strncpy_at (ws_jwt_token r) 0 jwt_token 1023) (\<lambda>t.
     Inr (r\<lparr>ws_jwt_token := t, ws_user_data := user_data\<rparr>, started))"

text \<open>The events of the service calls until one returns a negative value.\<close>

definition websocket_service_loop :: "replica_reason list \<Rightarrow> replica \<Rightarrow> replica" where
  "websocket_service_loop evs r = fold (\<lambda>e s. fst (ws_callback e s)) evs r"

section \<open>The program\<close>

definition close_replica :: "pa_env \<Rightarrow> nat option \<Rightarrow> replica \<Rightarrow> replica" where
  "close_replica pa stream r = r\<lparr>r_pa := playback_close pa stream (r_pa r)\<rparr>"

text \<open>\<open>ctx\<close>, \<open>conn\<close>: the context is created, the connection is started.  The result has the exit status.\<close>

definition replica_main ::
    "net \<Rightarrow> pa_env \<Rightarrow> bool \<Rightarrow> bool \<Rightarrow> replica_reason list \<Rightarrow> replica \<Rightarrow> (replica \<times> nat) res" where
  "replica_main n pa ctx conn evs r0 =
     bind_res (get_jwt_token n (replicate MAX_JWT_TOKEN_LENGTH NUL) MAX_JWT_TOKEN_LENGTH (r_net r0)) (\<lambda>(h, t, ok).
     (let r1 = r0\<lparr>r_net := h\<rparr> in
      if \<not> ok then Inr (r1, 1)
      else
        (case playback_init pa (r_pa r1) of
           (a, None) \<Rightarrow> Inr (r1\<lparr>r_pa := a\<rparr>, 1)
         | (a, Some s) \<Rightarrow>
             (let r2 = r1\<lparr>r_pa := a, ws_context := ctx\<rparr> in
              if \<not> ctx then Inr (close_replica pa (Some s) r2, 1)
              else
                bind_res (websocket_connect conn (cstr t) (Some s) r2) (\<lambda>(r3, started).
                if \<not> started then Inr (close_replica pa (Some s) (r3\<lparr>ws_context := False\<rparr>), 1)
                else
                  (let r4 = websocket_service_loop evs r3
                   in Inr (close_replica pa (Some s) (r4\<lparr>ws_context := False\<rparr>), 0)))))))"

section \<open>Lemmas\<close>

lemma replica_exchange_inv:
  assumes "socks_inv S st"
  shows "socks_inv S (fst (replica_exchange n st))"
proof (cases "net_do n NetSocket st")
  case (Pair r st1)
  let ?s = "length (net_log st)"
  have fresh: "?s \<notin> S" using assms by (rule socks_inv_fresh)
  have recv: "socks_inv S (fst (replica_receive n ?s st'))" if "socks_inv (insert ?s S) st'" for st'
  proof -
    have "socks_inv (insert ?s S) (snd (net_do n (NetRecv ?s 4095) st'))"
      by (rule socks_inv_do[OF that]) (simp_all add: neutral_def)
    from socks_inv_close[OF this, of ?s n] fresh show ?thesis
      by (simp add: replica_receive_def Let_def split: prod.split)
        (metis snd_conv)
  qed
  show ?thesis
  proof (cases r)
    case None
    with Pair socks_inv_no_socket[OF assms] show ?thesis by (simp add: replica_exchange_def)
  next
    case (Some v)
    have st1: "socks_inv (insert ?s S) st1" using Pair Some socks_inv_socket[OF assms] by simp
    have "socks_inv S (fst (net_try n NetResolve ?s st1 (\<lambda>st2. net_try n (NetConnect ?s) ?s st2
        (\<lambda>st3. net_try n (NetSend ?s (bytes_of replica_request)) ?s st3 (replica_receive n ?s)))))"
      by (intro net_try_inv[OF _ fresh] st1 recv) (simp_all add: neutral_def)
    with Some Pair show ?thesis by (simp add: replica_exchange_def Let_def)
  qed
qed

lemma replica_exchange_no_nul:
  assumes "replica_exchange n st = (st', Some resp)"
  shows "no_nul resp"
proof -
  have t: "no_nul resp" if "net_try n c s st k = (st', Some resp)"
    and "\<And>st st' resp. k st = (st', Some resp) \<Longrightarrow> no_nul resp" for c s k st st' resp
    using that by (auto simp: net_try_def split: prod.splits option.splits)
  have "no_nul resp" if "replica_receive n s st = (st', Some resp)" for s st st' resp
    using that by (auto simp: replica_receive_def Let_def split: prod.splits if_splits)
  with assms show ?thesis
    by (auto simp: replica_exchange_def Let_def split: prod.splits option.splits elim!: t)
qed

lemma get_jwt_token_ok:
  assumes "socks_inv S st" and "length buf = m"
  shows "\<exists>st' t ok. get_jwt_token n buf m st = Inr (st', t, ok) \<and> socks_inv S st' \<and> length t = m"
proof -
  obtain st' r where e: "replica_exchange n st = (st', r)" by (cases "replica_exchange n st")
  have inv: "socks_inv S st'" using replica_exchange_inv[OF assms(1), of n] e by simp
  show ?thesis
  proof (cases "\<exists>resp start len. r = Some resp \<and> find_field resp TOKEN_KEY 9 = Some (start, len) \<and> len < m")
    case False
    with e inv assms(2) show ?thesis by (auto simp: get_jwt_token_def split: option.splits)
  next
    case True
    then obtain resp start len where f: "r = Some resp" "find_field resp TOKEN_KEY 9 = Some (start, len)" "len < m"
      by blast
    have "no_nul resp" using replica_exchange_no_nul e f(1) by blast
    from copy_field_token[OF f(2) this, of buf] f(3) assms(2) obtain d where
      "copy_field buf start len = Inr d" "length d = m" by auto
    with e f inv show ?thesis by (auto simp: get_jwt_token_def)
  qed
qed

lemma service_loop_played:
  "ws_user_data r = Some s \<Longrightarrow>
   played (websocket_service_loop (map ReplicaReceive ds) r) =
     played r @ concat (map (\<lambda>d. take (length d div 2 * 2) d) ds)"
proof (induction ds arbitrary: r)
  case Nil
  then show ?case by (simp add: websocket_service_loop_def)
next
  case (Cons d ds)
  let ?r = "fst (ws_callback (ReplicaReceive d) r)"
  have r: "ws_user_data ?r = Some s" "played ?r = played r @ take (length d div 2 * 2) d"
    using Cons.prems by (auto simp: ws_callback_def playback_write_def split: option.splits)
  from Cons.IH[OF r(1)] r(2) show ?case by (simp add: websocket_service_loop_def)
qed

lemma service_loop_fields:
  "r_net (websocket_service_loop evs r) = r_net r \<and> r_pa (websocket_service_loop evs r) = r_pa r \<and>
   ws_context (websocket_service_loop evs r) = ws_context r"
proof (induction evs arbitrary: r)
  case Nil
  then show ?case by (simp add: websocket_service_loop_def)
next
  case (Cons e evs)
  have "r_net (fst (ws_callback e r)) = r_net r" "r_pa (fst (ws_callback e r)) = r_pa r"
    "ws_context (fst (ws_callback e r)) = ws_context r"
    by (auto simp: ws_callback_def split: replica_reason.splits option.splits)
  with Cons.IH[of "fst (ws_callback e r)"] show ?case by (simp add: websocket_service_loop_def)
qed

definition pa_clean :: "audio \<Rightarrow> bool" where
  "pa_clean a \<longleftrightarrow> pa_log_legal (pa_log a) \<and> opened_streams (pa_log a) \<subseteq> closed_calls (pa_log a)"

lemma playback_init_fails:
  assumes "playback_init pa static_audio = (a, None)"
  shows "pa_clean a"
  using assms
  by (auto simp: playback_init_def pa_simps static_audio_def pa_clean_def pa_log_legal_def opened_streams_def
      closed_calls_def split: bool.splits)

lemma playback_init_close:
  assumes "playback_init pa static_audio = (a, Some s)"
  shows "pa_clean (playback_close pa (Some s) a)"
  using assms
  by (auto simp: playback_init_def playback_close_def pa_simps static_audio_def pa_clean_def pa_log_legal_def
      opened_streams_def closed_calls_def split: bool.splits)

definition replica_released :: "replica \<Rightarrow> bool" where
  "replica_released r \<longleftrightarrow>
     net_log_legal (net_log (r_net r)) \<and> open_socks (net_log (r_net r)) = {} \<and> pa_clean (r_pa r) \<and> \<not> ws_context r"

lemma websocket_connect_ok:
  assumes "length (ws_jwt_token r) = 1024"
  shows "\<exists>t. websocket_connect conn jwt u r = Inr (r\<lparr>ws_jwt_token := t, ws_user_data := u\<rparr>, conn)"
  using assms by (intro exI[of _ "strncpy_block jwt 1023 @ drop 1023 (ws_jwt_token r)"])
    (simp add: websocket_connect_def strncpy_at_def memcpy_at_0)

lemma replica_main_ok:
  "\<exists>r rc. replica_main n pa ctx conn evs static_replica = Inr (r, rc) \<and> replica_released r"
proof -
  have s0: "socks_inv {} (r_net static_replica)"
    by (simp add: static_replica_def static_http_def socks_inv_def)
  obtain h t ok where g: "get_jwt_token n (replicate MAX_JWT_TOKEN_LENGTH NUL) MAX_JWT_TOKEN_LENGTH
      (r_net static_replica) = Inr (h, t, ok)" "socks_inv {} h"
    using get_jwt_token_ok[OF s0, of "replicate MAX_JWT_TOKEN_LENGTH NUL" MAX_JWT_TOKEN_LENGTH n] by auto
  have net: "net_log_legal (net_log h)" "open_socks (net_log h) = {}" using g(2) by (simp_all add: socks_inv_def)
  have pa0: "r_pa static_replica = static_audio" "\<not> ws_context static_replica"
    "length (ws_jwt_token static_replica) = 1024" by (simp_all add: static_replica_def)
  have clean0: "pa_clean static_audio" by (simp add: pa_clean_def static_audio_def)
  obtain a str where p: "playback_init pa static_audio = (a, str)" by (cases "playback_init pa static_audio")
  show ?thesis
  proof (cases "\<exists>s. ok \<and> str = Some s")
    case False
    then have "\<not> ok \<or> str = None" by auto
    with g(1) net pa0 clean0 p playback_init_fails show ?thesis
      by (cases ok) (auto simp: replica_main_def Let_def replica_released_def)
  next
    case True
    then obtain s where s: "ok" "str = Some s" by blast
    note close = playback_init_close[OF p[unfolded s(2)]]
    let ?r2 = "static_replica\<lparr>r_net := h, r_pa := a, ws_context := ctx\<rparr>"
    obtain t' where w: "websocket_connect conn (cstr t) (Some s) ?r2 =
        Inr (?r2\<lparr>ws_jwt_token := t', ws_user_data := Some s\<rparr>, conn)"
      using websocket_connect_ok[of ?r2 conn "cstr t" "Some s"] pa0(3) by auto
    show ?thesis
      using g(1) p s close net pa0 w service_loop_fields
      by (cases ctx; cases conn) (simp_all add: replica_main_def Let_def replica_released_def close_replica_def)
  qed
qed

section \<open>The test program of doll-replica-c\<close>

text \<open>test_http.c: \<open>uninit\<close> is the uninitialised local array.\<close>

definition test_http_main :: "net \<Rightarrow> bool \<Rightarrow> bool \<Rightarrow> string \<Rightarrow> http \<Rightarrow> (http \<times> nat) res" where
  "test_http_main n mok1 mok2 uninit st =
     (case http_init st of
        (st1, False) \<Rightarrow> Inr (st1, 1)
      | (st1, True) \<Rightarrow>
          (case http_health_check n mok1 st1 of
             (st2, False) \<Rightarrow> Inr (http_cleanup n st2, 1)
           | (st2, True) \<Rightarrow>
               bind_res (http_get_jwt_token n mok2 uninit MAX_JWT_TOKEN_LENGTH st2) (\<lambda>(st3, t, ok).
               Inr (http_cleanup n st3, if ok then 0 else 1))))"

lemma test_http_ok:
  assumes "length uninit = MAX_JWT_TOKEN_LENGTH"
  shows "\<exists>st rc. test_http_main n mok1 mok2 uninit static_http = Inr (st, rc) \<and>
    net_log_legal (net_log st) \<and> open_socks (net_log st) = {}"
proof -
  let ?st1 = "static_http\<lparr>http_initialized := True\<rparr>"
  have i: "http_init static_http = (?st1, True)" by (simp add: http_init_def static_http_def)
  have inv1: "http_inv ?st1" using http_init_inv[OF http_inv_static] i by simp
  obtain st2 ok where h: "http_health_check n mok1 ?st1 = (st2, ok)" by (cases "http_health_check n mok1 ?st1")
  have inv2: "http_inv st2" using http_health_check_inv[OF inv1, of n mok1] h by simp
  from http_get_jwt_token_ok[OF inv2 assms, of n mok2] obtain st3 t ok' where
    g: "http_get_jwt_token n mok2 uninit MAX_JWT_TOKEN_LENGTH st2 = Inr (st3, t, ok')" "http_inv st3" by blast
  have leg: "net_log_legal (net_log st)" if "http_inv st" for st using that by (simp add: http_inv_defs socks_inv_def)
  from i h g http_cleanup_ok[OF inv2, of n] http_cleanup_ok[OF g(2), of n] leg show ?thesis
    by (cases ok) (simp_all add: test_http_main_def)
qed

section \<open>Properties\<close>


text \<open>
  C26: the second program plays exactly the frames it receives, each without a last odd byte; so
  the stream is played unchanged if and only if every frame has an even number of bytes.
\<close>

theorem replica_plays_frames:
  assumes "ws_user_data r = Some s"
  shows "played (websocket_service_loop (map ReplicaReceive ds) r) =
      played r @ concat (map (\<lambda>d. take (length d - length d mod 2) d) ds) \<and>
    (played (websocket_service_loop (map ReplicaReceive ds) r) = played r @ concat ds \<longleftrightarrow>
      (\<forall>d \<in> set ds. even (length d)))"
proof -
  let ?f = "\<lambda>d :: byte list. take (length d - length d mod 2) d"
  have eq: "take (length d div 2 * 2) d = ?f d" for d :: "byte list"
    by (simp add: minus_mod_eq_div_mult)
  have l: "length (concat (map ?f ds)) + length (filter (\<lambda>d. odd (length d)) ds) = length (concat ds)"
  proof (induction ds)
    case (Cons d ds)
    have "length (?f d) + length d mod 2 = length d" by simp
    moreover have "length d mod 2 = (if odd (length d) then 1 else 0)" by (simp add: mod_2_eq_odd)
    ultimately show ?case using Cons by (simp del: length_take split: if_splits)
  qed simp
  have "concat (map ?f ds) = concat ds" if "\<forall>d \<in> set ds. even (length d)"
    using that by (intro arg_cong[where f = concat] map_idI) auto
  moreover have "\<forall>d \<in> set ds. even (length d)" if "concat (map ?f ds) = concat ds"
  proof -
    have "length (filter (\<lambda>d. odd (length d)) ds) = 0" using l unfolding that by simp
    then show ?thesis by (simp add: filter_empty_conv)
  qed
  ultimately have "concat (map ?f ds) = concat ds \<longleftrightarrow> (\<forall>d \<in> set ds. even (length d))" by (rule iffI[rotated])
  then show ?thesis unfolding service_loop_played[OF assms, of ds] eq by (simp only: append_same_eq same_append_eq simp_thms)
qed

theorem replica_plays_frames_witness:
  "played (websocket_service_loop (map ReplicaReceive [[1, 2, 3], [4, 5]]) (static_replica\<lparr>ws_user_data := Some 1\<rparr>))
    = played static_replica @ [1, 2, 4, 5]"
  using replica_plays_frames[of "static_replica\<lparr>ws_user_data := Some 1\<rparr>" 1 "[[1, 2, 3], [4, 5]]"] by simp

text \<open>
  C29: the test program of the HTTP client ends on every path without a fault and with its
  sockets closed, whatever its uninitialised token array holds.
\<close>

theorem test_program_releases:
  assumes "length uninit = MAX_JWT_TOKEN_LENGTH"
  shows "\<exists>st rc. test_http_main n mok1 mok2 uninit static_http = Inr (st, rc) \<and>
    net_log_legal (net_log st) \<and> open_socks (net_log st) = {}"
  using assms by (rule test_http_ok)

theorem test_program_releases_witness:
  "\<exists>st rc. test_http_main \<lparr>net_ret = (\<lambda>l c. Some 1), net_data = (\<lambda>l s. bytes_of ''healthy'')\<rparr> True False
      (replicate MAX_JWT_TOKEN_LENGTH (CHR ''x'')) static_http = Inr (st, rc) \<and>
    net_log_legal (net_log st) \<and> open_socks (net_log st) = {}"
  by (rule test_program_releases) simp

end
