(* ===== verification/Spec2Isabelle.thy ===== *)
theory Spec2Isabelle
  imports Utils Wav_Player Playback_Threads Chunked_Coding Main_Program Doll_Replica
begin

text \<open>
  Verification of the C programs of cocoa-fruit: doll-replica-c, a chat client that sends typed
  lines over a WebSocket, uploads recorded speech over HTTP and plays the audio the server
  sends, and doll-replica, a smaller player of the same stream.

  The program.  \<open>main\<close> (main.c) starts the message queue, the audio system, the HTTP client and
  the WebSocket client in this order and releases them on every exit.  The input thread
  (input_handler.c) reads lines: \<open>record\<close> and \<open>stop\<close> drive the recording of audio.c, and what was
  recorded is uploaded by http_client.c; any other line goes to the queue (message_queue.c).
  libwebsockets calls \<open>websocket_callback\<close> (websocket_client.c), which sends what is queued,
  shows text frames, and puts binary frames into the ring buffer of audio.c, which the PortAudio
  playback callback empties in a thread of its own.

  Theories.
    \<^item> Prelude: results with faults (\<open>'a res\<close>; a fault is an access outside an object, a null or
      stale pointer, a signed overflow), arrays, the heap of the queue, C strings and the string
      functions of the C library, decimal and hexadecimal printing.
    \<^item> Config: the constants of config.h, audio.h and http_client.h.
    \<^item> Interfaces: the contracts as locales, \<open>bounded_queue\<close>, \<open>byte_pipe\<close> and \<open>codec\<close>, with the
      clients' arguments made once.  They are interpreted as \<open>texts\<close> and \<open>datas\<close> (Message_Queue),
      \<open>ring\<close> (Ring_Buffer), \<open>b64\<close> (Audio_Base64) and \<open>chunks\<close> (Chunked_Coding).
    \<^item> Message_Queue: message_queue.c.  A \<open>queue\<close> holds the ten slots, head, tail and the heap
      with the large messages; \<open>queue_items\<close> is the list it stands for.  Every operation holds the
      mutex from its first to its last access, so it is one step.
    \<^item> Ring_Buffer: \<open>AudioRingBuffer\<close> and its four functions.  An operation that would call
      \<open>pthread_cond_wait\<close> has the outcome \<open>Wait\<close> and leaves the state as it is; it runs again
      when it is woken.
    \<^item> Audio_Device: the static state of audio.c with recording and streaming playback.  PortAudio
      is a function from the log of earlier calls to success or failure; each call is logged with
      the stream it uses, which says what is open and whether a call was legal.
    \<^item> Playback_Threads: the playback callback against the thread that plays and stops, as a step
      relation.
    \<^item> Utils, Audio_Base64, Wav_Player: utils.c, and the Base64 and WAV functions of audio.c.
    \<^item> Http_Client: http_client.c over a log of socket calls whose outcome and received bytes are
      parameters.  Chunked_Coding: the streaming session against a decoder of the chunked
      transfer coding.
    \<^item> Websocket_Client: \<open>websocket_callback\<close> and the functions around it.  \<open>client\<close> is the state of
      the whole program; what goes to libwebsockets or to the screen is its list of events.
    \<^item> Input_Handler: the input thread.  Main_Program: the start with its error exits, the running
      program as a list of thread steps, the shutdown.
    \<^item> Doll_Replica: the programs of doll-replica, and test_http.c.
    \<^item> This theory: the properties that span components.

  What is shown.  Each component has an invariant (\<open>queue_inv\<close>, \<open>ring_live\<close>, \<open>audio_ready\<close>,
  \<open>http_inv\<close>, \<open>client_inv\<close>) that its operations keep and under which no operation faults; the queue
  and the ring refine lists under every sequence of operations; Base64 and the chunked coding are
  inverted by their decoders; WAV files, transcription frames, tokens and response fields are
  read as they were written; nothing is left allocated or open at the end of any run of \<open>main\<close>,
  of the second program, or of the test program.  Where the code does not do this, the property
  says when: a text in a slot that was used for binary data, a Base64 text of a partial group,
  size fields that wrap around, headers longer than their arrays, responses that report an
  error, a second session, and a playback that is stopped while the callback waits for data.

  Bounds and loops.  The arrays have the sizes of the code (65536 bytes for a message, ten slots,
  256 KB for incoming text, 4096 bytes for a response, 1024 for a token).  Loops are structural
  or have a measure; the search for the data chunk and the wait for the end of the playback, which
  may run for ever, are partial functions into \<open>option\<close>, so that not returning is \<open>None\<close>.  The
  decoder of the chunked coding has a step for each byte, which is enough since every chunk
  takes at least one.  Counters of type \<open>int\<close> are checked against \<open>INT_MAX\<close>, size fields of WAV
  chunks are 32-bit words, and \<open>size_t\<close> subtractions wrap around in 64 bits.

  Not modelled.  The Go server under agentic/; what is printed, apart from text frames; the
  clock, PortAudio, sockets and libwebsockets, which are parameters (a step of libwebsockets is
  any event it may deliver); variables the code only declares (\<open>streaming_audio_buffer\<close>,
  the mutex and condition beside it); read errors of \<open>fgets\<close> other than the end of the input, and
  the wait for an input thread that is still inside \<open>fgets\<close> at the shutdown.
\<close>

section \<open>Properties that span components\<close>





end
